(* ===== verification/Prelude.thy ===== *)
theory Prelude
  imports Main "HOL-Library.Word" "HOL-Library.Multiset"
begin

text \<open>
  Shared vocabulary of the development: the integer types of the program at their
  widths, bytes and strings, the chaining of fallible computations, and the generic
  lemmas on lists and association lists that the components use.  The collections
  declared here name the facts that a group of proofs shares:
  \<^item> \<open>zrp_defs\<close>: definitions that the automation may unfold freely;
  \<^item> \<open>zrp_inv\<close>: definitions of invariants.
\<close>

unbundle bit_operations_syntax

named_theorems zrp_defs
named_theorems zrp_inv

section \<open>Integers and bytes\<close>

text \<open>
  \<open>char\<close> and \<open>uint8_t\<close> are eight bits, \<open>unsigned short\<close> sixteen, \<open>int\<close> thirty-two
  (read with \<^const>\<open>sint\<close>), \<open>uint64_t\<close> and \<open>size_t\<close> sixty-four.
\<close>

type_synonym byte = "8 word"
type_synonym u16 = "16 word"
type_synonym cint = "32 word"
type_synonym u64 = "64 word"

definition byte_of_char :: "char \<Rightarrow> byte" where
  "byte_of_char c = of_char c"

definition char_of_byte :: "byte \<Rightarrow> char" where
  "char_of_byte b = char_of (unat b)"

definition bytes_of :: "string \<Rightarrow> byte list" where
  "bytes_of s = map byte_of_char s"

definition string_of :: "byte list \<Rightarrow> string" where
  "string_of bs = map char_of_byte bs"

lemma unat_byte_of_char: "unat (byte_of_char c) = of_char c"
proof -
  have "(of_char c :: byte) = of_nat (of_char c)" by (simp only: of_nat_of_char)
  moreover have "(of_char c :: nat) < 256" by simp
  ultimately show ?thesis
    by (simp add: byte_of_char_def unat_of_nat del: of_nat_of_char)
qed

lemma char_of_byte_of_char [simp]: "char_of_byte (byte_of_char c) = c"
  by (simp add: char_of_byte_def unat_byte_of_char)

lemma string_of_bytes_of [simp]: "string_of (bytes_of s) = s"
  by (simp add: string_of_def bytes_of_def comp_def)

lemma length_bytes_of [simp]: "length (bytes_of s) = length s"
  by (simp add: bytes_of_def)

lemma bytes_of_Nil [simp]: "bytes_of [] = []"
  by (simp add: bytes_of_def)

lemma string_of_Nil [simp]: "string_of [] = []"
  by (simp add: string_of_def)

lemma bytes_of_append [simp]: "bytes_of (s @ t) = bytes_of s @ bytes_of t"
  by (simp add: bytes_of_def)

lemma string_of_append [simp]: "string_of (s @ t) = string_of s @ string_of t"
  by (simp add: string_of_def)

lemma string_of_concat: "string_of (concat bss) = concat (map string_of bss)"
  by (induction bss) (simp_all add: string_of_def)

lemma byte_less: "unat (b :: byte) < 256"
  using unsigned_less [of b] by simp

lemma bit_byteD: "bit (b :: byte) n \<Longrightarrow> n < 8"
  using bit_imp_le_length by fastforce

text \<open>The eight indices of a span of extent eight.\<close>

lemma octets:
  assumes "(q :: nat) < 8"
  obtains "q = 0" | "q = 1" | "q = 2" | "q = 3" | "q = 4" | "q = 5" | "q = 6" | "q = 7"
  using assms by linarith

section \<open>Fallible computations\<close>

text \<open>
  A computation that may throw returns a value of a sum: \<open>Inl\<close> is the exception,
  \<open>Inr\<close> the result.  \<open>ebind\<close> is sequencing: the exception skips the rest.
\<close>

fun ebind :: "'e + 'a \<Rightarrow> ('a \<Rightarrow> 'e + 'b) \<Rightarrow> 'e + 'b" where
  "ebind (Inl e) f = Inl e"
| "ebind (Inr a) f = f a"

lemma ebind_Inr_iff: "ebind m f = Inr b \<longleftrightarrow> (\<exists>a. m = Inr a \<and> f a = Inr b)"
  by (cases m) auto

lemma ebind_assoc: "ebind (ebind m f) g = ebind m (\<lambda>x. ebind (f x) g)"
  by (cases m) auto

text \<open>The conversion of every element of a sequence, in order, stopping at the first failure.\<close>

fun emap :: "('a \<Rightarrow> 'e + 'b) \<Rightarrow> 'a list \<Rightarrow> 'e + 'b list" where
  "emap f [] = Inr []"
| "emap f (x # xs) = ebind (f x) (\<lambda>y. ebind (emap f xs) (\<lambda>ys. Inr (y # ys)))"

lemma emap_map: "(\<And>x. x \<in> set xs \<Longrightarrow> f (g x) = Inr x) \<Longrightarrow> emap f (map g xs) = Inr xs"
  by (induction xs) auto

section \<open>Lists and association lists\<close>

lemma map_of_map_snd: "map_of (map (\<lambda>(k, v). (k, f v)) kvs) k = map_option f (map_of kvs k)"
  by (induction kvs) auto

text \<open>Taking one element out of a list of pending work.\<close>

definition remove_nth :: "nat \<Rightarrow> 'a list \<Rightarrow> 'a list" where
  "remove_nth i xs = take i xs @ drop (Suc i) xs"

lemma remove_nth_code [simp]:
  "remove_nth i [] = []"
  "remove_nth 0 (x # xs) = xs"
  "remove_nth (Suc i) (x # xs) = x # remove_nth i xs"
  by (simp_all add: remove_nth_def)

lemma remove_nth_split:
  "i < length xs \<Longrightarrow> \<exists>as bs. xs = as @ xs ! i # bs \<and> remove_nth i xs = as @ bs"
  using id_take_nth_drop [of i xs] by (auto simp: remove_nth_def)

lemma set_remove_nth: "set (remove_nth i xs) \<subseteq> set xs"
  by (auto simp: remove_nth_def dest: in_set_takeD in_set_dropD)

lemma mset_remove_nth:
  assumes "i < length xs"
  shows "mset xs = add_mset (xs ! i) (mset (remove_nth i xs))"
proof -
  obtain as bs where "xs = as @ xs ! i # bs" "remove_nth i xs = as @ bs"
    using remove_nth_split [OF assms] by blast
  then show ?thesis by (metis mset.simps(2) mset_append union_mset_add_mset_right)
qed

lemma mset_concat_remove_nth:
  assumes "i < length xs"
  shows "mset (concat (map f xs)) = mset (f (xs ! i)) + mset (concat (map f (remove_nth i xs)))"
proof -
  obtain as bs where s: "xs = as @ xs ! i # bs" and r: "remove_nth i xs = as @ bs"
    using remove_nth_split [OF assms] by blast
  have "mset (concat (map f xs)) = mset (concat (map f (as @ xs ! i # bs)))" using s by simp
  then show ?thesis by (simp add: r)
qed

lemma length_remove_nth: "i < length xs \<Longrightarrow> Suc (length (remove_nth i xs)) = length xs"
  by (simp add: remove_nth_def)

end
