(* ===== verification/Endian.thy ===== *)
theory Endian
  imports Prelude
begin

text \<open>
  The length prefix of a frame: \<open>extract_uint64\<close> and \<open>put_uint64\<close> of
  \<open>include/zrp/msg.hpp\<close>, over an eight-byte span.  Besides the two functions this theory
  has their reference reading (a big-endian number is the Horner sum of its bytes) and
  the round trips in both directions.
\<close>

datatype endian = little | big

text \<open>
  \<open>char\<close> is signed on the platforms the program is built for: \<open>align\<close> goes through
  \<open>uint8_t\<close> to stop the sign extension, and \<open>trunc\<close> goes through \<open>char\<close>, so the
  \<open>uint64_t\<close> it returns is sign extended and then cut to eight bits by the store.
\<close>

definition align :: "byte \<Rightarrow> u64" where
  "align ch = ucast ch"

definition trunc :: "u64 \<Rightarrow> u64" where
  "trunc i = scast (ucast i :: byte)"

definition extract_uint64 :: "endian \<Rightarrow> byte list \<Rightarrow> u64" where
  "extract_uint64 e data =
    (case e of
      little \<Rightarrow>
        push_bit 0 (align (data ! 0)) OR push_bit 8 (align (data ! 1)) OR
        push_bit 16 (align (data ! 2)) OR push_bit 24 (align (data ! 3)) OR
        push_bit 32 (align (data ! 4)) OR push_bit 40 (align (data ! 5)) OR
        push_bit 48 (align (data ! 6)) OR push_bit 56 (align (data ! 7))
    | big \<Rightarrow>
        push_bit 0 (align (data ! 7)) OR push_bit 8 (align (data ! 6)) OR
        push_bit 16 (align (data ! 5)) OR push_bit 24 (align (data ! 4)) OR
        push_bit 32 (align (data ! 3)) OR push_bit 40 (align (data ! 2)) OR
        push_bit 48 (align (data ! 1)) OR push_bit 56 (align (data ! 0)))"

definition put_uint64 :: "endian \<Rightarrow> byte list \<Rightarrow> u64 \<Rightarrow> byte list" where
  "put_uint64 e data i =
    (case e of
      little \<Rightarrow>
        data[0 := ucast (trunc (drop_bit 0 i)), 1 := ucast (trunc (drop_bit 8 i)),
             2 := ucast (trunc (drop_bit 16 i)), 3 := ucast (trunc (drop_bit 24 i)),
             4 := ucast (trunc (drop_bit 32 i)), 5 := ucast (trunc (drop_bit 40 i)),
             6 := ucast (trunc (drop_bit 48 i)), 7 := ucast (trunc (drop_bit 56 i))]
    | big \<Rightarrow>
        data[7 := ucast (trunc (drop_bit 0 i)), 6 := ucast (trunc (drop_bit 8 i)),
             5 := ucast (trunc (drop_bit 16 i)), 4 := ucast (trunc (drop_bit 24 i)),
             3 := ucast (trunc (drop_bit 32 i)), 2 := ucast (trunc (drop_bit 40 i)),
             1 := ucast (trunc (drop_bit 48 i)), 0 := ucast (trunc (drop_bit 56 i))])"

section \<open>Bits and bytes of the two functions\<close>

lemma trunc_byte [simp]: "(ucast (trunc i) :: byte) = ucast i"
  by (rule bit_word_eqI) (simp add: trunc_def bit_simps)

lemma length_put_uint64 [simp]: "length (put_uint64 e data x) = length data"
  by (simp add: put_uint64_def split: endian.split)

lemma bit_extract_little:
  assumes "r < 8" "q < 8"
  shows "bit (extract_uint64 little data) (8 * q + r) = bit (data ! q) r"
  using \<open>r < 8\<close>
  by (cases rule: octets [OF \<open>q < 8\<close>])
     (auto simp: extract_uint64_def align_def bit_simps dest: bit_byteD)

lemma nth_put_little:
  assumes "length data = 8" "q < 8"
  shows "put_uint64 little data x ! q = ucast (drop_bit (8 * q) x)"
  using assms(1) by (cases rule: octets [OF \<open>q < 8\<close>]) (auto simp: put_uint64_def)

text \<open>The big-endian branches read and write the span backwards.\<close>

lemma extract_big_rev:
  assumes "length data = 8"
  shows "extract_uint64 big data = extract_uint64 little (rev data)"
  using assms by (simp add: extract_uint64_def rev_nth)

lemma put_big_rev:
  assumes "length data = 8"
  shows "put_uint64 big data x = rev (put_uint64 little (rev data) x)"
  using assms by (simp add: put_uint64_def rev_update)

section \<open>Round trips\<close>

lemma extract_put_little:
  assumes "length data = 8"
  shows "extract_uint64 little (put_uint64 little data x) = x"
proof (rule bit_word_eqI)
  fix n assume "n < LENGTH(64)"
  define q r where "q = n div 8" and "r = n mod 8"
  then have "n = 8 * q + r" "r < 8" "q < 8" using \<open>n < LENGTH(64)\<close> by auto
  with assms show "bit (extract_uint64 little (put_uint64 little data x)) n = bit x n"
    by (simp add: bit_extract_little nth_put_little bit_simps)
qed

lemma put_extract_little:
  assumes "length data = 8" "length bs = 8"
  shows "put_uint64 little data (extract_uint64 little bs) = bs"
proof (rule nth_equalityI)
  show "length (put_uint64 little data (extract_uint64 little bs)) = length bs"
    using assms by simp
  fix q assume "q < length (put_uint64 little data (extract_uint64 little bs))"
  then have "q < 8" using assms by simp
  show "put_uint64 little data (extract_uint64 little bs) ! q = bs ! q"
    using \<open>q < 8\<close> assms(1)
    by (intro bit_word_eqI) (simp add: nth_put_little bit_simps bit_extract_little)
qed

lemma extract_put_uint64:
  assumes "length data = 8"
  shows "extract_uint64 e (put_uint64 e data x) = x"
  using assms
  by (cases e) (simp_all add: extract_put_little put_big_rev extract_big_rev)

lemma put_extract_uint64:
  assumes "length data = 8" "length bs = 8"
  shows "put_uint64 e data (extract_uint64 e bs) = bs"
  using assms
  by (cases e) (simp_all add: put_extract_little put_big_rev extract_big_rev)

section \<open>The value of a big-endian number\<close>

text \<open>The reference reading: the Horner sum, most significant byte first.\<close>

fun be_value :: "nat \<Rightarrow> byte list \<Rightarrow> nat" where
  "be_value acc [] = acc"
| "be_value acc (b # bs) = be_value (256 * acc + unat b) bs"

lemma be_value_append: "be_value acc (xs @ ys) = be_value (be_value acc xs) ys"
  by (induction xs arbitrary: acc) auto

lemma be_value_digit:
  "q < length bs \<Longrightarrow> be_value acc bs div 256 ^ q mod 256 = unat (rev bs ! q)"
proof (induction bs arbitrary: q rule: rev_induct)
  case (snoc b bs)
  then show ?case
    by (cases q) (simp_all add: be_value_append byte_less div_mult2_eq)
qed simp

lemma be_value_less: "be_value 0 bs < 256 ^ length bs"
proof (induction bs rule: rev_induct)
  case (snoc b bs)
  then show ?case using byte_less [of b] by (simp add: be_value_append)
qed simp

lemma extract_little_value:
  assumes "length bs = 8"
  shows "extract_uint64 little bs = of_nat (be_value 0 (rev bs))"
proof -
  let ?n = "be_value 0 (rev bs)"
  have n: "?n < 2 ^ 64" using be_value_less [of "rev bs"] assms by simp
  have "put_uint64 little bs (of_nat ?n) = bs"
  proof (rule nth_equalityI)
    show "length (put_uint64 little bs (of_nat ?n)) = length bs" by simp
    fix q assume "q < length (put_uint64 little bs (of_nat ?n))"
    then have q: "q < 8" using assms by simp
    have "unat (ucast (drop_bit (8 * q) (of_nat ?n :: u64)) :: byte) =
        take_bit 8 (drop_bit (8 * q) ?n)"
      using n by (simp add: unsigned_ucast_eq unat_drop_bit_eq unat_of_nat)
    also have "\<dots> = ?n div 256 ^ q mod 256"
      by (simp add: drop_bit_eq_div take_bit_eq_mod power_mult)
    also have "\<dots> = unat (bs ! q)"
      using be_value_digit [of q "rev bs" 0] q assms by simp
    finally show "put_uint64 little bs (of_nat ?n) ! q = bs ! q"
      using q assms by (simp add: nth_put_little word_unat_eq_iff)
  qed
  then show ?thesis by (metis extract_put_little assms)
qed

lemma unat_extract_big:
  assumes "length bs = 8"
  shows "unat (extract_uint64 big bs) = be_value 0 bs"
proof -
  have "be_value 0 bs < 2 ^ 64" using be_value_less [of bs] assms by simp
  then show ?thesis
    using assms by (simp add: extract_big_rev extract_little_value unat_of_nat)
qed

section \<open>The contract of a fixed-width encoding\<close>

text \<open>
  What the framing layer relies on: every value is written on exactly \<open>width\<close> bytes and
  read back, and every block of that width is the encoding of the value it reads as.
\<close>

locale fixed_width =
  fixes enc :: "'a \<Rightarrow> byte list" and dec :: "byte list \<Rightarrow> 'a" and width :: nat
  assumes enc_width: "length (enc x) = width"
    and dec_enc: "dec (enc x) = x"
    and enc_dec: "length bs = width \<Longrightarrow> enc (dec bs) = bs"
begin

lemma take_enc: "take width (enc x @ rest) = enc x"
  by (simp add: enc_width)

lemma drop_enc: "drop width (enc x @ rest) = rest"
  by (simp add: enc_width)

lemma enc_inject: "enc x = enc y \<longleftrightarrow> x = y"
  by (metis dec_enc)

lemma dec_inject: "length as = width \<Longrightarrow> length bs = width \<Longrightarrow> dec as = dec bs \<longleftrightarrow> as = bs"
  by (metis enc_dec)

lemma enc_prefix_free: "enc x @ r = enc y @ s \<longleftrightarrow> x = y \<and> r = s"
  by (metis append_eq_append_conv enc_inject enc_width)

end

text \<open>The buffer that \<open>send_msg\<close> fills is uninitialised: its old content does not matter.\<close>

lemma put_uint64_fresh:
  assumes "length d = 8" "length d' = 8"
  shows "put_uint64 e d x = put_uint64 e d' x"
  by (metis assms extract_put_uint64 length_put_uint64 put_extract_uint64)

interpretation be64: fixed_width "put_uint64 big (replicate 8 0)" "extract_uint64 big" 8
  by unfold_locales (simp_all add: extract_put_uint64 put_extract_uint64)

interpretation le64: fixed_width "put_uint64 little (replicate 8 0)" "extract_uint64 little" 8
  by unfold_locales (simp_all add: extract_put_uint64 put_extract_uint64)

text \<open>
  For both byte orders, a 64-bit number put into an eight-byte
  span and extracted again is unchanged, whatever the span held before.
\<close>

theorem uint64_round_trip:
  assumes "length data = 8"
  shows "extract_uint64 e (put_uint64 e data x) = x \<and> length (put_uint64 e data x) = 8"
  using assms by (simp add: extract_put_uint64)

theorem uint64_round_trip_witness:
  "extract_uint64 big (put_uint64 big (replicate 8 255) 8193) = 8193"
  using uint64_round_trip [of "replicate 8 255" big 8193] by simp

text \<open>
  The shift-and-or expression of the big-endian branch computes the
  positional value of the eight bytes, most significant first, and the bytes
  are in turn determined by that number.
\<close>

theorem extract_big_value:
  assumes "length bs = 8"
  shows "unat (extract_uint64 big bs) = be_value 0 bs \<and>
    put_uint64 big (replicate 8 0) (extract_uint64 big bs) = bs"
  using assms by (simp add: unat_extract_big be64.enc_dec)

theorem extract_big_value_witness:
  "unat (extract_uint64 big [0, 0, 0, 0, 0, 0, 0x20, 0x01]) = 8193"
  using extract_big_value [of "[0, 0, 0, 0, 0, 0, 0x20, 0x01]"] by simp

end
