(* ===== verification/Exceptions.thy ===== *)
theory Exceptions
  imports Prelude
begin

text \<open>
  The exceptions the program throws (\<open>include/zrp/exceptions.hpp\<close>, and \<open>bad_args\<close> of
  \<open>include/zrp/args.hpp\<close>) and those of the libraries that it catches: a
  \<open>boost::system::system_error\<close> with its error code, the \<open>std::out_of_range\<close> of
  \<open>map::at\<close>, and the exceptions of Boost.JSON.
\<close>

text \<open>The error codes that the code tells apart; every other code is \<open>ec_other\<close>.\<close>

datatype error_code =
  operation_aborted | not_connected | end_of_file | connection_reset | ec_other nat

datatype exn =
  duplicate_client
| duplicate_tcp_share string
| tcp_share_closed
| unexpected_msg_type string
| msg_too_big u64
| bad_args
| system_error error_code
| out_of_range
| json_error string

type_synonym 'a res = "exn + 'a"

text \<open>
  The texts of \<open>what()\<close>.  The format library is a parameter: \<open>fmt_size\<close> is how it
  renders a \<open>size_t\<close>, \<open>lib_what\<close> the text of an exception of another library.
\<close>

fun exn_what :: "(u64 \<Rightarrow> string) \<Rightarrow> (exn \<Rightarrow> string) \<Rightarrow> exn \<Rightarrow> string" where
  "exn_what fmt_size lib_what duplicate_client = ''same client already connected''"
| "exn_what fmt_size lib_what (duplicate_tcp_share s) = ''tcp share id is taken : '' @ s"
| "exn_what fmt_size lib_what tcp_share_closed = ''tcp share already closed''"
| "exn_what fmt_size lib_what (unexpected_msg_type s) = ''unexpected msg type_id : '' @ s"
| "exn_what fmt_size lib_what (msg_too_big sz) =
     ''message too big : '' @ fmt_size sz @ '' bytes''"
| "exn_what fmt_size lib_what bad_args = ''Args given not valid''"
| "exn_what fmt_size lib_what e = lib_what e"

end
