(* ===== verification/Json.thy ===== *)
theory Json
  imports Exceptions "HOL-Library.AList"
begin

text \<open>
  JSON values and what the program does with them (\<open>include/zrp/json_misc.hpp\<close>, \<open>may\<close> of
  \<open>include/zrp/fmt_misc.hpp\<close>).

  Boost.JSON and {fmt} are not part of the repository.  A JSON value is data with the
  eight kinds that \<open>pretty_print\<close> distinguishes; every function of Boost.JSON that the
  code calls is a field of the record \<open>json_lib\<close>, and every rendering of a number by {fmt}
  one of \<open>fmt_lib\<close>, arguments of the definitions that use them.  The documented
  behaviour the code relies on is the predicate \<open>boost_json\<close>.
\<close>

section \<open>Values and the library interface\<close>

text \<open>A \<open>double\<close> is held by its bit pattern; the program only ever prints one.\<close>

datatype json =
  JNull
| JBool bool
| JInt64 u64
| JUint64 u64
| JDouble u64
| JString string
| JArray "json list"
| JObject "(string \<times> json) list"

type_synonym json_object = "(string \<times> json) list"

text \<open>
  The fields: \<open>as_object\<close>, \<open>object::at\<close>, \<open>object::if_contains\<close>, assignment through
  \<open>object::operator[]\<close>, construction of a value from an initializer list of key/value
  pairs, \<open>value_to\<close> and \<open>value_from\<close> at the types the program converts, \<open>serialize\<close>,
  and \<open>stream_parser\<close>.  The state of a parser is the list of the blocks written to it so
  far: \<open>p_write\<close> may throw, \<open>p_finish\<close> and \<open>p_release\<close> end the text and take the value.
\<close>

record json_lib =
  as_object :: "json \<Rightarrow> json_object res"
  obj_at :: "json_object \<Rightarrow> string \<Rightarrow> json res"
  if_contains :: "json_object \<Rightarrow> string \<Rightarrow> json option"
  obj_assign :: "json_object \<Rightarrow> string \<Rightarrow> json \<Rightarrow> json_object"
  of_init_list :: "(string \<times> json) list \<Rightarrow> json"
  to_str :: "json \<Rightarrow> string res"
  to_bool :: "json \<Rightarrow> bool res"
  to_u16 :: "json \<Rightarrow> u16 res"
  to_int :: "json \<Rightarrow> cint res"
  to_u64 :: "json \<Rightarrow> u64 res"
  to_elems :: "json \<Rightarrow> json list res"
  to_entries :: "json \<Rightarrow> (string \<times> json) list res"
  of_str :: "string \<Rightarrow> json"
  of_bool :: "bool \<Rightarrow> json"
  of_u16 :: "u16 \<Rightarrow> json"
  of_int :: "cint \<Rightarrow> json"
  of_u64 :: "u64 \<Rightarrow> json"
  of_elems :: "json list \<Rightarrow> json"
  of_entries :: "(string \<times> json) list \<Rightarrow> json"
  serialize :: "json \<Rightarrow> string"
  p_write :: "string list \<Rightarrow> string \<Rightarrow> unit res"
  p_finish :: "string list \<Rightarrow> unit res"
  p_release :: "string list \<Rightarrow> json res"

text \<open>
  How a value reads back after it was serialised and parsed: the parser makes an
  \<open>int64\<close> of every integer that fits one, whatever kind was serialised.
\<close>

fun norm :: "json \<Rightarrow> json" where
  "norm (JUint64 w) = (if unat w < 2 ^ 63 then JInt64 w else JUint64 w)"
| "norm (JArray vs) = JArray (map norm vs)"
| "norm (JObject kvs) = JObject (map (\<lambda>(k, v). (k, norm v)) kvs)"
| "norm v = v"

text \<open>Documented behaviour: objects as associative containers.\<close>

definition json_objects :: "json_lib \<Rightarrow> bool" where
  "json_objects J \<longleftrightarrow>
    (\<forall>kvs. as_object J (JObject kvs) = Inr kvs) \<and>
    (\<forall>kvs k v. map_of kvs k = Some v \<longrightarrow> obj_at J kvs k = Inr v) \<and>
    (\<forall>kvs k. map_of kvs k = None \<longrightarrow> (\<exists>e. obj_at J kvs k = Inl e)) \<and>
    (\<forall>kvs k. if_contains J kvs k = map_of kvs k) \<and>
    (\<forall>kvs k v. map_of (obj_assign J kvs k v) = (map_of kvs)(k \<mapsto> v)) \<and>
    (\<forall>kvs k v. distinct (map fst kvs) \<longrightarrow> distinct (map fst (obj_assign J kvs k v))) \<and>
    (\<forall>kvs. distinct (map fst kvs) \<longrightarrow> of_init_list J kvs = JObject kvs)"

text \<open>
  Documented behaviour: conversions.  An integer converts from either integer kind when
  its value is in the range of the target, and throws otherwise.
\<close>

definition json_conversions :: "json_lib \<Rightarrow> bool" where
  "json_conversions J \<longleftrightarrow>
    (\<forall>s. of_str J s = JString s \<and> to_str J (JString s) = Inr s) \<and>
    (\<forall>b. of_bool J b = JBool b \<and> to_bool J (JBool b) = Inr b) \<and>
    (\<forall>w. of_u16 J w = JUint64 (ucast w)) \<and>
    (\<forall>w. unat w < 2 ^ 16 \<longrightarrow> to_u16 J (JUint64 w) = Inr (ucast w) \<and> to_u16 J (JInt64 w) = Inr (ucast w)) \<and>
    (\<forall>w. \<not> unat w < 2 ^ 16 \<longrightarrow> (\<exists>e. to_u16 J (JUint64 w) = Inl e) \<and> (\<exists>e. to_u16 J (JInt64 w) = Inl e)) \<and>
    (\<forall>w. of_int J w = JInt64 (scast w) \<and> to_int J (JInt64 (scast w)) = Inr w) \<and>
    (\<forall>w. of_u64 J w = JUint64 w \<and> to_u64 J (JUint64 w) = Inr w) \<and>
    (\<forall>w. unat w < 2 ^ 63 \<longrightarrow> to_u64 J (JInt64 w) = Inr w) \<and>
    (\<forall>vs. of_elems J vs = JArray vs \<and> to_elems J (JArray vs) = Inr vs) \<and>
    (\<forall>kvs. of_entries J kvs = JObject kvs \<and> to_entries J (JObject kvs) = Inr kvs)"

definition boost_json :: "json_lib \<Rightarrow> bool" where
  "boost_json J \<longleftrightarrow> json_objects J \<and> json_conversions J"

text \<open>
  Documented behaviour: the parser is incremental.  However the text of the value is cut
  into blocks, every write succeeds and the value is read back; a parser that was given
  nothing has no value to release.
\<close>

definition reads_back :: "json_lib \<Rightarrow> json \<Rightarrow> bool" where
  "reads_back J v \<longleftrightarrow>
    (\<forall>cs. concat cs = serialize J v \<longrightarrow>
      p_release J cs = Inr (norm v) \<and> p_finish J cs = Inr () \<and>
      (\<forall>cs1 c cs2. cs = cs1 @ c # cs2 \<longrightarrow> p_write J cs1 c = Inr ()))"

section \<open>The helpers of json_misc.hpp\<close>

text \<open>\<open>extract\<close> and \<open>extract_with_default\<close>; \<open>conv\<close> is \<open>value_to<T>\<close> at the field's type.\<close>

definition json_extract :: "json_lib \<Rightarrow> (json \<Rightarrow> 'a res) \<Rightarrow> json_object \<Rightarrow> string \<Rightarrow> 'a res" where
  "json_extract J conv obj key = ebind (obj_at J obj key) conv"

definition json_extract_with_default ::
  "json_lib \<Rightarrow> (json \<Rightarrow> 'a res) \<Rightarrow> json_object \<Rightarrow> string \<Rightarrow> 'a \<Rightarrow> 'a res" where
  "json_extract_with_default J conv obj key default_value =
    (case if_contains J obj key of
      Some p \<Rightarrow> conv p
    | None \<Rightarrow> Inr default_value)"

section \<open>Coloured printing\<close>

text \<open>
  A text style of {fmt} is a list of attributes, \<open>{}\<close> the empty one.  What is printed is
  the list of the texts with the style each was printed in.
\<close>

datatype style_attr = fg string | bold | italic | strikethrough

type_synonym text_style = "style_attr list"
type_synonym printed = "(text_style \<times> string) list"

record fmt_lib =
  fmt_u64 :: "u64 \<Rightarrow> string"
  fmt_i64 :: "u64 \<Rightarrow> string"
  fmt_double :: "u64 \<Rightarrow> string"

definition may :: "bool \<Rightarrow> text_style \<Rightarrow> text_style" where
  "may with_color s = (if with_color then s else [])"

definition brace_color :: "int \<Rightarrow> string" where
  "brace_color indent_level =
    (let i = indent_level mod 5 in
     if i = 0 then ''dark_cyan''
     else if i = 1 then ''dark_green''
     else if i = 2 then ''dark_olive_green''
     else if i = 3 then ''dark_blue''
     else if i = 4 then ''dark_salmon''
     else ''dark_cyan'')"

text \<open>\<open>indent_t\<close> is a stack of strings, its top first.\<close>

type_synonym indent_t = "string list"

definition indent_level :: "indent_t \<Rightarrow> int" where
  "indent_level s = int (length s)"

definition indent_str :: "indent_t \<Rightarrow> string" where
  "indent_str s = (case s of [] \<Rightarrow> '''' | t # _ \<Rightarrow> t)"

definition indent_push :: "indent_t \<Rightarrow> indent_t" where
  "indent_push s = (indent_str s @ ''    '') # s"

definition indent_pop :: "indent_t \<Rightarrow> indent_t" where
  "indent_pop s = tl s"

definition indent_brace :: "bool \<Rightarrow> indent_t \<Rightarrow> string \<Rightarrow> text_style \<times> string" where
  "indent_brace with_color s br = (may with_color [fg (brace_color (indent_level s))], br)"

text \<open>
  \<open>pretty_print\<close>: the indentation is passed by value, so the callee's pushes do not reach
  the caller.  \<open>print_members\<close> and \<open>print_elements\<close> are the loops over a non-empty object
  and a non-empty array.
\<close>

fun pretty_print :: "fmt_lib \<Rightarrow> json_lib \<Rightarrow> bool \<Rightarrow> json \<Rightarrow> indent_t \<Rightarrow> printed"
  and print_members :: "fmt_lib \<Rightarrow> json_lib \<Rightarrow> bool \<Rightarrow> json_object \<Rightarrow> indent_t \<Rightarrow> printed"
  and print_elements :: "fmt_lib \<Rightarrow> json_lib \<Rightarrow> bool \<Rightarrow> json list \<Rightarrow> indent_t \<Rightarrow> printed"
where
  "pretty_print F J col jv indent =
    (case jv of
      JObject obj \<Rightarrow>
        [indent_brace col indent ''{'', ([], ''\<newline>'')] @
        print_members F J col obj (indent_push indent) @
        [([], ''\<newline>'' @ indent_str (indent_pop (indent_push indent))),
         indent_brace col (indent_pop (indent_push indent)) ''}'']
    | JArray arr \<Rightarrow>
        [indent_brace col indent ''['', ([], ''\<newline>'')] @
        print_elements F J col arr (indent_push indent) @
        [([], ''\<newline>'' @ indent_str (indent_pop (indent_push indent))),
         indent_brace col (indent_pop (indent_push indent)) '']'']
    | JString s \<Rightarrow> [(may col [fg ''green''], serialize J (JString s))]
    | JUint64 n \<Rightarrow> [([], fmt_u64 F n)]
    | JInt64 n \<Rightarrow> [([], fmt_i64 F n)]
    | JDouble d \<Rightarrow> [([], fmt_double F d)]
    | JBool b \<Rightarrow> [(may col [italic], if b then ''true'' else ''false'')]
    | JNull \<Rightarrow> [(may col [strikethrough], ''null'')])
    @ (if indent_level indent = 0 then [([], ''\<newline>'')] else [])"
| "print_members F J col [] indent = []"
| "print_members F J col ((k, v) # rest) indent =
    [([], indent_str indent), (may col [fg ''blue'', bold], serialize J (JString k)), ([], '' : '')] @
    pretty_print F J col v indent @
    (if rest = [] then [] else ([], '',\<newline>'') # print_members F J col rest indent)"
| "print_elements F J col [] indent = []"
| "print_elements F J col (v # rest) indent =
    [([], indent_str indent)] @
    pretty_print F J col v indent @
    (if rest = [] then [] else ([], '',\<newline>'') # print_elements F J col rest indent)"

declare pretty_print.simps [simp del]

section \<open>Consequences of the documented behaviour\<close>

lemma boost_json_simps:
  assumes "boost_json J"
  shows "as_object J (JObject kvs) = Inr kvs"
    and "map_of kvs k = Some v \<Longrightarrow> obj_at J kvs k = Inr v"
    and "if_contains J kvs k = map_of kvs k"
    and "map_of (obj_assign J kvs k v) = (map_of kvs)(k \<mapsto> v)"
    and "distinct (map fst kvs) \<Longrightarrow> distinct (map fst (obj_assign J kvs k v))"
    and "distinct (map fst kvs) \<Longrightarrow> of_init_list J kvs = JObject kvs"
    and "of_str J s = JString s" and "to_str J (JString s) = Inr s"
    and "of_bool J b = JBool b" and "to_bool J (JBool b) = Inr b"
    and "of_u16 J p = JUint64 (ucast p)"
    and "of_int J i = JInt64 (scast i)" and "to_int J (JInt64 (scast i)) = Inr i"
    and "of_u64 J u = JUint64 u" and "to_u64 J (JUint64 u) = Inr u"
    and "unat u < 2 ^ 63 \<Longrightarrow> to_u64 J (JInt64 u) = Inr u"
    and "of_elems J vs = JArray vs" and "to_elems J (JArray vs) = Inr vs"
    and "of_entries J kvs = JObject kvs" and "to_entries J (JObject kvs) = Inr kvs"
  using assms unfolding boost_json_def json_objects_def json_conversions_def by auto

lemma obj_at_missing:
  assumes "boost_json J" "map_of kvs k = None"
  shows "\<exists>e. obj_at J kvs k = Inl e"
  using assms unfolding boost_json_def json_objects_def by auto

text \<open>A port, being below two to the sixteen, converts back from the kind it was given and
  from the kind the parser gives it.\<close>

lemma unat_ucast_port: "unat (ucast (p :: u16) :: u64) = unat p"
  by (simp add: unsigned_ucast_eq take_bit_nat_eq_self order_less_trans [OF unsigned_less])

lemma unat_port_less: "unat (p :: u16) < 2 ^ 16"
  using unsigned_less [of p] by simp

lemma ucast_ucast_port: "ucast (ucast (p :: u16) :: u64) = p"
  by (rule bit_word_eqI) (simp add: bit_simps)

lemma to_u16_port:
  assumes "boost_json J"
  shows "to_u16 J (JUint64 (ucast p)) = Inr p" "to_u16 J (JInt64 (ucast p)) = Inr p"
  using assms unat_port_less [of p] unat_ucast_port [of p] ucast_ucast_port [of p]
  unfolding boost_json_def json_conversions_def by metis+

lemma norm_of_port: "norm (JUint64 (ucast (p :: u16))) = JInt64 (ucast p)"
  using unat_port_less [of p] by (simp add: unat_ucast_port)

text \<open>The same for a value that stayed in memory and for one that went over the wire.\<close>

lemma to_u16_carried:
  assumes "boost_json J" "f = id \<or> f = norm"
  shows "to_u16 J (f (JUint64 (ucast p))) = Inr p"
  using assms(2) to_u16_port [OF assms(1)] by (elim disjE) (simp_all add: norm_of_port del: norm.simps)

lemma json_extract_at:
  assumes "boost_json J" "map_of kvs k = Some v"
  shows "json_extract J conv kvs k = conv v"
  using assms by (simp add: json_extract_def boost_json_simps)

lemma json_extract_missing:
  assumes "boost_json J" "map_of kvs k = None"
  shows "\<exists>e. json_extract J conv kvs k = Inl e"
  using obj_at_missing [OF assms] by (auto simp: json_extract_def)

lemma json_extract_with_default_at:
  assumes "boost_json J"
  shows "json_extract_with_default J conv kvs k d =
    (case map_of kvs k of None \<Rightarrow> Inr d | Some v \<Rightarrow> conv v)"
  using assms by (simp add: json_extract_with_default_def boost_json_simps split: option.split)

section \<open>Printing\<close>

text \<open>Colours change no character of the text.\<close>

lemma pretty_print_text:
  "map snd (pretty_print F J True v ind) = map snd (pretty_print F J False v ind)"
  "map snd (print_members F J True kvs ind) = map snd (print_members F J False kvs ind)"
  "map snd (print_elements F J True vs ind) = map snd (print_elements F J False vs ind)"
proof (induction F J True v ind and F J True kvs ind and F J True vs ind
    rule: pretty_print_print_members_print_elements.induct)
  case (1 F J jv indent)
  then show ?case
    by (cases jv) (simp_all add: pretty_print.simps indent_brace_def)
qed auto

text \<open>Without colours nothing is styled.\<close>

lemma pretty_print_plain:
  "list_all (\<lambda>(st, t). st = []) (pretty_print F J False v ind)"
  "list_all (\<lambda>(st, t). st = []) (print_members F J False kvs ind)"
  "list_all (\<lambda>(st, t). st = []) (print_elements F J False vs ind)"
proof (induction F J False v ind and F J False kvs ind and F J False vs ind
    rule: pretty_print_print_members_print_elements.induct)
  case (1 F J jv indent)
  then show ?case
    by (cases jv) (simp_all add: pretty_print.simps indent_brace_def may_def)
qed (auto simp: may_def)

section \<open>A concrete library\<close>

text \<open>
  An instance with every law, given a printer and a parser of whole texts.  It serves the
  witnesses; the model itself takes the library as an argument.
\<close>

definition std_json :: "(json \<Rightarrow> string) \<Rightarrow> (string \<Rightarrow> json res) \<Rightarrow> json_lib" where
  "std_json ser parse = \<lparr>
    as_object = (\<lambda>v. case v of JObject kvs \<Rightarrow> Inr kvs | _ \<Rightarrow> Inl (json_error ''not an object'')),
    obj_at = (\<lambda>kvs k. case map_of kvs k of Some v \<Rightarrow> Inr v | None \<Rightarrow> Inl out_of_range),
    if_contains = map_of,
    obj_assign = (\<lambda>kvs k v. AList.update k v kvs),
    of_init_list = JObject,
    to_str = (\<lambda>v. case v of JString s \<Rightarrow> Inr s | _ \<Rightarrow> Inl (json_error ''not a string'')),
    to_bool = (\<lambda>v. case v of JBool b \<Rightarrow> Inr b | _ \<Rightarrow> Inl (json_error ''not a bool'')),
    to_u16 = (\<lambda>v. case v of
        JUint64 w \<Rightarrow> if unat w < 2 ^ 16 then Inr (ucast w) else Inl (json_error ''not exact'')
      | JInt64 w \<Rightarrow> if unat w < 2 ^ 16 then Inr (ucast w) else Inl (json_error ''not exact'')
      | _ \<Rightarrow> Inl (json_error ''not a number'')),
    to_int = (\<lambda>v. case v of
        JInt64 w \<Rightarrow> if scast (ucast w :: cint) = w then Inr (ucast w) else Inl (json_error ''not exact'')
      | _ \<Rightarrow> Inl (json_error ''not a number'')),
    to_u64 = (\<lambda>v. case v of
        JUint64 w \<Rightarrow> Inr w
      | JInt64 w \<Rightarrow> if unat w < 2 ^ 63 then Inr w else Inl (json_error ''not exact'')
      | _ \<Rightarrow> Inl (json_error ''not a number'')),
    to_elems = (\<lambda>v. case v of JArray vs \<Rightarrow> Inr vs | _ \<Rightarrow> Inl (json_error ''not an array'')),
    to_entries = (\<lambda>v. case v of JObject kvs \<Rightarrow> Inr kvs | _ \<Rightarrow> Inl (json_error ''not an object'')),
    of_str = JString, of_bool = JBool, of_u16 = (\<lambda>p. JUint64 (ucast p)),
    of_int = (\<lambda>i. JInt64 (scast i)), of_u64 = JUint64, of_elems = JArray, of_entries = JObject,
    serialize = ser,
    p_write = (\<lambda>_ _. Inr ()),
    p_finish = (\<lambda>cs. ebind (parse (concat cs)) (\<lambda>_. Inr ())),
    p_release = (\<lambda>cs. parse (concat cs)) \<rparr>"

lemma ucast_scast_int: "ucast (scast (i :: cint) :: u64) = i"
  by (rule bit_word_eqI) (simp add: bit_simps)

lemma boost_json_std [simp]: "boost_json (std_json ser parse)"
  by (auto simp: boost_json_def json_objects_def json_conversions_def std_json_def
      update_conv' ucast_scast_int distinct_update)

lemma reads_back_std:
  "parse (ser v) = Inr (norm v) \<Longrightarrow> reads_back (std_json ser parse) v"
  by (auto simp: reads_back_def std_json_def)

text \<open>
  Printing a value with colours and printing it without print
  the same texts in the same order; only the styles differ, and without colours
  there are none, so the dumped configuration is the same file either way.
\<close>

theorem pretty_print_colour_blind:
  "map snd (pretty_print F J True v ind) = map snd (pretty_print F J False v ind) \<and>
   list_all (\<lambda>(st, t). st = []) (pretty_print F J False v ind)"
  by (simp add: pretty_print_text pretty_print_plain)

end
