(* ===== verification/Messages.thy ===== *)
theory Messages
  imports Json
begin

text \<open>
  The messages of the control protocol (\<open>include/zrp/msg.hpp\<close>, namespace \<open>msg\<close>): the
  structures, their conversions to and from JSON (the \<open>tag_invoke\<close> overloads), the
  message type ids, \<open>marshal_msg\<close> and \<open>unmarshal_msg\<close>.
\<close>

section \<open>Structures\<close>

record tcp_share_info =
  ts_id :: string
  ts_port :: u16

record tcp_endpoint =
  ep_ip :: string
  ep_port :: u16

record server_hello =
  sh_version :: cint
  sh_welcome :: string

record visit_tcp_share =
  vt_epoch :: u64
  vt_peer :: tcp_endpoint

record client_hello =
  ch_version :: cint
  ch_client_uuid :: string
  ch_tcp_shares :: "tcp_share_info list"

record worker_hello =
  wh_tcp_share_id :: string
  wh_worker_id :: cint

text \<open>One constructor per message type; \<open>pong\<close>, \<open>ping\<close> and \<open>visit_confirmed\<close> have no field.\<close>

datatype message =
  M_server_hello server_hello
| M_pong
| M_visit_tcp_share visit_tcp_share
| M_client_hello client_hello
| M_ping
| M_worker_hello worker_hello
| M_visit_confirmed

datatype msg_type =
  T_server_hello | T_pong | T_visit_tcp_share | T_client_hello | T_ping | T_worker_hello
| T_visit_confirmed

fun type_of :: "message \<Rightarrow> msg_type" where
  "type_of (M_server_hello _) = T_server_hello"
| "type_of M_pong = T_pong"
| "type_of (M_visit_tcp_share _) = T_visit_tcp_share"
| "type_of (M_client_hello _) = T_client_hello"
| "type_of M_ping = T_ping"
| "type_of (M_worker_hello _) = T_worker_hello"
| "type_of M_visit_confirmed = T_visit_confirmed"

text \<open>\<open>msg_type_id<T>::s\<close>.\<close>

fun msg_type_id :: "msg_type \<Rightarrow> string" where
  "msg_type_id T_server_hello = ''server_hello''"
| "msg_type_id T_pong = ''pong''"
| "msg_type_id T_visit_tcp_share = ''visit_tcp_share''"
| "msg_type_id T_client_hello = ''client_hello''"
| "msg_type_id T_ping = ''ping''"
| "msg_type_id T_worker_hello = ''tcp_share_worker_hello''"
| "msg_type_id T_visit_confirmed = ''visit_confirmed''"

section \<open>Conversions\<close>

definition tcp_share_info_to_json :: "json_lib \<Rightarrow> tcp_share_info \<Rightarrow> json" where
  "tcp_share_info_to_json J c =
    of_init_list J [(''id'', of_str J (ts_id c)), (''port'', of_u16 J (ts_port c))]"

definition tcp_share_info_of_json :: "json_lib \<Rightarrow> json \<Rightarrow> tcp_share_info res" where
  "tcp_share_info_of_json J jv =
    ebind (as_object J jv) (\<lambda>obj.
    ebind (json_extract J (to_str J) obj ''id'') (\<lambda>i.
    ebind (json_extract J (to_u16 J) obj ''port'') (\<lambda>p.
    Inr \<lparr>ts_id = i, ts_port = p\<rparr>)))"

definition tcp_endpoint_to_json :: "json_lib \<Rightarrow> tcp_endpoint \<Rightarrow> json" where
  "tcp_endpoint_to_json J c =
    of_init_list J [(''ip'', of_str J (ep_ip c)), (''port'', of_u16 J (ep_port c))]"

definition tcp_endpoint_of_json :: "json_lib \<Rightarrow> json \<Rightarrow> tcp_endpoint res" where
  "tcp_endpoint_of_json J jv =
    ebind (as_object J jv) (\<lambda>obj.
    ebind (json_extract J (to_str J) obj ''ip'') (\<lambda>i.
    ebind (json_extract J (to_u16 J) obj ''port'') (\<lambda>p.
    Inr \<lparr>ep_ip = i, ep_port = p\<rparr>)))"

definition server_hello_to_json :: "json_lib \<Rightarrow> server_hello \<Rightarrow> json" where
  "server_hello_to_json J c =
    of_init_list J
      [(''version'', of_int J (sh_version c)), (''welcome'', of_str J (sh_welcome c))]"

definition server_hello_of_json :: "json_lib \<Rightarrow> json \<Rightarrow> server_hello res" where
  "server_hello_of_json J jv =
    ebind (as_object J jv) (\<lambda>obj.
    ebind (json_extract J (to_int J) obj ''version'') (\<lambda>v.
    ebind (json_extract J (to_str J) obj ''welcome'') (\<lambda>w.
    Inr \<lparr>sh_version = v, sh_welcome = w\<rparr>)))"

definition visit_tcp_share_to_json :: "json_lib \<Rightarrow> visit_tcp_share \<Rightarrow> json" where
  "visit_tcp_share_to_json J c =
    of_init_list J
      [(''epoch'', of_u64 J (vt_epoch c)), (''peer'', tcp_endpoint_to_json J (vt_peer c))]"

definition visit_tcp_share_of_json :: "json_lib \<Rightarrow> json \<Rightarrow> visit_tcp_share res" where
  "visit_tcp_share_of_json J jv =
    ebind (as_object J jv) (\<lambda>obj.
    ebind (json_extract J (to_u64 J) obj ''epoch'') (\<lambda>e.
    ebind (json_extract J (tcp_endpoint_of_json J) obj ''peer'') (\<lambda>p.
    Inr \<lparr>vt_epoch = e, vt_peer = p\<rparr>)))"

text \<open>A vector converts element by element.\<close>

definition client_hello_to_json :: "json_lib \<Rightarrow> client_hello \<Rightarrow> json" where
  "client_hello_to_json J c =
    of_init_list J
      [(''version'', of_int J (ch_version c)),
       (''client_uuid'', of_str J (ch_client_uuid c)),
       (''tcp_shares'', of_elems J (map (tcp_share_info_to_json J) (ch_tcp_shares c)))]"

definition client_hello_of_json :: "json_lib \<Rightarrow> json \<Rightarrow> client_hello res" where
  "client_hello_of_json J jv =
    ebind (as_object J jv) (\<lambda>obj.
    ebind (json_extract J (to_int J) obj ''version'') (\<lambda>v.
    ebind (json_extract J (to_str J) obj ''client_uuid'') (\<lambda>u.
    ebind (json_extract J (\<lambda>x. ebind (to_elems J x) (emap (tcp_share_info_of_json J)))
             obj ''tcp_shares'') (\<lambda>ts.
    Inr \<lparr>ch_version = v, ch_client_uuid = u, ch_tcp_shares = ts\<rparr>))))"

definition worker_hello_to_json :: "json_lib \<Rightarrow> worker_hello \<Rightarrow> json" where
  "worker_hello_to_json J c =
    of_init_list J
      [(''tcp_share_id'', of_str J (wh_tcp_share_id c)),
       (''worker_id'', of_int J (wh_worker_id c))]"

definition worker_hello_of_json :: "json_lib \<Rightarrow> json \<Rightarrow> worker_hello res" where
  "worker_hello_of_json J jv =
    ebind (as_object J jv) (\<lambda>obj.
    ebind (json_extract J (to_str J) obj ''tcp_share_id'') (\<lambda>i.
    ebind (json_extract J (to_int J) obj ''worker_id'') (\<lambda>w.
    Inr \<lparr>wh_tcp_share_id = i, wh_worker_id = w\<rparr>)))"

definition pong_to_json :: "json_lib \<Rightarrow> unit \<Rightarrow> json" where
  "pong_to_json J c = of_init_list J []"

definition pong_of_json :: "json_lib \<Rightarrow> json \<Rightarrow> unit res" where
  "pong_of_json J jv = Inr ()"

definition ping_to_json :: "json_lib \<Rightarrow> unit \<Rightarrow> json" where
  "ping_to_json J c = of_init_list J []"

definition ping_of_json :: "json_lib \<Rightarrow> json \<Rightarrow> unit res" where
  "ping_of_json J jv = Inr ()"

definition visit_confirmed_to_json :: "json_lib \<Rightarrow> unit \<Rightarrow> json" where
  "visit_confirmed_to_json J c = of_init_list J []"

definition visit_confirmed_of_json :: "json_lib \<Rightarrow> json \<Rightarrow> unit res" where
  "visit_confirmed_of_json J jv = Inr ()"

section \<open>Marshalling\<close>

text \<open>\<open>json::value_from<Message>\<close> and \<open>json::value_to<Expecting>\<close>.\<close>

fun value_from :: "json_lib \<Rightarrow> message \<Rightarrow> json" where
  "value_from J (M_server_hello c) = server_hello_to_json J c"
| "value_from J M_pong = pong_to_json J ()"
| "value_from J (M_visit_tcp_share c) = visit_tcp_share_to_json J c"
| "value_from J (M_client_hello c) = client_hello_to_json J c"
| "value_from J M_ping = ping_to_json J ()"
| "value_from J (M_worker_hello c) = worker_hello_to_json J c"
| "value_from J M_visit_confirmed = visit_confirmed_to_json J ()"

fun value_to :: "json_lib \<Rightarrow> msg_type \<Rightarrow> json \<Rightarrow> message res" where
  "value_to J T_server_hello jv = ebind (server_hello_of_json J jv) (\<lambda>c. Inr (M_server_hello c))"
| "value_to J T_pong jv = ebind (pong_of_json J jv) (\<lambda>_. Inr M_pong)"
| "value_to J T_visit_tcp_share jv =
     ebind (visit_tcp_share_of_json J jv) (\<lambda>c. Inr (M_visit_tcp_share c))"
| "value_to J T_client_hello jv = ebind (client_hello_of_json J jv) (\<lambda>c. Inr (M_client_hello c))"
| "value_to J T_ping jv = ebind (ping_of_json J jv) (\<lambda>_. Inr M_ping)"
| "value_to J T_worker_hello jv = ebind (worker_hello_of_json J jv) (\<lambda>c. Inr (M_worker_hello c))"
| "value_to J T_visit_confirmed jv =
     ebind (visit_confirmed_of_json J jv) (\<lambda>_. Inr M_visit_confirmed)"

definition marshal_msg :: "json_lib \<Rightarrow> message \<Rightarrow> json res" where
  "marshal_msg J m =
    ebind (as_object J (value_from J m)) (\<lambda>obj.
    Inr (JObject (obj_assign J obj ''msg_type'' (of_str J (msg_type_id (type_of m))))))"

text \<open>The list is the template's parameter pack of expected message types.\<close>

fun unmarshal_msg_impl :: "json_lib \<Rightarrow> msg_type list \<Rightarrow> string \<Rightarrow> json \<Rightarrow> message res" where
  "unmarshal_msg_impl J [] type_id msg = Inl (unexpected_msg_type type_id)"
| "unmarshal_msg_impl J (cur # others) type_id msg =
     (if type_id = msg_type_id cur then value_to J cur msg
      else unmarshal_msg_impl J others type_id msg)"

definition unmarshal_msg :: "json_lib \<Rightarrow> msg_type list \<Rightarrow> json \<Rightarrow> message res" where
  "unmarshal_msg J expecting msg =
    ebind (as_object J msg) (\<lambda>obj.
    ebind (json_extract J (to_str J) obj ''msg_type'') (\<lambda>type_id.
    unmarshal_msg_impl J expecting type_id msg))"

section \<open>The contract of a message conversion\<close>

text \<open>
  \<open>carries f o o'\<close>: the object \<open>o'\<close> has the members of \<open>o\<close> as \<open>f\<close> rewrites them, the
  \<open>msg_type\<close> aside.  The rewriting is the identity for a value that stayed in memory and
  \<^const>\<open>norm\<close> for one that went over the wire.
\<close>

definition carries :: "(json \<Rightarrow> json) \<Rightarrow> json_object \<Rightarrow> json_object \<Rightarrow> bool" where
  "carries f kvs kvs' \<longleftrightarrow> (\<forall>k. k \<noteq> ''msg_type'' \<longrightarrow> map_of kvs' k = map_option f (map_of kvs k))"

locale message_codec =
  fixes to_json :: "json_lib \<Rightarrow> 'm \<Rightarrow> json"
    and of_json :: "json_lib \<Rightarrow> json \<Rightarrow> 'm res"
    and wrap :: "'m \<Rightarrow> message"
    and ty :: msg_type
  assumes object: "boost_json J \<Longrightarrow> \<exists>kvs. to_json J m = JObject kvs"
    and read: "boost_json J \<Longrightarrow> to_json J m = JObject kvs \<Longrightarrow> f = id \<or> f = norm \<Longrightarrow>
      carries f kvs kvs' \<Longrightarrow> of_json J (JObject kvs') = Inr m"
    and wrap_type: "type_of (wrap m) = ty"
    and wrap_from: "value_from J (wrap m) = to_json J m"
    and wrap_to: "value_to J ty jv = ebind (of_json J jv) (\<lambda>c. Inr (wrap c))"
begin

lemma marshal_value:
  assumes "boost_json J" "to_json J m = JObject kvs"
  shows "marshal_msg J (wrap m) = Inr (JObject (obj_assign J kvs ''msg_type'' (JString (msg_type_id ty))))"
  using assms by (simp add: marshal_msg_def wrap_type wrap_from boost_json_simps)

lemma value_to_marshalled:
  assumes "boost_json J" "to_json J m = JObject kvs" "f = id \<or> f = norm"
    and "\<And>k. map_of kvs' k = map_option f (map_of (obj_assign J kvs ''msg_type'' t) k)"
  shows "value_to J ty (JObject kvs') = Inr (wrap m)"
proof -
  have "carries f kvs kvs'"
    using assms(1,4) by (simp add: carries_def boost_json_simps)
  then show ?thesis using read [OF assms(1-3)] by (simp add: wrap_to)
qed

end

lemmas codec_defs =
  tcp_share_info_to_json_def tcp_share_info_of_json_def tcp_endpoint_to_json_def
  tcp_endpoint_of_json_def server_hello_to_json_def server_hello_of_json_def
  visit_tcp_share_to_json_def visit_tcp_share_of_json_def client_hello_to_json_def
  client_hello_of_json_def worker_hello_to_json_def worker_hello_of_json_def
  pong_to_json_def pong_of_json_def ping_to_json_def ping_of_json_def
  visit_confirmed_to_json_def visit_confirmed_of_json_def

section \<open>The conversions read back what they wrote\<close>

lemma norm_scalars: 
  "f = id \<or> f = norm \<Longrightarrow> f (JString s) = JString s"
  "f = id \<or> f = norm \<Longrightarrow> f (JInt64 w) = JInt64 w"
  by auto

lemma carriesD: "carries f kvs kvs' \<Longrightarrow> k \<noteq> ''msg_type'' \<Longrightarrow> map_of kvs' k = map_option f (map_of kvs k)"
  by (simp add: carries_def)

lemma to_u64_carried:
  assumes "boost_json J" "f = id \<or> f = norm"
  shows "to_u64 J (f (JUint64 u)) = Inr u"
  using assms by (auto simp: boost_json_simps)

lemma tcp_share_info_back:
  assumes "boost_json J" "f = id \<or> f = norm"
  shows "tcp_share_info_of_json J (f (tcp_share_info_to_json J c)) = Inr c"
proof -
  have "f (JObject kvs) = JObject (map (\<lambda>(k, v). (k, f v)) kvs)" for kvs
    using assms(2) by auto
  with assms show ?thesis
    by (simp add: codec_defs boost_json_simps json_extract_at norm_scalars to_u16_carried)
qed

lemma tcp_endpoint_back:
  assumes "boost_json J" "f = id \<or> f = norm"
  shows "tcp_endpoint_of_json J (f (tcp_endpoint_to_json J c)) = Inr c"
proof -
  have "f (JObject kvs) = JObject (map (\<lambda>(k, v). (k, f v)) kvs)" for kvs
    using assms(2) by auto
  with assms show ?thesis
    by (simp add: codec_defs boost_json_simps json_extract_at norm_scalars to_u16_carried)
qed

lemma client_hello_back:
  assumes "boost_json J" "client_hello_to_json J m = JObject kvs" "f = id \<or> f = norm" "carries f kvs kvs'"
  shows "client_hello_of_json J (JObject kvs') = Inr m"
proof -
  have arr: "f (JArray vs) = JArray (map f vs)" for vs using assms(3) by auto
  have "emap (tcp_share_info_of_json J) (map (\<lambda>c. f (tcp_share_info_to_json J c)) ts) = Inr ts" for ts
    by (rule emap_map) (rule tcp_share_info_back [OF assms(1,3)])
  with assms arr show ?thesis
    by (auto simp: client_hello_to_json_def client_hello_of_json_def boost_json_simps 
      json_extract_at carriesD norm_scalars comp_def)
qed

lemma visit_tcp_share_back:
  assumes "boost_json J" "visit_tcp_share_to_json J m = JObject kvs" "f = id \<or> f = norm" "carries f kvs kvs'"
  shows "visit_tcp_share_of_json J (JObject kvs') = Inr m"
proof -
  have kvs: "kvs = [(''epoch'', JUint64 (vt_epoch m)), (''peer'', tcp_endpoint_to_json J (vt_peer m))]"
    using assms(1,2) by (simp add: visit_tcp_share_to_json_def boost_json_simps)
  show ?thesis
    using assms(1,4) tcp_endpoint_back [OF assms(1,3)] to_u64_carried [OF assms(1,3)]
    by (simp add: visit_tcp_share_of_json_def boost_json_simps json_extract_at carriesD kvs)
qed

section \<open>Every message type satisfies the contract\<close>

interpretation server_hello_codec: message_codec server_hello_to_json server_hello_of_json M_server_hello T_server_hello
  by unfold_locales (auto simp: codec_defs boost_json_simps json_extract_at carriesD norm_scalars)

interpretation visit_codec: message_codec visit_tcp_share_to_json visit_tcp_share_of_json M_visit_tcp_share T_visit_tcp_share
  by unfold_locales (auto simp: visit_tcp_share_to_json_def boost_json_simps visit_tcp_share_back)

interpretation client_hello_codec: message_codec client_hello_to_json client_hello_of_json M_client_hello T_client_hello
  by unfold_locales (auto simp: client_hello_to_json_def boost_json_simps client_hello_back)

interpretation worker_hello_codec: message_codec worker_hello_to_json worker_hello_of_json M_worker_hello T_worker_hello
  by unfold_locales (auto simp: codec_defs boost_json_simps json_extract_at carriesD norm_scalars)

interpretation ping_codec: message_codec ping_to_json ping_of_json "\<lambda>_. M_ping" T_ping
  by unfold_locales (auto simp: codec_defs boost_json_simps)

interpretation pong_codec: message_codec pong_to_json pong_of_json "\<lambda>_. M_pong" T_pong
  by unfold_locales (auto simp: codec_defs boost_json_simps)

interpretation confirmed_codec:
  message_codec visit_confirmed_to_json visit_confirmed_of_json "\<lambda>_. M_visit_confirmed" T_visit_confirmed
  by unfold_locales (auto simp: codec_defs boost_json_simps)

section \<open>Marshalling and unmarshalling\<close>

lemma msg_type_id_inject: "msg_type_id s = msg_type_id t \<longleftrightarrow> s = t"
  by (cases s; cases t) simp_all

lemma unmarshal_impl_hit:
  "ty \<in> set expecting \<Longrightarrow> unmarshal_msg_impl J expecting (msg_type_id ty) jv = value_to J ty jv"
  by (induction expecting) (auto simp: msg_type_id_inject)

lemma unmarshal_impl_miss:
  "tid \<notin> msg_type_id ` set expecting \<Longrightarrow>
   unmarshal_msg_impl J expecting tid jv = Inl (unexpected_msg_type tid)"
  by (induction expecting) auto

text \<open>Only messages of the expected types come out of \<open>unmarshal_msg\<close>.\<close>

lemma value_to_type: "value_to J ty jv = Inr m \<Longrightarrow> type_of m = ty"
  by (cases ty) (auto simp: ebind_Inr_iff)

lemma unmarshal_impl_type: "unmarshal_msg_impl J expecting tid jv = Inr m \<Longrightarrow> type_of m \<in> set expecting"
  by (induction expecting) (auto split: if_splits dest: value_to_type)

lemma unmarshal_type: "unmarshal_msg J expecting jv = Inr m \<Longrightarrow> type_of m \<in> set expecting"
  by (auto simp: unmarshal_msg_def ebind_Inr_iff dest: unmarshal_impl_type)

lemma value_from_object: "boost_json J \<Longrightarrow> \<exists>kvs. value_from J m = JObject kvs"
  by (cases m) (simp_all add: server_hello_codec.object visit_codec.object client_hello_codec.object
    worker_hello_codec.object ping_codec.object pong_codec.object confirmed_codec.object)

lemma marshal_msg_object:
  assumes "boost_json J" "value_from J m = JObject kvs"
  shows "marshal_msg J m =
    Inr (JObject (obj_assign J kvs ''msg_type'' (JString (msg_type_id (type_of m)))))"
  using assms by (simp add: marshal_msg_def boost_json_simps)

lemma marshal_total: "boost_json J \<Longrightarrow> \<exists>jv. marshal_msg J m = Inr jv"
  using value_from_object [of J m] marshal_msg_object [of J m] by blast

lemma value_to_carried:
  assumes "boost_json J" "value_from J m = JObject kvs" "f = id \<or> f = norm"
    and "\<And>k. map_of kvs' k = map_option f (map_of (obj_assign J kvs ''msg_type'' t) k)"
  shows "value_to J (type_of m) (JObject kvs') = Inr m"
proof (cases m)
  case (M_server_hello c)
  with assms show ?thesis using server_hello_codec.value_to_marshalled [of J c kvs f kvs' t] by simp
next
  case M_pong
  with assms show ?thesis using pong_codec.value_to_marshalled [of J "()" kvs f kvs' t] by simp
next
  case (M_visit_tcp_share c)
  with assms show ?thesis using visit_codec.value_to_marshalled [of J c kvs f kvs' t] by simp
next
  case (M_client_hello c)
  with assms show ?thesis using client_hello_codec.value_to_marshalled [of J c kvs f kvs' t] by simp
next
  case M_ping
  with assms show ?thesis using ping_codec.value_to_marshalled [of J "()" kvs f kvs' t] by simp
next
  case (M_worker_hello c)
  with assms show ?thesis using worker_hello_codec.value_to_marshalled [of J c kvs f kvs' t] by simp
next
  case M_visit_confirmed
  with assms show ?thesis using confirmed_codec.value_to_marshalled [of J "()" kvs f kvs' t] by simp
qed

lemma norm_object_map:
  "norm (JObject kvs) = JObject kvs' \<Longrightarrow> map_of kvs' k = map_option norm (map_of kvs k)"
  by (auto simp: map_of_map_snd)

lemma unmarshal_carried:
  assumes "boost_json J" "marshal_msg J m = Inr jv" "f = id \<or> f = norm"
  shows "unmarshal_msg J expecting (f jv) =
    (if type_of m \<in> set expecting then Inr m
     else Inl (unexpected_msg_type (msg_type_id (type_of m))))"
proof -
  obtain kvs where kvs: "value_from J m = JObject kvs"
    using value_from_object [OF assms(1)] by blast
  let ?t = "JString (msg_type_id (type_of m))"
  let ?o = "obj_assign J kvs ''msg_type'' ?t"
  have jv: "jv = JObject ?o" using assms(2) marshal_msg_object [OF assms(1) kvs] by simp
  obtain kvs' where kvs': "f jv = JObject kvs'" and
    at: "\<And>k. map_of kvs' k = map_option f (map_of ?o k)"
    using assms(3) norm_object_map [of ?o] unfolding jv by (auto simp: option.map_id)
  have "map_of kvs' ''msg_type'' = Some ?t"
    using assms(1,3) by (auto simp: at boost_json_simps)
  moreover have "value_to J (type_of m) (f jv) = Inr m"
    unfolding kvs' by (rule value_to_carried [OF assms(1) kvs assms(3) at])
  ultimately show ?thesis
    using assms(1) kvs'
    by (simp add: unmarshal_msg_def boost_json_simps json_extract_at unmarshal_impl_hit
        unmarshal_impl_miss msg_type_id_inject image_iff)
qed

lemma unmarshal_norm:
  "boost_json J \<Longrightarrow> marshal_msg J m = Inr j \<Longrightarrow> unmarshal_msg J expecting (norm j) =
    (if type_of m \<in> set expecting then Inr m else Inl (unexpected_msg_type (msg_type_id (type_of m))))"
  using unmarshal_carried [of J m j norm expecting] by simp

text \<open>The message of a type outside the list, or of no known type at all, is refused.\<close>

lemma unmarshal_unknown:
  assumes "boost_json J" "map_of kvs ''msg_type'' = Some (JString tid)"
    and "tid \<notin> msg_type_id ` set expecting"
  shows "unmarshal_msg J expecting (JObject kvs) = Inl (unexpected_msg_type tid)"
  using assms by (simp add: unmarshal_msg_def boost_json_simps json_extract_at unmarshal_impl_miss)

text \<open>
  Property C23 (round trip): every message, of all seven types, marshals to a JSON value
  that unmarshals to the same message where its type is among the expected
  ones, and to the exception \<open>unexpected_msg_type\<close> with its type id where it is
  not; the same holds of the value that the text of the message parses to, in
  which the parser has chosen other number kinds.
\<close>

theorem unmarshal_marshal:
  assumes "boost_json J"
  shows "\<exists>jv. marshal_msg J m = Inr jv \<and>
    unmarshal_msg J expecting jv =
      (if type_of m \<in> set expecting then Inr m
       else Inl (unexpected_msg_type (msg_type_id (type_of m)))) \<and>
    unmarshal_msg J expecting (norm jv) = unmarshal_msg J expecting jv"
proof -
  obtain kvs where "value_from J m = JObject kvs"
    using value_from_object [OF assms] by blast
  then obtain jv where jv: "marshal_msg J m = Inr jv"
    using marshal_msg_object [OF assms] by blast
  show ?thesis
    using jv unmarshal_carried [OF assms jv, of id] unmarshal_carried [OF assms jv, of norm]
    by simp
qed

theorem unmarshal_marshal_witness:
  "boost_json (std_json (\<lambda>_. []) (\<lambda>_. Inr JNull)) \<and>
   (\<exists>jv. marshal_msg (std_json (\<lambda>_. []) (\<lambda>_. Inr JNull))
        (M_worker_hello \<lparr>wh_tcp_share_id = ''ssh'', wh_worker_id = 7\<rparr>) = Inr jv \<and>
      unmarshal_msg (std_json (\<lambda>_. []) (\<lambda>_. Inr JNull)) [T_client_hello, T_worker_hello] jv =
        Inr (M_worker_hello \<lparr>wh_tcp_share_id = ''ssh'', wh_worker_id = 7\<rparr>))"
  using unmarshal_marshal
    [of "std_json (\<lambda>_. []) (\<lambda>_. Inr JNull)" "M_worker_hello \<lparr>wh_tcp_share_id = ''ssh'', wh_worker_id = 7\<rparr>"
        "[T_client_hello, T_worker_hello]"]
  by auto

lemma unmarshal_impl_id: "unmarshal_msg_impl J expecting tid jv = Inr m \<Longrightarrow> msg_type_id (type_of m) = tid"
  by (induction expecting) (auto split: if_splits dest: value_to_type)

text \<open>
  Whatever value a peer sends, and whatever the JSON library makes of it, a coroutine
  only ever dispatches a message of one of the types it has a handler for: \<open>unmarshal_msg\<close> accepts a
  value only if its \<open>msg_type\<close> is the id of an expected type, and the message is of that very type.
\<close>

theorem dispatch_is_typed:
  assumes "unmarshal_msg J expecting jv = Inr m"
  shows "type_of m \<in> set expecting \<and>
    (\<exists>kvs. as_object J jv = Inr kvs \<and> json_extract J (to_str J) kvs ''msg_type'' = Inr (msg_type_id (type_of m)))"
  using assms unmarshal_impl_id unmarshal_impl_type by (fastforce simp: unmarshal_msg_def ebind_Inr_iff)

section \<open>A library for concrete runs\<close>

text \<open>
  The library of the concrete runs in the other theories: the reference instance, with the
  messages it makes and reads.
\<close>

definition plain_json :: json_lib where
  "plain_json = std_json (\<lambda>_. []) (\<lambda>_. Inr JNull)"

definition ping_json :: json where
  "ping_json = JObject [(''msg_type'', JString ''ping'')]"

definition pong_json :: json where
  "pong_json = JObject [(''msg_type'', JString ''pong'')]"

lemma plain_json_sel:
  "as_object plain_json v = (case v of JObject kvs \<Rightarrow> Inr kvs | _ \<Rightarrow> Inl (json_error ''not an object''))"
  "obj_at plain_json kvs k = (case map_of kvs k of Some v \<Rightarrow> Inr v | None \<Rightarrow> Inl out_of_range)"
  "to_str plain_json v = (case v of JString s \<Rightarrow> Inr s | _ \<Rightarrow> Inl (json_error ''not a string''))"
  "of_str plain_json = JString" "of_u64 plain_json = JUint64" "of_u16 plain_json n = JUint64 (ucast n)"
  "of_init_list plain_json = JObject"
  "obj_assign plain_json kvs k v = AList.update k v kvs"
  by (simp_all add: plain_json_def std_json_def)

lemmas plain_eval = plain_json_sel ping_json_def pong_json_def unmarshal_msg_def marshal_msg_def
  json_extract_def ping_of_json_def pong_to_json_def

lemma boost_json_plain: "boost_json plain_json"
  by (simp add: plain_json_def)

lemma plain_ping: "unmarshal_msg plain_json [T_ping] ping_json = Inr M_ping"
  by (simp add: plain_eval)

lemma plain_pong: "marshal_msg plain_json M_pong = Inr pong_json"
  by (simp add: plain_eval)

lemma plain_visit:
  "marshal_msg plain_json (M_visit_tcp_share \<lparr>vt_epoch = 5, vt_peer = \<lparr>ep_ip = ''::1'', ep_port = 9\<rparr>\<rparr>) =
    Inr (JObject [(''epoch'', JUint64 5), (''peer'', JObject [(''ip'', JString ''::1''), (''port'', JUint64 9)]),
      (''msg_type'', JString ''visit_tcp_share'')])"
  by (simp add: plain_eval visit_tcp_share_to_json_def tcp_endpoint_to_json_def)

definition msg_json :: "message \<Rightarrow> json" where
  "msg_json m = (case marshal_msg plain_json m of Inr jv \<Rightarrow> jv | Inl e \<Rightarrow> JNull)"

lemma unmarshal_msg_json:
  "unmarshal_msg plain_json expecting (msg_json m) =
    (if type_of m \<in> set expecting then Inr m
     else Inl (unexpected_msg_type (msg_type_id (type_of m))))"
proof -
  obtain kvs where "value_from plain_json m = JObject kvs"
    using value_from_object [OF boost_json_plain] by blast
  then obtain jv where jv: "marshal_msg plain_json m = Inr jv"
    using marshal_msg_object [OF boost_json_plain] by blast
  show ?thesis
    using jv unmarshal_carried [OF boost_json_plain jv, of id] by (simp add: msg_json_def)
qed

lemma marshal_msg_plain: "marshal_msg plain_json m = Inr (msg_json m)"
proof -
  obtain kvs where "value_from plain_json m = JObject kvs"
    using value_from_object [OF boost_json_plain] by blast
  then show ?thesis
    using marshal_msg_object [OF boost_json_plain] by (simp add: msg_json_def)
qed

theorem dispatch_is_typed_witness:
  "T_ping \<in> set [T_ping, T_visit_confirmed] \<and>
    (\<exists>kvs. as_object plain_json ping_json = Inr kvs \<and> json_extract plain_json (to_str plain_json) kvs ''msg_type'' = Inr ''ping'')"
proof -
  have "unmarshal_msg plain_json [T_ping, T_visit_confirmed] ping_json = Inr M_ping" by (simp add: plain_eval)
  from dispatch_is_typed [OF this] show ?thesis by simp
qed

end
