(* ===== verification/Framing.thy ===== *)
theory Framing
  imports Endian Messages
begin

text \<open>
  Frames on the wire: \<open>recv_msg\<close> and \<open>send_msg\<close> of \<open>include/zrp/msg.hpp\<close>.  A frame is the
  length of the text on eight big-endian bytes, then the text.

  Boost.Asio is not part of the repository: the stream is an argument, a record of the
  operations the code calls, with \<open>asio_stream\<close> the documented behaviour relied on.  The
  debug logging of the received blocks is left out.  The receive loop consumes as many
  bytes as the stream chooses to give, so it is a \<open>partial_function\<close>; that it returns is
  a theorem.
\<close>

section \<open>Streams\<close>

record 's stream_lib =
  async_read :: "'s \<Rightarrow> nat \<Rightarrow> (byte list \<times> 's) res"
  async_read_some :: "'s \<Rightarrow> nat \<Rightarrow> (byte list \<times> 's) res"
  async_write :: "'s \<Rightarrow> byte list \<Rightarrow> 's res"

text \<open>
  \<open>inp s\<close> is what the peer's bytes still to be read are, \<open>outp s\<close> what was written so far.
  \<open>async_read\<close> fills the whole buffer or fails; \<open>async_read_some\<close> of a buffer that is not empty gives
  at least one byte and at most the buffer; neither invents, loses or reorders bytes.
\<close>

definition asio_stream :: "'s stream_lib \<Rightarrow> ('s \<Rightarrow> byte list) \<Rightarrow> bool" where
  "asio_stream S inp \<longleftrightarrow>
    (\<forall>s n bs s'. async_read S s n = Inr (bs, s') \<longrightarrow> length bs = n \<and> inp s = bs @ inp s') \<and>
    (\<forall>s n. n \<le> length (inp s) \<longrightarrow> (\<exists>r. async_read S s n = Inr r)) \<and>
    (\<forall>s n bs s'. 0 < n \<longrightarrow> async_read_some S s n = Inr (bs, s') \<longrightarrow>
      0 < length bs \<and> length bs \<le> n \<and> inp s = bs @ inp s') \<and>
    (\<forall>s n. 0 < n \<longrightarrow> inp s \<noteq> [] \<longrightarrow> (\<exists>r. async_read_some S s n = Inr r))"

definition asio_sink :: "'s stream_lib \<Rightarrow> ('s \<Rightarrow> byte list) \<Rightarrow> bool" where
  "asio_sink S outp \<longleftrightarrow> (\<forall>s bs s'. async_write S s bs = Inr s' \<longrightarrow> outp s' = outp s @ bs)"

section \<open>Receiving and sending\<close>

text \<open>The loop \<open>while (remain > 4096)\<close>: blocks of what the stream gives go to the parser.\<close>

partial_function (option) recv_large ::
  "'s stream_lib \<Rightarrow> json_lib \<Rightarrow> 's \<Rightarrow> string list \<Rightarrow> u64 \<Rightarrow> (string list \<times> 's \<times> u64) res option"
where
  "recv_large S J s parser remain =
    (if 4096 < remain then
       (case async_read_some S s 4096 of
         Inl e \<Rightarrow> Some (Inl e)
       | Inr (buf_payload, s') \<Rightarrow>
           (case p_write J parser (string_of buf_payload) of
             Inl e \<Rightarrow> Some (Inl e)
           | Inr _ \<Rightarrow>
               recv_large S J s' (parser @ [string_of buf_payload])
                 (remain - of_nat (length buf_payload))))
     else Some (Inr (parser, s, remain)))"

text \<open>The rest of the payload, at most 4096 bytes, and the release of the value.\<close>

definition recv_rest :: "'s stream_lib \<Rightarrow> json_lib \<Rightarrow> 's \<Rightarrow> string list \<Rightarrow> u64 \<Rightarrow> (json \<times> 's) res" where
  "recv_rest S J s parser remain =
    ebind
      (if 0 < remain then
         ebind (async_read S s (unat remain)) (\<lambda>(buf_payload, s').
         ebind (p_write J parser (string_of buf_payload)) (\<lambda>_.
         Inr (parser @ [string_of buf_payload], s')))
       else Inr (parser, s))
      (\<lambda>(parser', s'). ebind (p_release J parser') (\<lambda>jv. Inr (jv, s')))"

definition recv_msg :: "'s stream_lib \<Rightarrow> json_lib \<Rightarrow> 's \<Rightarrow> (json \<times> 's) res option" where
  "recv_msg S J s =
    (case async_read S s 8 of
      Inl e \<Rightarrow> Some (Inl e)
    | Inr (buf_meta, s1) \<Rightarrow>
        (let len = extract_uint64 big buf_meta in
         if 8192 < len then Some (Inl (msg_too_big len))
         else
           (case recv_large S J s1 [] len of
             None \<Rightarrow> None
           | Some (Inl e) \<Rightarrow> Some (Inl e)
           | Some (Inr (parser, s2, remain)) \<Rightarrow> Some (recv_rest S J s2 parser remain))))"

definition send_msg :: "'s stream_lib \<Rightarrow> json_lib \<Rightarrow> 's \<Rightarrow> json \<Rightarrow> 's res" where
  "send_msg S J s jv =
    (let str = serialize J jv;
         len = (of_nat (length str) :: u64);
         buf_meta = put_uint64 big (replicate 8 0) len
     in async_write S s (buf_meta @ bytes_of str))"

text \<open>The bytes of a frame, the abstract view of what \<open>send_msg\<close> writes.\<close>

definition frame :: "string \<Rightarrow> byte list" where
  "frame str = put_uint64 big (replicate 8 0) (of_nat (length str)) @ bytes_of str"

section \<open>What the stream gives\<close>

lemma asio_streamD:
  assumes "asio_stream S inp"
  shows "async_read S s n = Inr (bs, s') \<Longrightarrow> length bs = n \<and> inp s = bs @ inp s'"
    and "n \<le> length (inp s) \<Longrightarrow> \<exists>r. async_read S s n = Inr r"
    and "async_read_some S s 4096 = Inr (bs, s') \<Longrightarrow>
      0 < length bs \<and> length bs \<le> 4096 \<and> inp s = bs @ inp s'"
    and "0 < n \<Longrightarrow> inp s \<noteq> [] \<Longrightarrow> \<exists>r. async_read_some S s n = Inr r"
proof -
  have some: "\<forall>s n bs s'. 0 < n \<longrightarrow> async_read_some S s n = Inr (bs, s') \<longrightarrow>
      0 < length bs \<and> length bs \<le> n \<and> inp s = bs @ inp s'"
    using assms unfolding asio_stream_def by blast
  show "async_read_some S s 4096 = Inr (bs, s') \<Longrightarrow> 0 < length bs \<and> length bs \<le> 4096 \<and> inp s = bs @ inp s'"
    using some [rule_format, of 4096] by simp
qed (use assms in \<open>unfold asio_stream_def, blast+\<close>)

lemma asio_read_exact:
  assumes "asio_stream S inp" "inp s = bs @ rest" "length bs = n"
  obtains s' where "async_read S s n = Inr (bs, s')" "inp s' = rest"
proof -
  have "n \<le> length (inp s)" using assms(2,3) by simp
  then obtain bs' s' where r: "async_read S s n = Inr (bs', s')"
    using asio_streamD(2) [OF assms(1)] by fastforce
  have "bs' @ inp s' = bs @ rest" "length bs' = length bs"
    using asio_streamD(1) [OF assms(1) r] assms(2,3) by simp_all
  then have "bs' = bs" "inp s' = rest" by simp_all
  with r that show ?thesis by blast
qed

lemma reads_back_write:
  assumes "reads_back J v" "concat parser @ c @ t = serialize J v"
  shows "p_write J parser c = Inr ()"
  using assms unfolding reads_back_def
  by (metis append.assoc concat.simps concat_append append_Nil2)

section \<open>The receive loop\<close>

text \<open>One turn of the loop: the subtraction on \<open>size_t\<close> does not wrap and leaves something.\<close>

lemma remain_step:
  fixes remain :: u64
  assumes "4096 < remain" "0 < k" "k \<le> 4096"
  shows "unat (remain - of_nat k) = unat remain - k" "0 < unat (remain - of_nat k)"
    "unat (remain - of_nat k) < unat remain"
proof -
  have "unat (of_nat k :: u64) = k" using assms(3) by (simp add: unat_of_nat)
  moreover have "4096 < unat remain" using assms(1) by (simp add: word_less_nat_alt)
  moreover have "of_nat k \<le> remain" using calculation assms by (simp add: word_le_nat_alt)
  ultimately show "unat (remain - of_nat k) = unat remain - k" "0 < unat (remain - of_nat k)"
    "unat (remain - of_nat k) < unat remain"
    using assms by (simp_all add: unat_sub)
qed

lemma recv_large_done: "\<not> 4096 < remain \<Longrightarrow> recv_large S J s p remain = Some (Inr (p, s, remain))"
  by (simp add: recv_large.simps)

lemma recv_large_step:
  assumes "4096 < remain"
  shows "recv_large S J s p remain =
    (case async_read_some S s 4096 of
       Inl e \<Rightarrow> Some (Inl e)
     | Inr (bs, s') \<Rightarrow>
       (case p_write J p (string_of bs) of
         Inl e \<Rightarrow> Some (Inl e)
       | Inr _ \<Rightarrow> recv_large S J s' (p @ [string_of bs]) (remain - of_nat (length bs))))"
  by (subst recv_large.simps) (simp add: assms)

text \<open>The loop returns, because every read takes at least a byte off \<open>remain\<close>.\<close>

lemma recv_large_returns:
  assumes "asio_stream S inp"
  shows "\<exists>r. recv_large S J s p remain = Some r"
proof (induction "unat remain" arbitrary: s p remain rule: less_induct)
  case less
  show ?case
  proof (cases "4096 < remain")
    case True
    have "\<exists>r. recv_large S J s' q (remain - of_nat (length bs)) = Some r"
      if "async_read_some S s 4096 = Inr (bs, s')" for bs s' q
      using asio_streamD(3) [OF assms that] remain_step(3) [OF True] less by blast
    then show ?thesis by (auto simp: recv_large_step True split: sum.split)
  qed (simp add: recv_large_done)
qed

lemma recv_large_reads:
  assumes "asio_stream S inp" "reads_back J v"
    and "inp s = payload @ rest" "length payload = unat remain"
    and "concat p @ string_of payload = serialize J v"
  shows "\<exists>p' s' remain' payload'.
    recv_large S J s p remain = Some (Inr (p', s', remain')) \<and>
    \<not> 4096 < remain' \<and> inp s' = payload' @ rest \<and> length payload' = unat remain' \<and>
    concat p' @ string_of payload' = serialize J v"
  using assms(3-)
proof (induction "unat remain" arbitrary: s p remain payload rule: less_induct)
  case less
  show ?case
  proof (cases "4096 < remain")
    case True
    then have "payload \<noteq> []" using less.prems(2) by (auto simp: word_less_nat_alt)
    then obtain bs s' where r: "async_read_some S s 4096 = Inr (bs, s')"
      using asio_streamD(4) [OF assms(1), of 4096 s] less.prems(1) by fastforce
    then have bs: "0 < length bs" "length bs \<le> 4096" "inp s = bs @ inp s'"
      using asio_streamD(3) [OF assms(1)] by blast+
    have "4096 < unat remain" using True by (simp add: word_less_nat_alt)
    then have split: "payload = bs @ drop (length bs) payload" "inp s' = drop (length bs) payload @ rest"
      using bs less.prems(1,2)
      by (auto simp: append_eq_append_conv_if) (metis append_take_drop_id)
    define payload2 where "payload2 = drop (length bs) payload"
    note step = remain_step [OF True bs(1,2)]
    have whole: "concat p @ string_of bs @ string_of payload2 = serialize J v"
      using less.prems(3) split(1) by (metis payload2_def string_of_append)
    have w: "p_write J p (string_of bs) = Inr ()"
      by (rule reads_back_write [OF assms(2) whole])
    have "length payload2 = unat (remain - of_nat (length bs))"
      using less.prems(2) step(1) by (simp add: payload2_def)
    then show ?thesis
      using less.hyps [OF step(3), of s' payload2 "p @ [string_of bs]"] split(2) whole
      by (simp add: recv_large_step [OF True] r w payload2_def)
  qed (use less.prems in \<open>auto simp: recv_large_done\<close>)
qed

lemma recv_large_consumes:
  assumes "asio_stream S inp" "recv_large S J s p remain = Some (Inr (p', s', remain'))"
  shows "\<exists>bs. inp s = bs @ inp s' \<and> length bs + unat remain' = unat remain \<and>
    concat p' = concat p @ string_of bs \<and> \<not> 4096 < remain'"
  using assms(2)
proof (induction "unat remain" arbitrary: s p remain rule: less_induct)
  case less
  show ?case
  proof (cases "4096 < remain")
    case True
    with less.prems obtain bs s2 where r: "async_read_some S s 4096 = Inr (bs, s2)"
      and k: "recv_large S J s2 (p @ [string_of bs]) (remain - of_nat (length bs)) = Some (Inr (p', s', remain'))"
      by (auto simp: recv_large_step split: sum.splits)
    have bs: "0 < length bs" "length bs \<le> 4096" "inp s = bs @ inp s2"
      using asio_streamD(3) [OF assms(1) r] by blast+
    note step = remain_step [OF True bs(1,2)]
    from less.hyps [OF step(3) k] obtain cs where
      cs: "inp s2 = cs @ inp s'" "length cs + unat remain' = unat (remain - of_nat (length bs))"
        "concat p' = concat (p @ [string_of bs]) @ string_of cs" "\<not> 4096 < remain'" by blast
    have "length bs \<le> unat remain" using True bs(2) by (simp add: word_less_nat_alt)
    then show ?thesis using cs bs(3) step(1) by (intro exI [of _ "bs @ cs"]) auto
  qed (use less.prems in \<open>auto simp: recv_large_done\<close>)
qed


section \<open>One frame\<close>

lemma reads_back_release: "reads_back J v \<Longrightarrow> concat p = serialize J v \<Longrightarrow> p_release J p = Inr (norm v)"
  by (simp add: reads_back_def)

lemma recv_rest_reads:
  assumes "asio_stream S inp" "reads_back J v"
    and "inp s = payload @ rest" "length payload = unat remain"
    and "concat p @ string_of payload = serialize J v"
  shows "\<exists>s'. recv_rest S J s p remain = Inr (norm v, s') \<and> inp s' = rest"
proof (cases "0 < remain")
  case True
  obtain s' where r: "async_read S s (unat remain) = Inr (payload, s')" and i: "inp s' = rest"
    using asio_read_exact [OF assms(1,3,4)] by blast
  have "p_write J p (string_of payload) = Inr ()"
    using reads_back_write [OF assms(2), of p "string_of payload" "[]"] assms(5) by simp
  moreover have "p_release J (p @ [string_of payload]) = Inr (norm v)"
    using reads_back_release [OF assms(2)] assms(5) by simp
  ultimately show ?thesis using True r i by (simp add: recv_rest_def)
next
  case False
  then have "payload = []" using assms(4) by (simp add: word_less_nat_alt)
  then show ?thesis
    using False assms reads_back_release [OF assms(2), of p] by (simp add: recv_rest_def)
qed

lemma recv_rest_consumes:
  assumes "asio_stream S inp" "recv_rest S J s p remain = Inr (v, s')"
  shows "\<exists>bs. inp s = bs @ inp s' \<and> length bs = unat remain \<and>
    (\<exists>p'. p_release J p' = Inr v \<and> concat p' = concat p @ string_of bs)"
proof (cases "0 < remain")
  case True
  with assms(2) obtain bs where r: "async_read S s (unat remain) = Inr (bs, s')"
    and "p_release J (p @ [string_of bs]) = Inr v"
    by (auto simp: recv_rest_def ebind_Inr_iff)
  then show ?thesis
    using asio_streamD(1) [OF assms(1) r] by (intro exI [of _ bs] conjI exI [of _ "p @ [string_of bs]"]) auto
next
  case False
  then have "unat remain = 0" by (simp add: word_less_nat_alt)
  with False assms(2) show ?thesis
    by (auto simp: recv_rest_def ebind_Inr_iff)
qed

lemma recv_msg_frame:
  assumes "asio_stream S inp" "reads_back J v" "inp s = frame (serialize J v) @ rest"
    and "length (serialize J v) \<le> 8192"
  shows "\<exists>s'. recv_msg S J s = Some (Inr (norm v, s')) \<and> inp s' = rest"
proof -
  let ?str = "serialize J v"
  let ?len = "of_nat (length ?str) :: u64"
  let ?meta = "put_uint64 big (replicate 8 0) ?len"
  have ulen: "unat ?len = length ?str" using assms(4) by (simp add: unat_of_nat)
  then have small: "\<not> 8192 < ?len" using assms(4) by (simp add: word_less_nat_alt)
  obtain s1 where r1: "async_read S s 8 = Inr (?meta, s1)" and i1: "inp s1 = bytes_of ?str @ rest"
    using asio_read_exact [OF assms(1), of s ?meta "bytes_of ?str @ rest" 8] assms(3)
    by (auto simp: frame_def)
  obtain p' s2 remain' payload' where large:
      "recv_large S J s1 [] ?len = Some (Inr (p', s2, remain'))"
    and i2: "inp s2 = payload' @ rest" "length payload' = unat remain'"
      "concat p' @ string_of payload' = ?str"
    using recv_large_reads [OF assms(1,2) i1, of ?len "[]"] ulen by auto
  obtain s3 where "recv_rest S J s2 p' remain' = Inr (norm v, s3)" "inp s3 = rest"
    using recv_rest_reads [OF assms(1,2) i2] by blast
  then show ?thesis
    using r1 small large by (simp add: recv_msg_def be64.dec_enc)
qed

lemma recv_msg_cases:
  assumes "asio_stream S inp"
  shows "\<exists>r. recv_msg S J s = Some r"
proof -
  have "recv_large S J s1 [] len \<noteq> None" for s1 len
    using recv_large_returns [OF assms, of J s1 "[]" len] by auto
  then show ?thesis
    by (auto simp: recv_msg_def Let_def split: sum.split option.split) (metis option.distinct(1))
qed

lemma recv_msg_consumes:
  assumes "asio_stream S inp" "recv_msg S J s = Some (Inr (v, s'))"
  shows "\<exists>hdr payload. inp s = hdr @ payload @ inp s' \<and> length hdr = 8 \<and>
    length payload = be_value 0 hdr \<and> length payload \<le> 8192 \<and>
    (\<exists>p. p_release J p = Inr v \<and> concat p = string_of payload)"
proof -
  from assms(2) obtain hdr s1 p' s2 remain' where
    r1: "async_read S s 8 = Inr (hdr, s1)"
    and small: "\<not> 8192 < extract_uint64 big hdr"
    and large: "recv_large S J s1 [] (extract_uint64 big hdr) = Some (Inr (p', s2, remain'))"
    and r2: "recv_rest S J s2 p' remain' = Inr (v, s')"
    by (auto simp: recv_msg_def Let_def split: sum.splits option.splits if_splits)
  have hdr: "inp s = hdr @ inp s1" "length hdr = 8" using asio_streamD(1) [OF assms(1) r1] by auto
  obtain bs where bs: "inp s1 = bs @ inp s2"
    "length bs + unat remain' = unat (extract_uint64 big hdr)" "concat p' = string_of bs"
    using recv_large_consumes [OF assms(1) large] by auto
  obtain cs p where cs: "inp s2 = cs @ inp s'" "length cs = unat remain'"
    "p_release J p = Inr v" "concat p = concat p' @ string_of cs"
    using recv_rest_consumes [OF assms(1) r2] by blast
  have "unat (extract_uint64 big hdr) \<le> 8192" using small by (simp add: word_less_nat_alt)
  then show ?thesis
    using hdr bs cs unat_extract_big [OF hdr(2)]
    by (intro exI [of _ hdr] exI [of _ "bs @ cs"]) (auto intro!: exI [of _ p])
qed

lemma recv_msg_oversize:
  assumes "asio_stream S inp" "inp s = hdr @ rest" "length hdr = 8" "8192 < be_value 0 hdr"
  shows "recv_msg S J s = Some (Inl (msg_too_big (extract_uint64 big hdr)))"
proof -
  obtain s1 where "async_read S s 8 = Inr (hdr, s1)"
    using asio_read_exact [OF assms(1-3)] by blast
  moreover have "8192 < extract_uint64 big hdr"
    using assms(4) unat_extract_big [OF assms(3)] by (simp add: word_less_nat_alt)
  ultimately show ?thesis by (simp add: recv_msg_def)
qed

section \<open>A sequence of frames\<close>

text \<open>The messages that a loop of \<open>n\<close> receives gets, and a loop of sends.\<close>

fun recv_seq :: "'s stream_lib \<Rightarrow> json_lib \<Rightarrow> 's \<Rightarrow> nat \<Rightarrow> (json list \<times> 's) res option" where
  "recv_seq S J s 0 = Some (Inr ([], s))"
| "recv_seq S J s (Suc n) =
    (case recv_msg S J s of
      None \<Rightarrow> None
    | Some (Inl e) \<Rightarrow> Some (Inl e)
    | Some (Inr (v, s1)) \<Rightarrow>
        (case recv_seq S J s1 n of
          None \<Rightarrow> None
        | Some (Inl e) \<Rightarrow> Some (Inl e)
        | Some (Inr (vs, s2)) \<Rightarrow> Some (Inr (v # vs, s2))))"

fun send_seq :: "'s stream_lib \<Rightarrow> json_lib \<Rightarrow> 's \<Rightarrow> json list \<Rightarrow> 's res" where
  "send_seq S J s [] = Inr s"
| "send_seq S J s (v # vs) = ebind (send_msg S J s v) (\<lambda>s'. send_seq S J s' vs)"

lemma send_msg_writes:
  assumes "asio_sink S outp" "send_msg S J s v = Inr s'"
  shows "outp s' = outp s @ frame (serialize J v)"
  using assms by (auto simp: send_msg_def asio_sink_def frame_def Let_def)

lemma send_seq_writes:
  assumes "asio_sink S outp"
  shows "send_seq S J s vs = Inr s' \<Longrightarrow> outp s' = outp s @ concat (map (frame \<circ> serialize J) vs)"
  by (induction vs arbitrary: s) (auto simp: ebind_Inr_iff send_msg_writes [OF assms])

lemma recv_seq_frames:
  assumes "asio_stream S inp"
    and "\<And>v. v \<in> set vs \<Longrightarrow> reads_back J v \<and> length (serialize J v) \<le> 8192"
    and "inp s = concat (map (frame \<circ> serialize J) vs) @ rest"
  shows "\<exists>s'. recv_seq S J s (length vs) = Some (Inr (map norm vs, s')) \<and> inp s' = rest"
  using assms(2,3)
proof (induction vs arbitrary: s)
  case Nil
  then show ?case by simp
next
  case (Cons v vs)
  have "reads_back J v" "length (serialize J v) \<le> 8192" using Cons.prems(1) by auto
  then obtain s1 where 1: "recv_msg S J s = Some (Inr (norm v, s1))"
    and i: "inp s1 = concat (map (frame \<circ> serialize J) vs) @ rest"
    using recv_msg_frame [OF assms(1), of J v s] Cons.prems(2) by (auto simp: comp_def)
  from Cons.IH [OF _ i] Cons.prems(1) obtain s2 where
    "recv_seq S J s1 (length vs) = Some (Inr (map norm vs, s2))" "inp s2 = rest" by auto
  with 1 show ?case by simp
qed

section \<open>A concrete stream\<close>

text \<open>For the witnesses: a buffer that hands out at most \<open>k + 1\<close> bytes per \<open>async_read_some\<close>.\<close>

record net =
  incoming :: "byte list"
  outgoing :: "byte list"

definition net_stream :: "nat \<Rightarrow> net stream_lib" where
  "net_stream k = \<lparr>
    async_read = (\<lambda>s n.
      if n \<le> length (incoming s)
      then Inr (take n (incoming s), s\<lparr>incoming := drop n (incoming s)\<rparr>)
      else Inl (system_error end_of_file)),
    async_read_some = (\<lambda>s n.
      let m = min n (min (Suc k) (length (incoming s))) in
      if m = 0 then Inl (system_error end_of_file)
      else Inr (take m (incoming s), s\<lparr>incoming := drop m (incoming s)\<rparr>)),
    async_write = (\<lambda>s bs. Inr (s\<lparr>outgoing := outgoing s @ bs\<rparr>)) \<rparr>"

lemma asio_stream_net [simp]: "asio_stream (net_stream k) incoming"
  by (auto simp: asio_stream_def net_stream_def Let_def min_def split: if_splits)

lemma asio_sink_net [simp]: "asio_sink (net_stream k) outgoing"
  by (auto simp: asio_sink_def net_stream_def)

section \<open>Properties\<close>

text \<open>
  Property C5 (functional): whatever sizes the network delivers the bytes in, receiving a
  frame of at most 8192 bytes yields the value whose text it carries and leaves
  exactly the bytes after the frame.
\<close>

theorem recv_msg_reads_frame:
  assumes "asio_stream S inp" "reads_back J v" "inp s = frame (serialize J v) @ rest"
    and "length (serialize J v) \<le> 8192"
  shows "\<exists>s'. recv_msg S J s = Some (Inr (norm v, s')) \<and> inp s' = rest"
  by (rule recv_msg_frame [OF assms])

definition wide_json :: json_lib where
  "wide_json = std_json (\<lambda>_. replicate 5000 CHR ''x'') (\<lambda>_. Inr (JObject []))"

lemma reads_back_wide: "reads_back wide_json (JObject [])"
  unfolding wide_json_def by (rule reads_back_std) simp

lemma serialize_wide: "serialize wide_json v = replicate 5000 CHR ''x''"
  by (simp add: wide_json_def std_json_def)

theorem recv_msg_reads_frame_witness:
  "\<exists>s'. recv_msg (net_stream 1000) wide_json
      \<lparr>incoming = frame (serialize wide_json (JObject [])) @ [7], outgoing = []\<rparr> =
    Some (Inr (JObject [], s')) \<and> incoming s' = [7]"
  using recv_msg_reads_frame
    [OF asio_stream_net reads_back_wide,
     of "\<lparr>incoming = frame (serialize wide_json (JObject [])) @ [7], outgoing = []\<rparr>" "[7]" 1000]
  by (simp add: serialize_wide)

text \<open>
  Receiving returns on every stream, valid frame or not; the
  loop over the payload cannot run forever, because \<open>remain\<close> shrinks with every
  block and never wraps below zero.
\<close>

theorem recv_msg_total:
  assumes "asio_stream S inp"
  shows "\<exists>r. recv_msg S J s = Some r"
  by (rule recv_msg_cases [OF assms])

theorem recv_msg_total_witness:
  "\<exists>r. recv_msg (net_stream 0) wide_json \<lparr>incoming = [1, 2, 3], outgoing = []\<rparr> = Some r"
  using recv_msg_total [OF asio_stream_net] by blast

text \<open>
  Property C38 (bounds): a successful receive takes from the stream the eight bytes of the
  header and then exactly as many bytes as they announce, at most 8192, and the
  parser has seen exactly those bytes.
\<close>

theorem recv_msg_bounded:
  assumes "asio_stream S inp" "recv_msg S J s = Some (Inr (v, s'))"
  shows "\<exists>hdr payload. inp s = hdr @ payload @ inp s' \<and> length hdr = 8 \<and>
    length payload = be_value 0 hdr \<and> length payload \<le> 8192 \<and>
    (\<exists>p. p_release J p = Inr v \<and> concat p = string_of payload)"
  by (rule recv_msg_consumes [OF assms])

theorem recv_msg_bounded_witness:
  "\<exists>s' hdr payload. recv_msg (net_stream 1000) wide_json
      \<lparr>incoming = frame (serialize wide_json (JObject [])), outgoing = []\<rparr> =
    Some (Inr (JObject [], s')) \<and>
    frame (serialize wide_json (JObject [])) = hdr @ payload @ incoming s' \<and> length payload \<le> 8192"
proof -
  let ?s = "\<lparr>incoming = frame (serialize wide_json (JObject [])), outgoing = []\<rparr>"
  obtain s' where "recv_msg (net_stream 1000) wide_json ?s = Some (Inr (JObject [], s'))"
    using recv_msg_frame [OF asio_stream_net reads_back_wide, of ?s "[]" 1000]
    by (auto simp: serialize_wide)
  then show ?thesis using recv_msg_bounded [OF asio_stream_net, of 1000 wide_json ?s] by fastforce
qed

text \<open>
  The limit is the receiver's alone.  A value whose text is longer than
  8192 bytes is written without complaint, and the peer that reads the frame
  throws \<open>msg_too_big\<close> with its length.
\<close>

theorem oversize_sent_then_refused:
  assumes "asio_sink S outp" "asio_stream R inp"
    and "8192 < length (serialize J v)" "length (serialize J v) < 2 ^ 64"
    and "send_msg S J s v = Inr s'" "outp s = []" "inp r = outp s' @ rest"
  shows "recv_msg R J r = Some (Inl (msg_too_big (of_nat (length (serialize J v)))))"
proof -
  let ?len = "of_nat (length (serialize J v)) :: u64"
  let ?hdr = "put_uint64 big (replicate 8 0) ?len"
  have "inp r = ?hdr @ bytes_of (serialize J v) @ rest"
    using send_msg_writes [OF assms(1,5)] assms(6,7) by (simp add: frame_def)
  moreover have "8192 < be_value 0 ?hdr"
    using assms(3,4) unat_extract_big [of ?hdr] by (simp add: be64.dec_enc unat_of_nat)
  ultimately show ?thesis
    using recv_msg_oversize [OF assms(2)] by (simp add: be64.dec_enc)
qed

theorem oversize_sent_then_refused_witness:
  "\<exists>s'. send_msg (net_stream 0) (std_json (\<lambda>_. replicate 9000 CHR ''x'') (\<lambda>_. Inr JNull))
      \<lparr>incoming = [], outgoing = []\<rparr> JNull = Inr s' \<and>
    recv_msg (net_stream 0) (std_json (\<lambda>_. replicate 9000 CHR ''x'') (\<lambda>_. Inr JNull))
      \<lparr>incoming = outgoing s', outgoing = []\<rparr> = Some (Inl (msg_too_big 9000))"
proof -
  let ?J = "std_json (\<lambda>_. replicate 9000 CHR ''x'') (\<lambda>_. Inr JNull)"
  let ?s = "\<lparr>incoming = [], outgoing = []\<rparr>"
  have ser: "serialize ?J JNull = replicate 9000 CHR ''x''" by (simp add: std_json_def)
  obtain s' where "send_msg (net_stream 0) ?J ?s JNull = Inr s'"
    by (auto simp: send_msg_def net_stream_def Let_def)
  then show ?thesis
    using oversize_sent_then_refused
      [OF asio_sink_net asio_stream_net, of ?J JNull 0 ?s s' "\<lparr>incoming = outgoing s', outgoing = []\<rparr>" "[]" 0]
    by (simp add: ser)
qed

lemma be_value_ge: "x * 256 ^ length ys \<le> be_value x ys"
proof (induction ys arbitrary: x)
  case (Cons a ys)
  have "x * 256 ^ length (a # ys) \<le> (256 * x + unat a) * 256 ^ length ys" by (simp add: algebra_simps)
  also have "\<dots> \<le> be_value (256 * x + unat a) ys" by (rule Cons.IH)
  finally show ?case by simp
qed simp

text \<open>
  A frame that was read in part is lost.  \<open>recv_msg\<close> reads the prefix and the payload by separate
  operations; when a cancel comes between them and the connection is read on, as \<open>visit()\<close> of the
  server does, the payload is taken for a prefix, and any text that does not begin with a zero byte
  is an oversize length.
\<close>

theorem cut_frame_misread:
  assumes "asio_stream R inp" "inp r = bytes_of str @ rest" "8 \<le> length str" "of_char (hd str) \<noteq> (0 :: byte)"
  shows "\<exists>n. recv_msg R J r = Some (Inl (msg_too_big n))"
proof -
  let ?hdr = "bytes_of (take 8 str)"
  have "inp r = ?hdr @ (bytes_of (drop 8 str) @ rest)"
    using assms(2) by (simp add: bytes_of_def flip: map_append append_assoc)
  moreover have len: "length ?hdr = 8" using assms(3) by (simp add: bytes_of_def)
  moreover have "8192 < be_value 0 ?hdr"
  proof -
    obtain a bs where b: "?hdr = a # bs" "length bs = 7" using len by (cases ?hdr) auto
    then have "a \<noteq> 0" using assms(3,4) by (cases str) (auto simp: bytes_of_def byte_of_char_def)
    then have "0 < unat a" by (simp add: unat_gt_0)
    moreover have "unat a * 256 ^ 7 \<le> be_value (unat a) bs" using be_value_ge b(2) by metis
    ultimately show ?thesis using b(1) by simp
  qed
  ultimately show ?thesis using recv_msg_oversize [OF assms(1)] by blast
qed

text \<open>
  Property C37 (round trip): a sequence of values sent one after the other over a connection
  is received one by one, complete and in order, each exactly once, and nothing
  is left over, however the network cuts the bytes, provided that the text of every value is at
  most 8192 bytes long (what happens to a longer one is \<open>oversize_sent_then_refused\<close>).
\<close>

theorem frames_arrive_in_order:
  assumes "asio_sink S outp" "asio_stream R inp"
    and "\<And>v. v \<in> set vs \<Longrightarrow> reads_back J v \<and> length (serialize J v) \<le> 8192"
    and "send_seq S J s vs = Inr s'" "outp s = []" "inp r = outp s'"
  shows "\<exists>r'. recv_seq R J r (length vs) = Some (Inr (map norm vs, r')) \<and> inp r' = []"
proof (rule recv_seq_frames [OF assms(2) assms(3)])
  show "inp r = concat (map (frame \<circ> serialize J) vs) @ []"
    using send_seq_writes [OF assms(1,4)] assms(5,6) by simp
qed

theorem frames_arrive_in_order_witness:
  "\<exists>s' r'. send_seq (net_stream 0) wide_json \<lparr>incoming = [], outgoing = []\<rparr>
        [JObject [], JObject []] = Inr s' \<and>
    recv_seq (net_stream 99) wide_json \<lparr>incoming = outgoing s', outgoing = []\<rparr> 2 =
      Some (Inr ([JObject [], JObject []], r')) \<and> incoming r' = []"
proof -
  let ?vs = "[JObject [], JObject []]"
  obtain s' where s': "send_seq (net_stream 0) wide_json \<lparr>incoming = [], outgoing = []\<rparr> ?vs = Inr s'"
    by (auto simp: send_msg_def net_stream_def Let_def)
  have len: "Suc (Suc 0) = 2" by simp
  show ?thesis
    using frames_arrive_in_order
      [OF asio_sink_net asio_stream_net _ s', of "\<lparr>incoming = outgoing s', outgoing = []\<rparr>" 99]
      s' reads_back_wide by (simp add: serialize_wide len del: recv_seq.simps send_seq.simps)
qed

end
