(* ===== verification/Waitqueue.thy ===== *)
theory Waitqueue
  imports Exceptions
begin

text \<open>
  The rendezvous queue between coroutines (\<open>include/zrp/waitqueue.hpp\<close>) and the erased
  completion handlers it stores (\<open>include/zrp/completion_handler.hpp\<close>).

  \<open>wait\<close> and \<open>provide\<close> suspend the calling coroutine and post a closure to the queue's
  executor; \<open>close\<close> raises the flag at once and posts the closure that drains the queue.
  The closures are the tasks of this model.  A handler is a name; calling it posts a
  completion, and completions are the outputs of a task, in order.
\<close>

section \<open>The queue and its tasks\<close>

record ('h, 'r) waitqueue =
  wq_q :: "'h list"
  wq_vq :: "('h \<times> 'r) list"
  wq_closed :: bool

datatype ('h, 'r) wtask = wait_task 'h | provide_task 'h 'r | close_task

text \<open>What a handler is called with: a waiter's with a value or with the error
  \<open>operation_aborted\<close>, a provider's with success or with that error.\<close>

datatype ('h, 'r) completion =
  wait_done 'h 'r | wait_aborted 'h | provide_done 'h | provide_aborted 'h

definition wq_new :: "('h, 'r) waitqueue" where
  "wq_new = \<lparr>wq_q = [], wq_vq = [], wq_closed = False\<rparr>"

definition run_wait :: "'h \<Rightarrow> ('h, 'r) waitqueue \<Rightarrow> ('h, 'r) waitqueue \<times> ('h, 'r) completion list" where
  "run_wait curr_handler w =
    (if wq_closed w then (w, [wait_aborted curr_handler])
     else
       (case wq_vq w of
         (h, r) # rest \<Rightarrow> (w\<lparr>wq_vq := rest\<rparr>, [wait_done curr_handler r, provide_done h])
       | [] \<Rightarrow> (w\<lparr>wq_q := wq_q w @ [curr_handler]\<rparr>, [])))"

definition run_provide ::
  "'h \<Rightarrow> 'r \<Rightarrow> ('h, 'r) waitqueue \<Rightarrow> ('h, 'r) waitqueue \<times> ('h, 'r) completion list" where
  "run_provide curr_handler r w =
    (if wq_closed w then (w, [provide_aborted curr_handler])
     else
       (case wq_q w of
         h # rest \<Rightarrow> (w\<lparr>wq_q := rest\<rparr>, [wait_done h r, provide_done curr_handler])
       | [] \<Rightarrow> (w\<lparr>wq_vq := wq_vq w @ [(curr_handler, r)]\<rparr>, [])))"

definition run_close :: "('h, 'r) waitqueue \<Rightarrow> ('h, 'r) waitqueue \<times> ('h, 'r) completion list" where
  "run_close w =
    (w\<lparr>wq_q := [], wq_vq := []\<rparr>,
     map wait_aborted (wq_q w) @ map (\<lambda>(h, r). provide_aborted h) (wq_vq w))"

fun run_task :: "('h, 'r) wtask \<Rightarrow> ('h, 'r) waitqueue \<Rightarrow> ('h, 'r) waitqueue \<times> ('h, 'r) completion list" where
  "run_task (wait_task h) w = run_wait h w"
| "run_task (provide_task h r) w = run_provide h r w"
| "run_task close_task w = run_close w"

text \<open>What the suspended coroutine resumes with: an error code becomes an exception.\<close>

fun completion_result :: "('h, 'r) completion \<Rightarrow> 'r option res" where
  "completion_result (wait_done h r) = Inr (Some r)"
| "completion_result (wait_aborted h) = Inl (system_error operation_aborted)"
| "completion_result (provide_done h) = Inr None"
| "completion_result (provide_aborted h) = Inl (system_error operation_aborted)"

section \<open>The queue on its executor\<close>

text \<open>
  The state of the whole: the queue, the closures posted and not yet run, and the
  completions so far.  A closure may be run in any order, so nothing rests on how the
  executor schedules them.  Two ghost fields record, in the order in which the closures
  ran while the queue was open, the waiters and the values provided.
\<close>

record ('h, 'r) wq_sys =
  sys_wq :: "('h, 'r) waitqueue"
  sys_posted :: "('h, 'r) wtask list"
  sys_done :: "('h, 'r) completion list"
  sys_waited :: "'h list"
  sys_accepted :: "'r list"

definition sys_new :: "('h, 'r) wq_sys" where
  "sys_new = \<lparr>sys_wq = wq_new, sys_posted = [], sys_done = [], sys_waited = [], sys_accepted = []\<rparr>"

text \<open>The three operations, up to the point where the caller suspends or returns.\<close>

datatype ('h, 'r) wq_op = do_wait 'h | do_provide 'h 'r | do_close

fun wq_call :: "('h, 'r) wq_op \<Rightarrow> ('h, 'r) wq_sys \<Rightarrow> ('h, 'r) wq_sys" where
  "wq_call (do_wait h) s = s\<lparr>sys_posted := sys_posted s @ [wait_task h]\<rparr>"
| "wq_call (do_provide h r) s = s\<lparr>sys_posted := sys_posted s @ [provide_task h r]\<rparr>"
| "wq_call do_close s =
     s\<lparr>sys_wq := (sys_wq s)\<lparr>wq_closed := True\<rparr>, sys_posted := sys_posted s @ [close_task]\<rparr>"

fun waits_of :: "('h, 'r) wtask \<Rightarrow> ('h, 'r) waitqueue \<Rightarrow> 'h list" where
  "waits_of (wait_task h) w = (if wq_closed w then [] else [h])"
| "waits_of _ w = []"

fun accepts_of :: "('h, 'r) wtask \<Rightarrow> ('h, 'r) waitqueue \<Rightarrow> 'r list" where
  "accepts_of (provide_task h r) w = (if wq_closed w then [] else [r])"
| "accepts_of _ w = []"

definition wq_exec :: "('h, 'r) wtask \<Rightarrow> ('h, 'r) wtask list \<Rightarrow> ('h, 'r) wq_sys \<Rightarrow> ('h, 'r) wq_sys" where
  "wq_exec t posted s =
    (let (w', cs) = run_task t (sys_wq s) in
     \<lparr>sys_wq = w', sys_posted = posted, sys_done = sys_done s @ cs,
      sys_waited = sys_waited s @ waits_of t (sys_wq s),
      sys_accepted = sys_accepted s @ accepts_of t (sys_wq s)\<rparr>)"

text \<open>The states a queue can be in after a sequence of calls.\<close>

inductive wq_run :: "('h, 'r) wq_op list \<Rightarrow> ('h, 'r) wq_sys \<Rightarrow> bool" where
  wq_start: "wq_run [] sys_new"
| wq_called: "wq_run calls s \<Longrightarrow> wq_run (calls @ [c]) (wq_call c s)"
| wq_ran: "wq_run calls s \<Longrightarrow> sys_posted s = ts1 @ t # ts2 \<Longrightarrow>
    wq_run calls (wq_exec t (ts1 @ ts2) s)"

section \<open>What the tasks do\<close>

fun task_handlers :: "('h, 'r) wtask \<Rightarrow> 'h list" where
  "task_handlers (wait_task h) = [h]"
| "task_handlers (provide_task h r) = [h]"
| "task_handlers close_task = []"

fun call_handlers :: "('h, 'r) wq_op \<Rightarrow> 'h list" where
  "call_handlers (do_wait h) = [h]"
| "call_handlers (do_provide h r) = [h]"
| "call_handlers do_close = []"

fun completed :: "('h, 'r) completion \<Rightarrow> 'h" where
  "completed (wait_done h r) = h"
| "completed (wait_aborted h) = h"
| "completed (provide_done h) = h"
| "completed (provide_aborted h) = h"

definition queued :: "('h, 'r) waitqueue \<Rightarrow> 'h list" where
  "queued w = wq_q w @ map fst (wq_vq w)"

text \<open>Who got what: the waiters that were called with a value.\<close>

fun matched :: "('h, 'r) completion list \<Rightarrow> ('h \<times> 'r) list" where
  "matched [] = []"
| "matched (wait_done h r # cs) = (h, r) # matched cs"
| "matched (_ # cs) = matched cs"

lemma matched_append [simp]: "matched (cs @ ds) = matched cs @ matched ds"
  by (induction cs rule: matched.induct) auto

lemma matched_wait_aborted [simp]: "matched (map wait_aborted hs) = []"
  by (induction hs) auto

lemma matched_provide_aborted [simp]: "matched (map (\<lambda>(h, r). provide_aborted h) vs) = []"
  by (induction vs) auto

lemmas run_defs = run_wait_def run_provide_def run_close_def

definition wq_inv :: "('h, 'r) waitqueue \<Rightarrow> bool" where
  [zrp_inv]: "wq_inv w \<longleftrightarrow> wq_q w = [] \<or> wq_vq w = []"

lemma run_task_inv: "wq_inv w \<Longrightarrow> run_task t w = (w', cs) \<Longrightarrow> wq_inv w'"
  by (cases t) (auto simp: wq_inv_def run_defs split: if_splits list.splits)

text \<open>Every handler that goes into a task comes out once: called, or stored.\<close>

lemma run_task_handlers:
  assumes "run_task t w = (w', cs)"
  shows "mset (queued w) + mset (task_handlers t) = mset (queued w') + mset (map completed cs)"
  using assms
  by (cases t) (auto simp: queued_def run_defs comp_def case_prod_unfold multiset.map_comp
      split: if_splits list.splits)

lemma run_task_closed: "run_task t w = (w', cs) \<Longrightarrow> wq_closed w' = wq_closed w"
  by (cases t) (auto simp: run_defs split: if_splits list.splits)

lemma run_task_closed_queued:
  "run_task t w = (w', cs) \<Longrightarrow> wq_closed w \<Longrightarrow> t \<noteq> close_task \<Longrightarrow> w' = w \<and> matched cs = []"
  by (cases t) (auto simp: run_defs split: if_splits list.splits)

lemma run_close_queued: "run_task close_task w = (w', cs) \<Longrightarrow> queued w' = [] \<and> matched cs = []"
  by (auto simp: queued_def run_defs)

text \<open>While the queue is open, waiters and values are paired in the order they came.\<close>

lemma run_task_pairs:
  assumes "run_task t w = (w', cs)" "wq_inv w" "\<not> wq_closed w" "t \<noteq> close_task"
  shows "wq_q w @ waits_of t w = map fst (matched cs) @ wq_q w'"
    and "map snd (wq_vq w) @ accepts_of t w = map snd (matched cs) @ map snd (wq_vq w')"
  using assms
  by (cases t; auto simp: wq_inv_def run_defs split: if_splits list.splits)+

section \<open>Invariants of the running queue\<close>

definition sys_inv :: "('h, 'r) wq_sys \<Rightarrow> bool" where
  [zrp_inv]: "sys_inv s \<longleftrightarrow>
    wq_inv (sys_wq s) \<and>
    (close_task \<in> set (sys_posted s) \<longrightarrow> wq_closed (sys_wq s)) \<and>
    (wq_closed (sys_wq s) \<longrightarrow> queued (sys_wq s) = [] \<or> close_task \<in> set (sys_posted s)) \<and>
    (\<not> wq_closed (sys_wq s) \<longrightarrow>
      sys_waited s = map fst (matched (sys_done s)) @ wq_q (sys_wq s) \<and>
      sys_accepted s = map snd (matched (sys_done s)) @ map snd (wq_vq (sys_wq s))) \<and>
    zip (sys_waited s) (sys_accepted s) = matched (sys_done s)"

lemma sys_inv_new: "sys_inv sys_new"
  by (simp add: sys_inv_def sys_new_def wq_new_def wq_inv_def queued_def)

lemma sys_inv_call: "sys_inv s \<Longrightarrow> sys_inv (wq_call c s)"
  by (cases c) (simp_all add: sys_inv_def wq_inv_def queued_def)

lemma zip_pairs:
  "q = [] \<or> vs = [] \<Longrightarrow> zip (map fst m @ q) (map snd m @ vs) = m"
  by (auto simp: zip_append1 zip_append2 zip_map_fst_snd)

lemma sys_inv_exec:
  assumes "sys_inv s" "sys_posted s = ts1 @ t # ts2"
  shows "sys_inv (wq_exec t (ts1 @ ts2) s)"
proof -
  obtain w' cs where r: "run_task t (sys_wq s) = (w', cs)" by fastforce
  note inv = assms(1) [unfolded sys_inv_def]
  have inv': "wq_inv w'" using run_task_inv [OF _ r] inv by blast
  have closed': "wq_closed w' = wq_closed (sys_wq s)" by (rule run_task_closed [OF r])
  show ?thesis
  proof (cases "wq_closed (sys_wq s)")
    case True
    have none: "waits_of t (sys_wq s) = []" "accepts_of t (sys_wq s) = []"
      using True by (cases t; simp)+
    have "matched cs = []" "queued w' = [] \<or> close_task \<in> set (ts1 @ ts2)"
      using inv assms(2) True run_task_closed_queued [OF r True] run_close_queued [of "sys_wq s" w' cs] r
      by (cases "t = close_task"; auto)+
    then show ?thesis
      using inv inv' closed' True r none by (simp add: sys_inv_def wq_exec_def)
  next
    case False
    then have t: "t \<noteq> close_task" and nc: "close_task \<notin> set (ts1 @ ts2)"
      using inv assms(2) by auto
    let ?m = "matched (sys_done s) @ matched cs"
    have w: "sys_waited s @ waits_of t (sys_wq s) = map fst ?m @ wq_q w'"
      and v: "sys_accepted s @ accepts_of t (sys_wq s) = map snd ?m @ map snd (wq_vq w')"
      using inv False run_task_pairs [OF r _ False t] by simp_all
    have "zip (sys_waited s @ waits_of t (sys_wq s)) (sys_accepted s @ accepts_of t (sys_wq s)) = ?m"
      unfolding w v using inv' by (intro zip_pairs) (auto simp: wq_inv_def)
    then show ?thesis
      using inv' closed' False r w v nc by (simp add: sys_inv_def wq_exec_def)
  qed
qed

lemma wq_run_inv: "wq_run calls s \<Longrightarrow> sys_inv s"
  by (induction rule: wq_run.induct) (simp_all add: sys_inv_new sys_inv_call sys_inv_exec)

definition handlers_in :: "('h, 'r) wq_sys \<Rightarrow> 'h multiset" where
  "handlers_in s = mset (map completed (sys_done s)) + mset (queued (sys_wq s)) +
    mset (concat (map task_handlers (sys_posted s)))"

lemma handlers_in_call: "handlers_in (wq_call c s) = handlers_in s + mset (call_handlers c)"
  by (cases c) (simp_all add: handlers_in_def queued_def)

lemma handlers_in_exec:
  assumes "sys_posted s = ts1 @ t # ts2"
  shows "handlers_in (wq_exec t (ts1 @ ts2) s) = handlers_in s"
proof -
  obtain w' cs where r: "run_task t (sys_wq s) = (w', cs)" by fastforce
  show ?thesis
    using run_task_handlers [OF r] assms by (simp add: handlers_in_def wq_exec_def r)
qed

lemma wq_run_handlers:
  "wq_run calls s \<Longrightarrow> handlers_in s = mset (concat (map call_handlers calls))"
proof (induction rule: wq_run.induct)
  case wq_start
  show ?case by (simp add: handlers_in_def sys_new_def wq_new_def queued_def)
qed (simp_all add: handlers_in_call handlers_in_exec)

lemma wq_run_closed: "wq_run calls s \<Longrightarrow> wq_closed (sys_wq s) = (do_close \<in> set calls)"
proof (induction rule: wq_run.induct)
  case wq_start
  show ?case by (simp add: sys_new_def wq_new_def)
next
  case (wq_called calls s c)
  then show ?case by (cases c) auto
next
  case (wq_ran calls s ts1 t ts2)
  obtain w' cs where "run_task t (sys_wq s) = (w', cs)" by fastforce
  with wq_ran show ?case
    using run_task_closed [of t "sys_wq s" w' cs] by (simp add: wq_exec_def)
qed

lemma wq_ran_first:
  "wq_run calls s \<Longrightarrow> sys_posted s = t # ts \<Longrightarrow> wq_run calls (wq_exec t ts s)"
  using wq_ran [of calls s "[]" t ts] by simp

lemma sys_posted_exec: "sys_posted (wq_exec t ts s) = ts"
  by (simp add: wq_exec_def split: prod.split)

lemma wq_run_drains: "wq_run calls s \<Longrightarrow> \<exists>s'. wq_run calls s' \<and> sys_posted s' = []"
proof (induction "length (sys_posted s)" arbitrary: s)
  case 0
  then show ?case by auto
next
  case (Suc n)
  then obtain t ts where posted: "sys_posted s = t # ts" by (cases "sys_posted s") auto
  show ?case
    using Suc.hyps(1) [of "wq_exec t ts s"] Suc.hyps(2) wq_ran_first [OF Suc.prems posted] posted
    by (simp add: sys_posted_exec)
qed

section \<open>The contract its users rely on\<close>

text \<open>
  A rendezvous: what the users of a queue see, over any state with a list of waiters and a
  list of values in stock.  While it is open, tasks pair waiters and values first come,
  first served; a shut one only aborts.
\<close>

locale rendezvous =
  fixes exec :: "('h, 'r) wtask \<Rightarrow> 's \<Rightarrow> 's \<times> ('h, 'r) completion list"
    and waiters :: "'s \<Rightarrow> 'h list" and stock :: "'s \<Rightarrow> 'r list"
    and shut :: "'s \<Rightarrow> bool" and good :: "'s \<Rightarrow> bool"
  assumes good_exec: "good s \<Longrightarrow> exec t s = (s', cs) \<Longrightarrow> good s'"
    and shut_exec: "exec t s = (s', cs) \<Longrightarrow> shut s' = shut s"
    and one_side: "good s \<Longrightarrow> waiters s = [] \<or> stock s = []"
    and pairs_wait: "good s \<Longrightarrow> \<not> shut s \<Longrightarrow> exec (wait_task h) s = (s', cs) \<Longrightarrow>
      waiters s @ [h] = map fst (matched cs) @ waiters s' \<and> stock s = map snd (matched cs) @ stock s'"
    and pairs_provide: "good s \<Longrightarrow> \<not> shut s \<Longrightarrow> exec (provide_task h r) s = (s', cs) \<Longrightarrow>
      waiters s = map fst (matched cs) @ waiters s' \<and> stock s @ [r] = map snd (matched cs) @ stock s'"
    and shut_aborts: "shut s \<Longrightarrow> exec t s = (s', cs) \<Longrightarrow>
      list_all (\<lambda>c. completion_result c = Inl (system_error operation_aborted)) cs"
begin

fun exec_all :: "('h, 'r) wtask list \<Rightarrow> 's \<Rightarrow> 's \<times> ('h, 'r) completion list" where
  "exec_all [] s = (s, [])"
| "exec_all (t # ts) s =
    (let (s1, cs) = exec t s; (s2, ds) = exec_all ts s1 in (s2, cs @ ds))"

fun waits :: "('h, 'r) wtask list \<Rightarrow> 'h list" where
  "waits [] = []"
| "waits (wait_task h # ts) = h # waits ts"
| "waits (_ # ts) = waits ts"

fun offers :: "('h, 'r) wtask list \<Rightarrow> 'r list" where
  "offers [] = []"
| "offers (provide_task h r # ts) = r # offers ts"
| "offers (_ # ts) = offers ts"

lemma exec_all_pairs:
  "good s \<Longrightarrow> \<not> shut s \<Longrightarrow> close_task \<notin> set ts \<Longrightarrow> exec_all ts s = (s', cs) \<Longrightarrow>
    good s' \<and> waiters s @ waits ts = map fst (matched cs) @ waiters s' \<and>
    stock s @ offers ts = map snd (matched cs) @ stock s'"
proof (induction ts arbitrary: s cs)
  case (Cons t ts)
  obtain s1 as where 1: "exec t s = (s1, as)" by fastforce
  obtain bs where 2: "exec_all ts s1 = (s', bs)" and cs: "cs = as @ bs"
    using Cons.prems(4) 1 by (auto split: prod.splits)
  have g: "good s1" "\<not> shut s1"
    using good_exec [OF Cons.prems(1) 1] shut_exec [OF 1] Cons.prems(2) by auto
  have IH: "good s' \<and> waiters s1 @ waits ts = map fst (matched bs) @ waiters s' \<and>
      stock s1 @ offers ts = map snd (matched bs) @ stock s'"
    using Cons.IH [OF g _ 2] Cons.prems(3) by simp
  show ?case
  proof (cases t)
    case (wait_task h)
    have "waiters s @ h # waits ts = (waiters s @ [h]) @ waits ts" by simp
    then show ?thesis
      using pairs_wait [OF Cons.prems(1,2) 1 [unfolded wait_task]] IH cs wait_task by simp
  next
    case (provide_task h r)
    have "stock s @ r # offers ts = (stock s @ [r]) @ offers ts" by simp
    then show ?thesis
      using pairs_provide [OF Cons.prems(1,2) 1 [unfolded provide_task]] IH cs provide_task by simp
  qed (use Cons.prems(3) in simp)
qed simp

text \<open>One consumer that waits at least as often as values are offered gets them all, in order.\<close>

lemma consumer_gets_all:
  assumes "good s" "\<not> shut s" "close_task \<notin> set ts" "exec_all ts s = (s', cs)"
    and "waiters s = []" "stock s = []" "length (offers ts) \<le> length (waits ts)"
  shows "map snd (matched cs) = offers ts"
proof -
  note pairs = exec_all_pairs [OF assms(1-4)]
  have "length (stock s') \<le> length (waiters s')"
    using pairs assms(5-7) by (metis add_le_cancel_left append_Nil length_append length_map)
  then have "stock s' = []" using one_side [of s'] pairs by fastforce
  then show ?thesis using pairs assms(6) by simp
qed

end

lemma run_task_shut:
  "wq_closed w \<Longrightarrow> run_task t w = (w', cs) \<Longrightarrow>
    list_all (\<lambda>c. completion_result c = Inl (system_error operation_aborted)) cs"
  by (cases t) (auto simp: run_defs list_all_iff)

interpretation wq: rendezvous run_task wq_q "\<lambda>w. map snd (wq_vq w)" wq_closed wq_inv
proof unfold_locales
  show "wq_inv w'" if "wq_inv w" "run_task t w = (w', cs)"
    for t :: "('a, 'b) wtask" and w w' cs
    using that by (rule run_task_inv)
next
  fix h w w' cs
  assume "wq_inv w" "\<not> wq_closed w" "run_task (wait_task h) w = (w', cs)"
  then show "wq_q w @ [h] = map fst (matched cs) @ wq_q w' \<and>
      map snd (wq_vq w) = map snd (matched cs) @ map snd (wq_vq w')"
    using run_task_pairs [of "wait_task h" w w' cs] by simp
next
  fix h r w w' cs
  assume "wq_inv w" "\<not> wq_closed w" "run_task (provide_task h r) w = (w', cs)"
  then show "wq_q w = map fst (matched cs) @ wq_q w' \<and>
      map snd (wq_vq w) @ [r] = map snd (matched cs) @ map snd (wq_vq w')"
    using run_task_pairs [of "provide_task h r" w w' cs] by simp
qed (simp_all add: run_task_closed run_task_shut wq_inv_def)

section \<open>Properties\<close>

text \<open>
  Property C14 (functional): in every state the queue can be in, whatever the order in which
  its closures ran, the waiters that were resumed with a value are the first ones
  that waited, each with the value offered in the same place, and waiters and
  values are never both left over.
\<close>

theorem waitqueue_first_come_first_served:
  assumes "wq_run calls s"
  shows "matched (sys_done s) = zip (sys_waited s) (sys_accepted s) \<and>
    (wq_q (sys_wq s) = [] \<or> wq_vq (sys_wq s) = [])"
  using wq_run_inv [OF assms] by (simp add: sys_inv_def wq_inv_def)

text \<open>The run of the witnesses: two waiters, one value, and a close while one still waits.\<close>

definition example_calls :: "(nat, string) wq_op list" where
  "example_calls = [do_wait 1, do_wait 2, do_provide 3 ''x'', do_close]"

definition example_open :: "(nat, string) wq_sys" where
  "example_open = wq_exec (provide_task 3 ''x'') [] (wq_exec (wait_task 2) [provide_task 3 ''x'']
    (wq_exec (wait_task 1) [wait_task 2, provide_task 3 ''x'']
      (wq_call (do_provide 3 ''x'') (wq_call (do_wait 2) (wq_call (do_wait 1) sys_new)))))"

definition example_closed :: "(nat, string) wq_sys" where
  "example_closed = wq_exec close_task [] (wq_call do_close example_open)"

lemmas example_defs = example_calls_def example_open_def example_closed_def sys_new_def wq_new_def
  wq_exec_def run_defs

lemma example_open_run: "wq_run [do_wait 1, do_wait 2, do_provide 3 ''x''] example_open"
proof -
  have "wq_run ((([] @ [do_wait (1::nat)]) @ [do_wait 2]) @ [do_provide 3 ''x''])
      (wq_call (do_provide 3 ''x'') (wq_call (do_wait 2) (wq_call (do_wait 1) sys_new)))"
    by (intro wq_called wq_start)
  then show ?thesis
    unfolding example_open_def
    by (intro wq_ran_first) (simp_all add: sys_new_def sys_posted_exec)
qed

lemma example_closed_run: "wq_run example_calls example_closed"
proof -
  have "wq_run ([do_wait 1, do_wait 2, do_provide 3 ''x''] @ [do_close]) (wq_call do_close example_open)"
    by (intro wq_called example_open_run)
  then show ?thesis
    unfolding example_closed_def example_calls_def
    by (intro wq_ran_first) (simp_all add: example_open_def sys_posted_exec)
qed

theorem waitqueue_first_come_first_served_witness:
  "matched (sys_done example_open) = [(1, ''x'')] \<and>
   zip (sys_waited example_open) (sys_accepted example_open) = [(1, ''x'')]"
  using waitqueue_first_come_first_served [OF example_open_run] by (simp add: example_defs)

text \<open>
  Property C30 (safety): a coroutine suspended in the queue is resumed at most once, whatever
  the calls and the order of the closures; no handler is dropped or called twice.
\<close>

theorem handlers_called_at_most_once:
  assumes "wq_run calls s" "distinct (concat (map call_handlers calls))"
  shows "distinct (map completed (sys_done s) @ queued (sys_wq s)) \<and>
    mset (map completed (sys_done s)) + mset (queued (sys_wq s)) +
      mset (concat (map task_handlers (sys_posted s))) = mset (concat (map call_handlers calls))"
proof -
  have eq: "handlers_in s = mset (concat (map call_handlers calls))"
    by (rule wq_run_handlers [OF assms(1)])
  have "mset (map completed (sys_done s) @ queued (sys_wq s) @ concat (map task_handlers (sys_posted s))) =
      mset (concat (map call_handlers calls))"
    using eq by (simp add: handlers_in_def add.assoc)
  then have "distinct (map completed (sys_done s) @ queued (sys_wq s) @ concat (map task_handlers (sys_posted s)))"
    using assms(2) by (metis mset_eq_imp_distinct_iff)
  then have "distinct (map completed (sys_done s) @ queued (sys_wq s))"
    by (simp only: append_assoc [symmetric] distinct_append [of _ "concat _"])
  then show ?thesis using eq by (simp add: handlers_in_def)
qed

theorem handlers_called_at_most_once_witness:
  "distinct (map completed (sys_done example_closed) @ queued (sys_wq example_closed)) \<and>
   map completed (sys_done example_closed) = [1, 3, 2]"
proof -
  have "distinct (concat (map call_handlers example_calls))" by (simp add: example_calls_def)
  from handlers_called_at_most_once [OF example_closed_run this] show ?thesis
    by (simp add: example_defs)
qed

text \<open>
  Property C31 (liveness): a closed queue leaves nobody waiting.  Once \<open>close\<close> was called the
  posted closures can be run to the end, and when they are, every coroutine that
  ever suspended in the queue has been resumed exactly once.
\<close>

theorem closed_queue_resumes_everyone:
  assumes "wq_run calls s" "do_close \<in> set calls"
  shows "(\<exists>s'. wq_run calls s' \<and> sys_posted s' = []) \<and>
    (sys_posted s = [] \<longrightarrow>
      mset (map completed (sys_done s)) = mset (concat (map call_handlers calls)))"
proof (intro conjI impI)
  show "\<exists>s'. wq_run calls s' \<and> sys_posted s' = []" by (rule wq_run_drains [OF assms(1)])
  assume posted: "sys_posted s = []"
  have "queued (sys_wq s) = []"
    using wq_run_inv [OF assms(1)] wq_run_closed [OF assms(1)] assms(2) posted
    by (simp add: sys_inv_def)
  then show "mset (map completed (sys_done s)) = mset (concat (map call_handlers calls))"
    using wq_run_handlers [OF assms(1)] posted by (simp add: handlers_in_def)
qed

theorem closed_queue_resumes_everyone_witness:
  "sys_posted example_closed = [] \<and>
   mset (map completed (sys_done example_closed)) = mset (concat (map call_handlers example_calls))"
proof -
  have "do_close \<in> set example_calls" by (simp add: example_calls_def)
  from closed_queue_resumes_everyone [OF example_closed_run this] show ?thesis
    by (simp add: example_closed_def sys_posted_exec)
qed

text \<open>
  Once the queue is closed no value changes hands: whichever closure
  runs, every handler it calls is called with \<open>operation_aborted\<close>, and the queue
  stays closed.
\<close>

theorem closed_queue_only_aborts:
  assumes "wq_closed w" "run_task t w = (w', cs)"
  shows "list_all (\<lambda>c. completion_result c = Inl (system_error operation_aborted)) cs \<and> wq_closed w'"
  using wq.shut_aborts [OF assms] wq.shut_exec [OF assms(2)] assms(1) by simp

theorem closed_queue_only_aborts_witness:
  "wq_closed (\<lparr>wq_q = [1], wq_vq = [], wq_closed = True\<rparr> :: (nat, string) waitqueue) \<and>
   list_all (\<lambda>c. completion_result c = Inl (system_error operation_aborted))
     (snd (run_task close_task (\<lparr>wq_q = [1], wq_vq = [], wq_closed = True\<rparr> :: (nat, string) waitqueue)))"
  using closed_queue_only_aborts
    [of "\<lparr>wq_q = [1], wq_vq = [], wq_closed = True\<rparr> :: (nat, string) waitqueue" close_task]
  by (simp add: run_defs)

end
