(* ===== verification/Lifecycle.thy ===== *)
theory Lifecycle
  imports Exceptions
begin

text \<open>
  The stop protocol that every long-lived object of the program follows: \<open>try_stop\<close>
  raises \<open>stopping_\<close> and releases what the object waits on, and every coroutine ends in
  \<open>handle_error\<close>, which calls \<open>try_stop\<close> for the first error and only logs the ones that
  the stop itself provokes.  Some objects are \<open>detached\<close> at a point (a worker that is
  being visited, a connection that was handed over): from there their errors are ignored.

  The contract is stated over the two operations, so the lemmas here hold of the
  pipes, workers, controllers and connections that interpret it.
\<close>

text \<open>A socket member of an object: usable, closed, or moved out to somebody else.\<close>

datatype socket = sock_open | sock_closed | sock_moved

text \<open>\<open>EBADF\<close>, which Asio reports for an operation on a socket that is not open.\<close>

definition bad_descriptor :: exn where
  "bad_descriptor = system_error (ec_other 9)"

text \<open>
  How a wait on a \<open>steady_timer\<close> may end, given whether the timer was changed or cancelled since the wait
  began and its expiry, \<open>None\<close> for \<open>time_point::max()\<close>.  A wait that nobody touches and that has no
  expiry does not end, and it is aborted only by a change or a cancel.
\<close>

definition wait_may_end :: "bool \<Rightarrow> nat option \<Rightarrow> unit res \<Rightarrow> bool" where
  "wait_may_end cancelled expiry r \<longleftrightarrow> (cancelled \<or> expiry \<noteq> None) \<and>
    (r = Inl (system_error operation_aborted) \<longrightarrow> cancelled)"

lemma wait_ends [simp]: "cancelled \<Longrightarrow> wait_may_end cancelled expiry r"
  by (simp add: wait_may_end_def)

lemma wait_expires [simp]: "wait_may_end cancelled (Some expiry) (Inr ())"
  by (simp add: wait_may_end_def)

lemma wait_endless [simp]: "\<not> wait_may_end False None r"
  by (simp add: wait_may_end_def)

locale stoppable =
  fixes try_stop :: "'s \<Rightarrow> 's"
    and handle_error :: "exn \<Rightarrow> 's \<Rightarrow> 's"
    and stopping :: "'s \<Rightarrow> bool"
    and detached :: "'s \<Rightarrow> bool"
  assumes stop_sets: "stopping (try_stop s)"
    and stop_detached: "detached (try_stop s) = detached s"
    and error_first: "\<not> detached s \<Longrightarrow> \<not> stopping s \<Longrightarrow> handle_error e s = try_stop s"
    and error_later: "detached s \<or> stopping s \<Longrightarrow> handle_error e s = s"
begin

fun handle_errors :: "exn list \<Rightarrow> 's \<Rightarrow> 's" where
  "handle_errors [] s = s"
| "handle_errors (e # es) s = handle_errors es (handle_error e s)"

lemma handle_errors_quiet: "detached s \<or> stopping s \<Longrightarrow> handle_errors es s = s"
  by (induction es) (auto simp: error_later)

text \<open>However many coroutines fail, the object is stopped exactly once.\<close>

lemma stopped_once:
  "handle_errors (e # es) s = (if detached s \<or> stopping s then s else try_stop s)"
  using handle_errors_quiet [of "try_stop s" es] handle_errors_quiet [of s es]
  by (auto simp: error_first error_later stop_sets)

lemma error_after_stop: "handle_error e (try_stop s) = try_stop s"
  by (simp add: error_later stop_sets)

lemma error_detached: "detached (handle_error e s) = detached s"
  by (cases "detached s \<or> stopping s") (simp_all add: error_later error_first stop_detached)

lemma error_idem: "handle_error e (handle_error e' s) = handle_error e' s"
  by (cases "detached s \<or> stopping s") (simp_all add: error_later error_first stop_sets)

end

end
