(* ===== verification/Server_Worker.thy ===== *)
theory Server_Worker
  imports Messages Waitqueue Lifecycle
begin

text \<open>
  The server's end of a worker connection (\<open>tcp_share_worker\<close> of
  \<open>include/zrp/server.hpp\<close>): four coroutines over one socket and one queue of messages to
  send.  \<open>recv_msgs\<close> answers pings, \<open>send_msgs\<close> writes what is queued, \<open>ddl_actor\<close> watches
  the deadline, and \<open>visit\<close>, started by the forwarder, takes the connection over for a user.

  A coroutine is the point where it is suspended.  A step is one event of the executor:
  a socket operation completes, a closure of the queue runs, a handler that the queue
  called resumes its coroutine, the timer fires, the forwarder visits, the share stops.
  What the socket and the timer answer is chosen by the environment; that an operation is
  aborted requires that the program cancelled it, and the wait for a timer ends only as
  \<open>wait_may_end\<close> says.  Time is in seconds and is an argument of the step.  Logging is left out.
\<close>

section \<open>State\<close>

text \<open>The names of the handlers that wait in \<open>to_send_\<close>, one per coroutine.\<close>

datatype coro = c_recv | c_send | c_visit

datatype recv_pc = recv_reading | recv_replying | recv_done
datatype send_pc = send_waiting | send_writing json | send_done
datatype ddl_pc = ddl_waiting | ddl_done
datatype visit_pc =
  visit_none | visit_providing | visit_reading | visit_returned | visit_failed exn

text \<open>
  \<open>w_posted\<close> and \<open>w_ready\<close> are the closures of the queue that were posted and the handlers it
  called, not yet run; \<open>w_cancelled\<close> the coroutines whose pending socket operation was
  cancelled; \<open>w_ddl_cancelled\<close> whether the wait of \<open>ddl_actor\<close> was, which every change of the
  expiry does; \<open>w_sent\<close> the messages handed to \<open>send_msg\<close>.  A deadline of \<open>None\<close> is
  \<open>time_point::max()\<close>.
\<close>

record worker =
  w_sock :: socket
  w_visited :: bool
  w_visited_confirmed :: bool
  w_id :: cint
  w_to_send :: "(coro, json) waitqueue"
  w_share :: nat
  w_stopping :: bool
  w_ddl :: "nat option"
  w_ddl_action :: string
  w_ddl_cancelled :: bool
  w_recv :: recv_pc
  w_send :: send_pc
  w_ddl_pc :: ddl_pc
  w_visit :: visit_pc
  w_posted :: "(coro, json) wtask list"
  w_ready :: "(coro, json) completion list"
  w_cancelled :: "coro set"
  w_sent :: "json list"

section \<open>Operations\<close>

definition worker_post :: "(coro, json) wtask \<Rightarrow> worker \<Rightarrow> worker" where
  "worker_post t w = w\<lparr>w_posted := w_posted w @ [t]\<rparr>"

text \<open>\<open>to_send_.close()\<close>.\<close>

definition worker_close_queue :: "worker \<Rightarrow> worker" where
  "worker_close_queue w =
    worker_post close_task (w\<lparr>w_to_send := (w_to_send w)\<lparr>wq_closed := True\<rparr>\<rparr>)"

text \<open>The socket operations in flight, which \<open>close()\<close> and \<open>cancel()\<close> abort.\<close>

definition worker_in_flight :: "worker \<Rightarrow> coro set" where
  "worker_in_flight w =
    (if w_recv w = recv_reading then {c_recv} else {}) \<union>
    (case w_send w of send_writing m \<Rightarrow> {c_send} | _ \<Rightarrow> {}) \<union>
    (if w_visit w = visit_reading then {c_visit} else {})"

definition worker_cancel_socket :: "worker \<Rightarrow> worker" where
  "worker_cancel_socket w = w\<lparr>w_cancelled := worker_in_flight w\<rparr>"

definition worker_close_socket :: "worker \<Rightarrow> worker" where
  "worker_close_socket w = (worker_cancel_socket w)\<lparr>w_sock := sock_closed\<rparr>"

definition worker_set_ddl :: "string \<Rightarrow> nat \<Rightarrow> nat \<Rightarrow> worker \<Rightarrow> worker" where
  "worker_set_ddl action after now w = 
    w\<lparr>w_ddl := Some (now + after), w_ddl_action := action, w_ddl_cancelled := True\<rparr>"

definition worker_cancel_ddl :: "worker \<Rightarrow> worker" where
  "worker_cancel_ddl w = w\<lparr>w_ddl := None, w_ddl_cancelled := True\<rparr>"

definition worker_try_stop :: "worker \<Rightarrow> worker" where
  "worker_try_stop w =
    (let w = w\<lparr>w_stopping := True\<rparr> in
     if w_visited w then w
     else worker_cancel_ddl (worker_close_socket (worker_close_queue w)))"

definition worker_handle_error :: "exn \<Rightarrow> worker \<Rightarrow> worker" where
  "worker_handle_error e w =
    (if w_visited w then w
     else if \<not> w_stopping w then worker_try_stop w
     else w)"

text \<open>The head of the loop of \<open>recv_msgs\<close>, up to its suspension in \<open>recv_msg\<close>.\<close>

definition worker_recv_loop :: "nat \<Rightarrow> worker \<Rightarrow> worker" where
  "worker_recv_loop now w =
    (worker_set_ddl ''recv_msgs()'' 60 now w)
      \<lparr>w_recv := recv_reading, w_cancelled := w_cancelled w - {c_recv}\<rparr>"

definition worker_send_loop :: "worker \<Rightarrow> worker" where
  "worker_send_loop w = (worker_post (wait_task c_send) w)\<lparr>w_send := send_waiting\<rparr>"

text \<open>The constructor; the socket is the one of the connection that said hello, which may be closed.\<close>

definition worker_new :: "socket \<Rightarrow> cint \<Rightarrow> nat \<Rightarrow> worker" where
  "worker_new s i share =
    \<lparr>w_sock = s, w_visited = False, w_visited_confirmed = False, w_id = i,
     w_to_send = wq_new, w_share = share, w_stopping = False, w_ddl = None, w_ddl_action = '''',
     w_ddl_cancelled = False,
     w_recv = recv_done, w_send = send_done, w_ddl_pc = ddl_done, w_visit = visit_none,
     w_posted = [], w_ready = [], w_cancelled = {}, w_sent = []\<rparr>"

text \<open>\<open>run()\<close> spawns \<open>recv_msgs\<close>, \<open>send_msgs\<close> and \<open>ddl_actor\<close>, which run to their first suspension.\<close>

definition worker_run :: "nat \<Rightarrow> worker \<Rightarrow> worker" where
  "worker_run now w =
    (worker_send_loop (worker_recv_loop now (worker_cancel_ddl w)))
      \<lparr>w_ddl_pc := ddl_waiting, w_ddl_cancelled := False\<rparr>"

text \<open>\<open>recv_msgs\<close> after \<open>recv_msg\<close>: unmarshal, and \<open>handle_msg(ping)\<close> provides a pong.\<close>

definition worker_on_read :: "json_lib \<Rightarrow> json res \<Rightarrow> worker \<Rightarrow> worker" where
  "worker_on_read J r w =
    (case ebind r (\<lambda>jv. ebind (unmarshal_msg J [T_ping] jv) (\<lambda>m. marshal_msg J M_pong)) of
      Inl e \<Rightarrow> (worker_handle_error e w)\<lparr>w_recv := recv_done\<rparr>
    | Inr pong \<Rightarrow> (worker_post (provide_task c_recv pong) w)\<lparr>w_recv := recv_replying\<rparr>)"

text \<open>\<open>send_msgs\<close> after \<open>send_msg\<close>.\<close>

definition worker_on_write :: "unit res \<Rightarrow> worker \<Rightarrow> worker" where
  "worker_on_write r w =
    (case r of
      Inl e \<Rightarrow> (worker_handle_error e w)\<lparr>w_send := send_done\<rparr>
    | Inr _ \<Rightarrow> worker_send_loop w)"

text \<open>\<open>ddl_actor\<close> waits again, and what it does after \<open>async_wait\<close>.\<close>

definition worker_ddl_wait :: "worker \<Rightarrow> worker" where
  [simp]: "worker_ddl_wait w = w\<lparr>w_ddl_cancelled := False\<rparr>"

definition worker_ddl_check :: "nat \<Rightarrow> worker \<Rightarrow> worker" where
  "worker_ddl_check now w =
    (if w_stopping w \<or> w_visited_confirmed w then w\<lparr>w_ddl_pc := ddl_done\<rparr>
     else
       (case w_ddl w of
         Some expiry \<Rightarrow>
           if expiry \<le> now then (worker_try_stop w)\<lparr>w_ddl_pc := ddl_done\<rparr>
           else worker_ddl_wait w
       | None \<Rightarrow> worker_ddl_wait w))"

definition worker_on_timer :: "nat \<Rightarrow> unit res \<Rightarrow> worker \<Rightarrow> worker" where
  "worker_on_timer now r w =
    (case r of
      Inl e \<Rightarrow>
        if e \<noteq> system_error operation_aborted
        then (worker_handle_error e w)\<lparr>w_ddl_pc := ddl_done\<rparr>
        else worker_ddl_check now w
    | Inr _ \<Rightarrow> worker_ddl_check now w)"

text \<open>
  \<open>visit\<close> up to \<open>to_send_.provide\<close>; \<open>c\<close> is what \<open>s_.cancel()\<close> does to an open socket, on a closed
  one it throws; \<open>epoch\<close> is the clock in microseconds.
\<close>

definition worker_visit :: "json_lib \<Rightarrow> nat \<Rightarrow> unit res \<Rightarrow> u64 \<Rightarrow> tcp_endpoint \<Rightarrow> worker \<Rightarrow> worker" where
  "worker_visit J now c epoch ep w =
    (let w = w\<lparr>w_visited := True\<rparr> in
     case (if w_sock w = sock_open then c else Inl bad_descriptor) of
       Inl e \<Rightarrow> w\<lparr>w_visit := visit_failed e\<rparr>
     | Inr _ \<Rightarrow>
         (let w = worker_set_ddl ''visit()'' 20 now (worker_cancel_socket w) in
          case marshal_msg J (M_visit_tcp_share \<lparr>vt_epoch = epoch, vt_peer = ep\<rparr>) of
            Inl e \<Rightarrow> w\<lparr>w_visit := visit_failed e\<rparr>
          | Inr v \<Rightarrow> (worker_post (provide_task c_visit v) w)\<lparr>w_visit := visit_providing\<rparr>))"

text \<open>The rest of \<open>visit\<close> after each \<open>recv_msg\<close>: skip pings, then hand the socket out.\<close>

definition worker_on_visit_read :: "json_lib \<Rightarrow> json res \<Rightarrow> worker \<Rightarrow> worker" where
  "worker_on_visit_read J r w =
    (case ebind r (unmarshal_msg J [T_ping, T_visit_confirmed]) of
      Inl e \<Rightarrow> w\<lparr>w_visit := visit_failed e\<rparr>
    | Inr m \<Rightarrow>
        if m = M_ping then w\<lparr>w_cancelled := w_cancelled w - {c_visit}\<rparr>
        else (worker_cancel_ddl (w\<lparr>w_visited_confirmed := True\<rparr>))
               \<lparr>w_visit := visit_returned, w_sock := sock_moved\<rparr>)"

text \<open>A handler that the queue called resumes its coroutine.\<close>

fun worker_resume :: "nat \<Rightarrow> (coro, json) completion \<Rightarrow> worker \<Rightarrow> worker" where
  "worker_resume now (wait_done h m) w =
     w\<lparr>w_send := send_writing m, w_sent := w_sent w @ [m], w_cancelled := w_cancelled w - {c_send}\<rparr>"
| "worker_resume now (wait_aborted h) w =
     (worker_handle_error (system_error operation_aborted) w)\<lparr>w_send := send_done\<rparr>"
| "worker_resume now (provide_done h) w =
     (if h = c_visit
      then (worker_close_queue w)\<lparr>w_visit := visit_reading, w_cancelled := w_cancelled w - {c_visit}\<rparr>
      else worker_recv_loop now w)"
| "worker_resume now (provide_aborted h) w =
     (if h = c_visit then w\<lparr>w_visit := visit_failed (system_error operation_aborted)\<rparr>
      else (worker_handle_error (system_error operation_aborted) w)\<lparr>w_recv := recv_done\<rparr>)"

definition worker_run_closure :: "nat \<Rightarrow> worker \<Rightarrow> worker" where
  "worker_run_closure i w =
    (let (q', cs) = run_task (w_posted w ! i) (w_to_send w) in
     w\<lparr>w_to_send := q', w_posted := remove_nth i (w_posted w),
       w_ready := w_ready w @ cs\<rparr>)"

section \<open>Steps\<close>

datatype worker_event =
  ev_read "json res"
| ev_write "unit res"
| ev_visit_read "json res"
| ev_timer "unit res"
| ev_closure nat
| ev_resume nat
| ev_visit "unit res" u64 tcp_endpoint
| ev_stop

text \<open>
  An operation ends in \<open>operation_aborted\<close> only if it was cancelled, and on a closed socket it succeeds
  only if it was in flight when the socket was closed, and had succeeded already.
\<close>

definition may_end :: "coro \<Rightarrow> 'a res \<Rightarrow> worker \<Rightarrow> bool" where
  "may_end c r w \<longleftrightarrow> (r = Inl (system_error operation_aborted) \<longrightarrow> c \<in> w_cancelled w) \<and>
    (\<not> isl r \<and> w_sock w = sock_closed \<longrightarrow> c \<in> w_cancelled w)"

text \<open>\<open>None\<close>: the event cannot happen in this state.\<close>

fun worker_step :: "json_lib \<Rightarrow> nat \<Rightarrow> worker_event \<Rightarrow> worker \<Rightarrow> worker option" where
  "worker_step J now (ev_read r) w =
     (if w_recv w = recv_reading \<and> may_end c_recv r w then Some (worker_on_read J r w) else None)"
| "worker_step J now (ev_write r) w =
     (case w_send w of
       send_writing m \<Rightarrow> if may_end c_send r w then Some (worker_on_write r w) else None
     | _ \<Rightarrow> None)"
| "worker_step J now (ev_visit_read r) w =
     (if w_visit w = visit_reading \<and> may_end c_visit r w
      then Some (worker_on_visit_read J r w) else None)"
| "worker_step J now (ev_timer r) w =
     (if w_ddl_pc w = ddl_waiting \<and> wait_may_end (w_ddl_cancelled w) (w_ddl w) r then Some (worker_on_timer now r w) else None)"
| "worker_step J now (ev_closure i) w =
     (if i < length (w_posted w) then Some (worker_run_closure i w) else None)"
| "worker_step J now (ev_resume i) w =
     (if i < length (w_ready w)
      then Some (worker_resume now (w_ready w ! i)
             (w\<lparr>w_ready := remove_nth i (w_ready w)\<rparr>))
      else None)"
| "worker_step J now (ev_visit c epoch ep) w =
     (if w_visit w = visit_none then Some (worker_visit J now c epoch ep w) else None)"
| "worker_step J now ev_stop w = Some (worker_try_stop w)"

fun worker_steps :: "json_lib \<Rightarrow> (nat \<times> worker_event) list \<Rightarrow> worker \<Rightarrow> worker option" where
  "worker_steps J [] w = Some w"
| "worker_steps J ((now, ev) # evs) w =
     (case worker_step J now ev w of None \<Rightarrow> None | Some w' \<Rightarrow> worker_steps J evs w')"

text \<open>The states of a worker from its creation on; its socket is open then, or was closed before.\<close>

definition worker_reachable :: "json_lib \<Rightarrow> worker \<Rightarrow> bool" where
  "worker_reachable J w \<longleftrightarrow>
    (\<exists>s i share t0 evs. s \<noteq> sock_moved \<and> worker_steps J evs (worker_run t0 (worker_new s i share)) = Some w)"

section \<open>Invariant\<close>

text \<open>The coroutines that are suspended in the queue, and where the queue keeps their handlers.\<close>

definition worker_suspended :: "worker \<Rightarrow> coro multiset" where
  "worker_suspended w =
    (if w_send w = send_waiting then {#c_send#} else {#}) +
    (if w_recv w = recv_replying then {#c_recv#} else {#}) +
    (if w_visit w = visit_providing then {#c_visit#} else {#})"

definition worker_handlers :: "worker \<Rightarrow> coro multiset" where
  "worker_handlers w = mset (queued (w_to_send w)) +
    mset (concat (map task_handlers (w_posted w))) + mset (map completed (w_ready w))"

text \<open>Only \<open>send_msgs\<close> waits in the queue; the others provide.\<close>

fun task_ok :: "(coro, json) wtask \<Rightarrow> bool" where
  "task_ok (wait_task h) \<longleftrightarrow> h = c_send"
| "task_ok (provide_task h m) \<longleftrightarrow> h \<noteq> c_send"
| "task_ok close_task \<longleftrightarrow> True"

fun completion_ok :: "(coro, json) completion \<Rightarrow> bool" where
  "completion_ok (wait_done h m) \<longleftrightarrow> h = c_send"
| "completion_ok (wait_aborted h) \<longleftrightarrow> h = c_send"
| "completion_ok (provide_done h) \<longleftrightarrow> h \<noteq> c_send"
| "completion_ok (provide_aborted h) \<longleftrightarrow> h \<noteq> c_send"

definition queue_ok :: "(coro, json) waitqueue \<Rightarrow> bool" where
  "queue_ok q \<longleftrightarrow> wq_inv q \<and> (\<forall>h\<in>set (wq_q q). h = c_send) \<and>
    (\<forall>h\<in>set (map fst (wq_vq q)). h \<noteq> c_send)"

definition worker_queue_ok :: "worker \<Rightarrow> bool" where
  [zrp_inv]: "worker_queue_ok w \<longleftrightarrow>
    queue_ok (w_to_send w) \<and> list_all task_ok (w_posted w) \<and> list_all completion_ok (w_ready w) \<and>
    (close_task \<in> set (w_posted w) \<longrightarrow> wq_closed (w_to_send w)) \<and>
    (wq_closed (w_to_send w) \<longrightarrow>
      queued (w_to_send w) = [] \<or> close_task \<in> set (w_posted w))"

definition worker_queue_inv :: "worker \<Rightarrow> bool" where
  [zrp_inv]: "worker_queue_inv w \<longleftrightarrow> worker_handlers w = worker_suspended w \<and> worker_queue_ok w"

definition worker_flag_inv :: "worker \<Rightarrow> bool" where
  [zrp_inv]: "worker_flag_inv w \<longleftrightarrow>
    (w_visited w \<longleftrightarrow> w_visit w \<noteq> visit_none) \<and>
    (w_visited_confirmed w \<longleftrightarrow> w_visit w = visit_returned) \<and>
    (w_sock w = sock_moved \<longleftrightarrow> w_visit w = visit_returned) \<and>
    (w_visit w = visit_reading \<or> w_visit w = visit_returned \<longrightarrow> wq_closed (w_to_send w)) \<and>
    c_visit \<notin> w_cancelled w \<and>
    (w_stopping w \<and> \<not> w_visited w \<longrightarrow> w_sock w = sock_closed \<and> wq_closed (w_to_send w) \<and>
      (w_ddl_pc w = ddl_waiting \<longrightarrow> w_ddl_cancelled w)) \<and>
    (w_sock w = sock_closed \<longrightarrow> w_visit w = visit_none \<or> (\<exists>e. w_visit w = visit_failed e))"

lemma run_task_queue_ok:
  assumes "queue_ok q" "task_ok t" "run_task t q = (q', cs)"
  shows "queue_ok q' \<and> list_all completion_ok cs"
  using assms run_task_inv [of q t q' cs]
  by (cases t) (fastforce simp: queue_ok_def run_defs list_all_iff split: if_splits list.splits)+

lemma run_task_closed_done:
  assumes "run_task t q = (q', cs)" "wq_closed q"
  shows "provide_done h \<notin> set cs"
  using assms by (cases t) (auto simp: run_defs)

text \<open>What the small operations change of it.\<close>

lemma worker_handlers_upd [simp]:
  "worker_handlers (w\<lparr>w_sock := a\<rparr>) = worker_handlers w"
  "worker_handlers (w\<lparr>w_visited := b\<rparr>) = worker_handlers w"
  "worker_handlers (w\<lparr>w_visited_confirmed := b\<rparr>) = worker_handlers w"
  "worker_handlers (w\<lparr>w_stopping := b\<rparr>) = worker_handlers w"
  "worker_handlers (w\<lparr>w_ddl := c\<rparr>) = worker_handlers w"
  "worker_handlers (w\<lparr>w_ddl_action := d\<rparr>) = worker_handlers w"
  "worker_handlers (w\<lparr>w_ddl_cancelled := b\<rparr>) = worker_handlers w"
  "worker_handlers (w\<lparr>w_recv := e\<rparr>) = worker_handlers w"
  "worker_handlers (w\<lparr>w_send := f\<rparr>) = worker_handlers w"
  "worker_handlers (w\<lparr>w_ddl_pc := g\<rparr>) = worker_handlers w"
  "worker_handlers (w\<lparr>w_visit := h\<rparr>) = worker_handlers w"
  "worker_handlers (w\<lparr>w_cancelled := i\<rparr>) = worker_handlers w"
  "worker_handlers (w\<lparr>w_sent := j\<rparr>) = worker_handlers w"
  by (simp_all add: worker_handlers_def)

lemma worker_queue_ok_upd [simp]:
  "worker_queue_ok (w\<lparr>w_sock := a\<rparr>) = worker_queue_ok w"
  "worker_queue_ok (w\<lparr>w_visited := b\<rparr>) = worker_queue_ok w"
  "worker_queue_ok (w\<lparr>w_visited_confirmed := b\<rparr>) = worker_queue_ok w"
  "worker_queue_ok (w\<lparr>w_stopping := b\<rparr>) = worker_queue_ok w"
  "worker_queue_ok (w\<lparr>w_ddl := c\<rparr>) = worker_queue_ok w"
  "worker_queue_ok (w\<lparr>w_ddl_action := d\<rparr>) = worker_queue_ok w"
  "worker_queue_ok (w\<lparr>w_ddl_cancelled := b\<rparr>) = worker_queue_ok w"
  "worker_queue_ok (w\<lparr>w_recv := e\<rparr>) = worker_queue_ok w"
  "worker_queue_ok (w\<lparr>w_send := f\<rparr>) = worker_queue_ok w"
  "worker_queue_ok (w\<lparr>w_ddl_pc := g\<rparr>) = worker_queue_ok w"
  "worker_queue_ok (w\<lparr>w_visit := h\<rparr>) = worker_queue_ok w"
  "worker_queue_ok (w\<lparr>w_cancelled := i\<rparr>) = worker_queue_ok w"
  "worker_queue_ok (w\<lparr>w_sent := j\<rparr>) = worker_queue_ok w"
  by (simp_all add: worker_queue_ok_def)

lemma worker_suspended_upd [simp]:
  "worker_suspended (w\<lparr>w_sock := a\<rparr>) = worker_suspended w"
  "worker_suspended (w\<lparr>w_visited := b\<rparr>) = worker_suspended w"
  "worker_suspended (w\<lparr>w_visited_confirmed := b\<rparr>) = worker_suspended w"
  "worker_suspended (w\<lparr>w_stopping := b\<rparr>) = worker_suspended w"
  "worker_suspended (w\<lparr>w_ddl := c\<rparr>) = worker_suspended w"
  "worker_suspended (w\<lparr>w_ddl_action := d\<rparr>) = worker_suspended w"
  "worker_suspended (w\<lparr>w_ddl_cancelled := b\<rparr>) = worker_suspended w"
  "worker_suspended (w\<lparr>w_ddl_pc := g\<rparr>) = worker_suspended w"
  "worker_suspended (w\<lparr>w_cancelled := i\<rparr>) = worker_suspended w"
  "worker_suspended (w\<lparr>w_sent := j\<rparr>) = worker_suspended w"
  "worker_suspended (w\<lparr>w_to_send := k\<rparr>) = worker_suspended w"
  "worker_suspended (w\<lparr>w_posted := l\<rparr>) = worker_suspended w"
  "worker_suspended (w\<lparr>w_ready := m\<rparr>) = worker_suspended w"
  by (simp_all add: worker_suspended_def)

lemma worker_post_props [simp]:
  "worker_handlers (worker_post t w) = worker_handlers w + mset (task_handlers t)"
  "worker_suspended (worker_post t w) = worker_suspended w"
  "w_recv (worker_post t w) = w_recv w" "w_send (worker_post t w) = w_send w"
  "w_visit (worker_post t w) = w_visit w"
  "t \<noteq> close_task \<Longrightarrow> worker_queue_ok (worker_post t w) \<longleftrightarrow> worker_queue_ok w \<and> task_ok t"
  by (auto simp: worker_post_def worker_handlers_def worker_suspended_def worker_queue_ok_def)

lemma worker_close_queue_props [simp]:
  "worker_handlers (worker_close_queue w) = worker_handlers w"
  "worker_suspended (worker_close_queue w) = worker_suspended w"
  "w_recv (worker_close_queue w) = w_recv w" "w_send (worker_close_queue w) = w_send w"
  "w_visit (worker_close_queue w) = w_visit w"
  "worker_queue_ok w \<Longrightarrow> worker_queue_ok (worker_close_queue w)"
  by (simp_all add: worker_close_queue_def worker_post_def worker_handlers_def worker_suspended_def
      worker_queue_ok_def queue_ok_def queued_def wq_inv_def)

lemma worker_try_stop_props [simp]:
  "worker_handlers (worker_try_stop w) = worker_handlers w"
  "worker_suspended (worker_try_stop w) = worker_suspended w"
  "worker_queue_ok w \<Longrightarrow> worker_queue_ok (worker_try_stop w)"
  "w_recv (worker_try_stop w) = w_recv w"
  "w_send (worker_try_stop w) = w_send w"
  "w_visit (worker_try_stop w) = w_visit w"
  by (simp_all add: worker_try_stop_def worker_cancel_ddl_def worker_close_socket_def worker_cancel_socket_def
      Let_def)

lemma worker_handle_error_props [simp]:
  "worker_handlers (worker_handle_error e w) = worker_handlers w"
  "worker_suspended (worker_handle_error e w) = worker_suspended w"
  "worker_queue_ok w \<Longrightarrow> worker_queue_ok (worker_handle_error e w)"
  "w_recv (worker_handle_error e w) = w_recv w"
  "w_send (worker_handle_error e w) = w_send w"
  "w_visit (worker_handle_error e w) = w_visit w"
  by (simp_all add: worker_handle_error_def)

text \<open>A coroutine leaves the queue, or enters it.\<close>

lemma suspended_leave:
  "w_send w = send_waiting \<Longrightarrow> s \<noteq> send_waiting \<Longrightarrow>
    worker_suspended (w\<lparr>w_send := s\<rparr>) = worker_suspended w - {#c_send#}"
  "w_recv w = recv_replying \<Longrightarrow> r \<noteq> recv_replying \<Longrightarrow>
    worker_suspended (w\<lparr>w_recv := r\<rparr>) = worker_suspended w - {#c_recv#}"
  "w_visit w = visit_providing \<Longrightarrow> v \<noteq> visit_providing \<Longrightarrow>
    worker_suspended (w\<lparr>w_visit := v\<rparr>) = worker_suspended w - {#c_visit#}"
  by (simp_all add: worker_suspended_def)

lemma suspended_enter:
  "w_send w \<noteq> send_waiting \<Longrightarrow>
    worker_suspended (w\<lparr>w_send := send_waiting\<rparr>) = add_mset c_send (worker_suspended w)"
  "w_recv w \<noteq> recv_replying \<Longrightarrow>
    worker_suspended (w\<lparr>w_recv := recv_replying\<rparr>) = add_mset c_recv (worker_suspended w)"
  "w_visit w \<noteq> visit_providing \<Longrightarrow>
    worker_suspended (w\<lparr>w_visit := visit_providing\<rparr>) = add_mset c_visit (worker_suspended w)"
  by (simp_all add: worker_suspended_def)

lemma suspended_stay:
  "w_send w \<noteq> send_waiting \<Longrightarrow> s \<noteq> send_waiting \<Longrightarrow>
    worker_suspended (w\<lparr>w_send := s\<rparr>) = worker_suspended w"
  "w_recv w \<noteq> recv_replying \<Longrightarrow> r \<noteq> recv_replying \<Longrightarrow>
    worker_suspended (w\<lparr>w_recv := r\<rparr>) = worker_suspended w"
  "w_visit w \<noteq> visit_providing \<Longrightarrow> v \<noteq> visit_providing \<Longrightarrow>
    worker_suspended (w\<lparr>w_visit := v\<rparr>) = worker_suspended w"
  by (simp_all add: worker_suspended_def)

lemma suspended_iff [simp]:
  "c_send \<in># worker_suspended w \<longleftrightarrow> w_send w = send_waiting"
  "c_recv \<in># worker_suspended w \<longleftrightarrow> w_recv w = recv_replying"
  "c_visit \<in># worker_suspended w \<longleftrightarrow> w_visit w = visit_providing"
  by (auto simp: worker_suspended_def)

lemma worker_run_closure_queue:
  assumes "worker_queue_inv w" "i < length (w_posted w)"
  shows "worker_queue_inv (worker_run_closure i w)"
proof -
  let ?t = "w_posted w ! i" and ?q = "w_to_send w"
  obtain q' cs where r: "run_task ?t ?q = (q', cs)" by fastforce
  have w: "worker_queue_ok w" using assms(1) by (simp add: worker_queue_inv_def)
  have t: "task_ok ?t" and ok: "queue_ok ?q"
    using w assms(2) by (auto simp: worker_queue_ok_def list_all_iff)
  have "worker_handlers (worker_run_closure i w) = worker_handlers w"
    using run_task_handlers [OF r] mset_concat_remove_nth [OF assms(2), of task_handlers]
    by (simp add: worker_handlers_def worker_run_closure_def r)
  moreover have "worker_suspended (worker_run_closure i w) = worker_suspended w"
    by (simp add: worker_suspended_def worker_run_closure_def r)
  moreover have "list_all task_ok (remove_nth i (w_posted w))"
    using w set_remove_nth [of i "w_posted w"] by (auto simp: worker_queue_ok_def list_all_iff)
  moreover have "queue_ok q'" "list_all completion_ok cs" using run_task_queue_ok [OF ok t r] by auto
  moreover have posted: "set (w_posted w) = insert ?t (set (remove_nth i (w_posted w)))"
    using arg_cong [OF mset_remove_nth [OF assms(2)], of set_mset] by simp
  moreover have "wq_closed q' = wq_closed ?q" by (rule run_task_closed [OF r])
  moreover have "wq_closed ?q \<longrightarrow> queued q' = [] \<or> close_task \<in> set (remove_nth i (w_posted w))"
  proof (cases "?t = close_task")
    case True
    then show ?thesis using run_close_queued [of ?q q' cs] r by simp
  next
    case False
    then show ?thesis
      using run_task_closed_queued [OF r] w posted by (simp add: worker_queue_ok_def)
  qed
  ultimately show ?thesis
    using assms(1) by (simp add: worker_queue_inv_def worker_queue_ok_def worker_run_closure_def r)
qed

lemma ready_suspended:
  assumes "worker_queue_inv w" "c \<in> set (w_ready w)"
  shows "completed c \<in># worker_suspended w"
proof -
  have "completed c \<in># worker_handlers w" using assms(2) by (auto simp: worker_handlers_def)
  then show ?thesis using assms(1) by (simp add: worker_queue_inv_def)
qed

text \<open>A coroutine whose handler was called leaves the queue and goes on.\<close>

lemma worker_resume_queue:
  assumes inv: "worker_queue_inv w" and i: "i < length (w_ready w)"
  shows "worker_queue_inv (worker_resume now (w_ready w ! i) (w\<lparr>w_ready := remove_nth i (w_ready w)\<rparr>))"
proof -
  let ?c = "w_ready w ! i" and ?w = "w\<lparr>w_ready := remove_nth i (w_ready w)\<rparr>"
  have ok: "completion_ok ?c"
    using inv i by (auto simp: worker_queue_inv_def worker_queue_ok_def list_all_iff)
  have c: "completed ?c = c_send \<Longrightarrow> w_send w = send_waiting"
    "completed ?c = c_recv \<Longrightarrow> w_recv w = recv_replying"
    "completed ?c = c_visit \<Longrightarrow> w_visit w = visit_providing"
    using ready_suspended [OF inv, of ?c] i by auto
  have rest: "worker_suspended ?w = add_mset (completed ?c) (worker_handlers ?w)"
    using inv mset_remove_nth [OF i] by (simp add: worker_queue_inv_def worker_handlers_def)
  have q: "worker_queue_ok ?w"
    using inv set_remove_nth [of i "w_ready w"]
    by (auto simp: worker_queue_inv_def worker_queue_ok_def list_all_iff)
  show ?thesis
    using ok c rest q
    by (cases ?c; cases "completed ?c")
      (auto simp: worker_queue_inv_def worker_recv_loop_def worker_set_ddl_def suspended_leave)
qed

lemma worker_step_queue:
  assumes inv: "worker_queue_inv w" and step: "worker_step J now ev w = Some w'"
  shows "worker_queue_inv w'"
proof (cases ev)
  case (ev_read r)
  then show ?thesis using assms
    by (auto simp: worker_on_read_def worker_queue_inv_def suspended_enter suspended_stay
        split: if_splits sum.splits)
next
  case (ev_write r)
  then show ?thesis using assms
    by (auto simp: worker_on_write_def worker_queue_inv_def worker_send_loop_def
        suspended_enter suspended_stay split: if_splits sum.splits send_pc.splits)
next
  case (ev_visit_read r)
  then show ?thesis using assms
    by (auto simp: worker_on_visit_read_def worker_queue_inv_def worker_cancel_ddl_def suspended_stay
        split: if_splits sum.splits)
next
  case (ev_timer r)
  then show ?thesis using assms
    by (auto simp: worker_on_timer_def worker_ddl_check_def worker_ddl_wait_def worker_queue_inv_def
        split: if_splits sum.splits option.splits)
next
  case (ev_closure i)
  then show ?thesis using step worker_run_closure_queue [OF inv] by (auto split: if_splits)
next
  case (ev_resume i)
  then show ?thesis using step worker_resume_queue [OF inv] by (auto split: if_splits)
next
  case (ev_visit c epoch ep)
  then show ?thesis using assms
    by (auto simp: worker_visit_def worker_queue_inv_def worker_set_ddl_def worker_cancel_socket_def
        Let_def suspended_enter suspended_stay split: if_splits sum.splits)
next
  case ev_stop
  then show ?thesis using assms by (auto simp: worker_queue_inv_def)
qed

lemmas worker_ops = worker_post_def worker_close_queue_def worker_cancel_socket_def
  worker_close_socket_def worker_set_ddl_def worker_cancel_ddl_def worker_recv_loop_def
  worker_send_loop_def worker_in_flight_def

lemma worker_try_stop_flags: "worker_flag_inv w \<Longrightarrow> worker_flag_inv (worker_try_stop w)"
  by (auto simp: worker_flag_inv_def worker_try_stop_def worker_ops Let_def split: send_pc.split)

lemma worker_handle_error_flags: "worker_flag_inv w \<Longrightarrow> worker_flag_inv (worker_handle_error e w)"
  by (simp add: worker_handle_error_def worker_try_stop_flags)

lemma worker_flag_inv_done [simp]:
  "worker_flag_inv w \<Longrightarrow> worker_flag_inv (w\<lparr>w_ddl_pc := ddl_done\<rparr>)"
  "worker_flag_inv w \<Longrightarrow> worker_flag_inv (w\<lparr>w_ddl_cancelled := True\<rparr>)"
  by (auto simp: worker_flag_inv_def)

lemma worker_flag_inv_wait: "worker_flag_inv w \<Longrightarrow> \<not> w_stopping w \<Longrightarrow> worker_flag_inv (worker_ddl_wait w)"
  by (simp add: worker_flag_inv_def worker_ddl_wait_def)

lemma worker_flag_inv_pc [simp]:
  "worker_flag_inv (w\<lparr>w_recv := r\<rparr>) = worker_flag_inv w"
  "worker_flag_inv (w\<lparr>w_send := s\<rparr>) = worker_flag_inv w"
  "worker_flag_inv (w\<lparr>w_ddl := x\<rparr>) = worker_flag_inv w"
  "worker_flag_inv (w\<lparr>w_ddl_action := y\<rparr>) = worker_flag_inv w"
  "worker_flag_inv (w\<lparr>w_sent := z\<rparr>) = worker_flag_inv w"
  "worker_flag_inv (w\<lparr>w_posted := p\<rparr>) = worker_flag_inv w"
  "worker_flag_inv (w\<lparr>w_ready := q\<rparr>) = worker_flag_inv w"
  by (simp_all add: worker_flag_inv_def)

lemma worker_run_closure_flags:
  assumes "worker_queue_inv w" "worker_flag_inv w" "i < length (w_posted w)"
  shows "worker_flag_inv (worker_run_closure i w)"
proof -
  obtain q' cs where r: "run_task (w_posted w ! i) (w_to_send w) = (q', cs)" by fastforce
  show ?thesis
    using assms run_task_closed [OF r] run_task_closed_done [OF r, of c_visit]
    by (auto simp: worker_flag_inv_def worker_run_closure_def r)
qed

lemma worker_resume_flags:
  assumes inv: "worker_queue_inv w" "worker_flag_inv w" and i: "i < length (w_ready w)"
  shows "worker_flag_inv (worker_resume now (w_ready w ! i) (w\<lparr>w_ready := remove_nth i (w_ready w)\<rparr>))"
proof -
  let ?c = "w_ready w ! i" and ?w = "w\<lparr>w_ready := remove_nth i (w_ready w)\<rparr>"
  have ok: "completion_ok ?c"
    using inv i by (auto simp: worker_queue_inv_def worker_queue_ok_def list_all_iff)
  have v: "?c = provide_done c_visit \<or> ?c = provide_aborted c_visit \<Longrightarrow> w_visit w = visit_providing"
    using ready_suspended [OF inv(1), of ?c] i by auto
  have w: "worker_flag_inv ?w" using inv(2) by simp
  have "?c = provide_done c_visit \<Longrightarrow> w_sock w \<noteq> sock_closed"
    using inv(2) v by (auto simp: worker_flag_inv_def)
  moreover have "worker_flag_inv (worker_handle_error e ?w)" for e
    using w by (auto simp: worker_handle_error_def worker_flag_inv_def worker_try_stop_def worker_ops Let_def
        split: send_pc.split)
  ultimately show ?thesis
    using w v ok by (cases ?c) (auto simp: worker_flag_inv_def worker_ops)
qed

lemma worker_step_flags:
  assumes inv: "worker_queue_inv w" "worker_flag_inv w" and step: "worker_step J now ev w = Some w'"
  shows "worker_flag_inv w'"
proof (cases ev)
  case (ev_read r)
  then show ?thesis using step inv worker_handle_error_flags
    by (auto simp: worker_on_read_def worker_post_def split: if_splits sum.splits)
next
  case (ev_write r)
  then show ?thesis using step inv worker_handle_error_flags
    by (auto simp: worker_on_write_def worker_send_loop_def worker_post_def
        split: if_splits sum.splits send_pc.splits)
next
  case (ev_visit_read r)
  then show ?thesis using step inv
    by (auto simp: worker_on_visit_read_def worker_cancel_ddl_def worker_flag_inv_def
        split: if_splits sum.splits)
next
  case (ev_timer r)
  then show ?thesis
    using step inv worker_handle_error_flags worker_try_stop_flags worker_flag_inv_wait
    by (auto simp: worker_on_timer_def worker_ddl_check_def split: if_splits sum.splits option.splits)
next
  case (ev_closure i)
  then show ?thesis using step worker_run_closure_flags [OF inv] by (auto split: if_splits)
next
  case (ev_resume i)
  then show ?thesis using step worker_resume_flags [OF inv] by (auto split: if_splits)
next
  case (ev_visit c epoch ep)
  have vn: "w_visit w = visit_none" and w': "w' = worker_visit J now c epoch ep w"
    using step ev_visit by (auto split: if_splits)
  have "c_visit \<notin> worker_in_flight (w\<lparr>w_visited := True\<rparr>)"
    using vn by (simp add: worker_in_flight_def split: send_pc.split)
  then show ?thesis
    using inv(2) vn unfolding w' worker_visit_def Let_def
    by (cases c; cases "marshal_msg J (M_visit_tcp_share \<lparr>vt_epoch = epoch, vt_peer = ep\<rparr>)")
      (simp_all add: worker_cancel_socket_def worker_set_ddl_def worker_post_def worker_flag_inv_def)
next
  case ev_stop
  then show ?thesis using step inv worker_try_stop_flags by auto
qed

definition worker_inv :: "worker \<Rightarrow> bool" where
  [zrp_inv]: "worker_inv w \<longleftrightarrow> worker_queue_inv w \<and> worker_flag_inv w"

lemma worker_step_inv: "worker_inv w \<Longrightarrow> worker_step J now ev w = Some w' \<Longrightarrow> worker_inv w'"
  unfolding worker_inv_def using worker_step_queue worker_step_flags by blast

lemma worker_run_inv: "s \<noteq> sock_moved \<Longrightarrow> worker_inv (worker_run now (worker_new s i share))"
  by (simp add: worker_inv_def worker_queue_inv_def worker_queue_ok_def worker_handlers_def
      worker_suspended_def worker_flag_inv_def worker_run_def worker_new_def worker_ops wq_new_def
      queue_ok_def wq_inv_def queued_def)

lemma worker_steps_inv: "worker_steps J evs w = Some w' \<Longrightarrow> worker_inv w \<Longrightarrow> worker_inv w'"
proof (induction evs arbitrary: w)
  case (Cons a evs)
  obtain now ev where a: "a = (now, ev)" by (cases a)
  with Cons.prems obtain w1 where "worker_step J now ev w = Some w1" "worker_steps J evs w1 = Some w'"
    by (auto split: option.splits)
  then show ?case using Cons.IH worker_step_inv Cons.prems(2) by blast
qed simp

lemma worker_reachable_inv: "worker_reachable J w \<Longrightarrow> worker_inv w"
  unfolding worker_reachable_def using worker_steps_inv worker_run_inv by blast

section \<open>Winding down\<close>

text \<open>How much a stopped worker can still do: each pending operation, closure or handler
  has a weight that is more than what it can turn into.\<close>

fun task_weight :: "(coro, json) wtask \<Rightarrow> nat" where
  "task_weight (wait_task h) = 2"
| "task_weight (provide_task h m) = 2"
| "task_weight close_task = 1"

fun completion_weight :: "(coro, json) completion \<Rightarrow> nat" where
  "completion_weight (wait_done h m) = 4"
| "completion_weight (wait_aborted h) = 1"
| "completion_weight (provide_done h) = 4"
| "completion_weight (provide_aborted h) = 1"

definition worker_weight :: "worker \<Rightarrow> nat" where
  "worker_weight w =
    sum_list (map task_weight (w_posted w)) + sum_list (map completion_weight (w_ready w)) +
    2 * length (queued (w_to_send w)) +
    (case w_send w of send_writing m \<Rightarrow> 3 | _ \<Rightarrow> 0) +
    (if w_recv w = recv_reading then 3 else 0) + (if w_ddl_pc w = ddl_waiting then 1 else 0)"

lemma sum_list_remove_nth:
  fixes f :: "'a \<Rightarrow> nat"
  assumes "i < length xs"
  shows "sum_list (map f xs) = f (xs ! i) + sum_list (map f (remove_nth i xs))"
proof -
  have "sum_list (map f xs) = sum_mset (image_mset f (mset xs))"
    by (metis mset_map sum_mset_sum_list)
  also have "\<dots> = f (xs ! i) + sum_mset (image_mset f (mset (remove_nth i xs)))"
    by (subst mset_remove_nth [OF assms]) simp
  finally show ?thesis by (metis mset_map sum_mset_sum_list)
qed

lemma run_task_weight:
  assumes "run_task t q = (q', cs)" "wq_closed q"
  shows "sum_list (map completion_weight cs) + 2 * length (queued q') < task_weight t + 2 * length (queued q)"
proof (cases t)
  case close_task
  have a: "sum_list (map completion_weight (map wait_aborted hs)) = length hs" for hs by (induction hs) auto
  have b: "sum_list (map completion_weight (map (\<lambda>(h, r). provide_aborted h) vs)) = length vs" for vs
    by (induction vs) auto
  show ?thesis using assms close_task a [of "wq_q q"] b [of "wq_vq q"]
    by (auto simp: run_close_def queued_def)
qed (use assms in \<open>auto simp: run_defs\<close>)

definition wind_down :: "worker_event \<Rightarrow> bool" where
  "wind_down ev \<longleftrightarrow> (case ev of ev_stop \<Rightarrow> False | ev_visit c e p \<Rightarrow> False | _ \<Rightarrow> True)"

definition worker_stopped :: "worker \<Rightarrow> bool" where
  "worker_stopped w \<longleftrightarrow> w_stopping w \<and> \<not> w_visited w"

text \<open>What the stop has released, so that every coroutine that is suspended will be resumed.\<close>

lemma stopped_released:
  assumes "worker_inv w" "worker_stopped w"
  shows "w_sock w = sock_closed" "wq_closed (w_to_send w)" "w_ddl_pc w = ddl_waiting \<Longrightarrow> w_ddl_cancelled w"
  using assms by (auto simp: worker_inv_def worker_flag_inv_def worker_stopped_def)

text \<open>
  The events that come by themselves, whatever the peer does and however long it takes: a closure that was
  posted, a handler that was called, the end of a wait that was cancelled, and the failure of a read or a
  write that was cancelled or whose socket is closed.  On an open socket a read may stay pending for ever.
\<close>

fun worker_due :: "worker \<Rightarrow> worker_event \<Rightarrow> bool" where
  "worker_due w (ev_read r) \<longleftrightarrow> isl r \<and> (w_sock w = sock_closed \<or> c_recv \<in> w_cancelled w)"
| "worker_due w (ev_write r) \<longleftrightarrow> isl r \<and> (w_sock w = sock_closed \<or> c_send \<in> w_cancelled w)"
| "worker_due w (ev_visit_read r) \<longleftrightarrow> isl r \<and> (w_sock w = sock_closed \<or> c_visit \<in> w_cancelled w)"
| "worker_due w (ev_timer r) \<longleftrightarrow> w_ddl_cancelled w"
| "worker_due w (ev_closure i) \<longleftrightarrow> True"
| "worker_due w (ev_resume i) \<longleftrightarrow> True"
| "worker_due w (ev_visit c epoch ep) \<longleftrightarrow> False"
| "worker_due w ev_stop \<longleftrightarrow> False"

lemma stopped_error: "worker_stopped w \<Longrightarrow> worker_handle_error e w = w"
  by (simp add: worker_handle_error_def worker_stopped_def)

lemma stopped_upd:
  "worker_stopped (w\<lparr>w_recv := r\<rparr>) = worker_stopped w"
  "worker_stopped (w\<lparr>w_send := s\<rparr>) = worker_stopped w"
  "worker_stopped (w\<lparr>w_ddl_pc := d\<rparr>) = worker_stopped w"
  "worker_stopped (w\<lparr>w_ready := x\<rparr>) = worker_stopped w"
  "worker_stopped (w\<lparr>w_cancelled := y\<rparr>) = worker_stopped w"
  "worker_stopped (w\<lparr>w_sent := z\<rparr>) = worker_stopped w"
  "worker_stopped (w\<lparr>w_posted := p\<rparr>) = worker_stopped w"
  "worker_stopped (w\<lparr>w_ddl := q\<rparr>) = worker_stopped w"
  "worker_stopped (w\<lparr>w_ddl_action := t\<rparr>) = worker_stopped w"
  "worker_stopped (w\<lparr>w_ddl_cancelled := b\<rparr>) = worker_stopped w"
  by (simp_all add: worker_stopped_def)

lemma worker_stopped_step:
  assumes inv: "worker_inv w" and st: "worker_stopped w" and ev: "wind_down ev"
    and step: "worker_step J now ev w = Some w'"
  shows "worker_stopped w' \<and> worker_weight w' < worker_weight w"
proof (cases ev)
  case (ev_read r)
  then show ?thesis using step st
    by (auto simp: worker_on_read_def stopped_error stopped_upd worker_weight_def worker_post_def
        split: if_splits sum.splits)
next
  case (ev_write r)
  then show ?thesis using step st
    by (auto simp: worker_on_write_def stopped_error stopped_upd worker_weight_def worker_send_loop_def
        worker_post_def split: if_splits sum.splits send_pc.splits)
next
  case (ev_visit_read r)
  then show ?thesis using step st inv
    by (auto simp: worker_stopped_def worker_inv_def worker_flag_inv_def split: if_splits)
next
  case (ev_timer r)
  have "w_stopping w" using st by (simp add: worker_stopped_def)
  then have "w' = w\<lparr>w_ddl_pc := ddl_done\<rparr>" "w_ddl_pc w = ddl_waiting"
    using step st ev_timer
    by (auto simp: worker_on_timer_def worker_ddl_check_def stopped_error split: if_splits sum.splits)
  then show ?thesis using st by (simp add: stopped_upd worker_weight_def)
next
  case (ev_closure i)
  then have i: "i < length (w_posted w)" and w': "w' = worker_run_closure i w"
    using step by (auto split: if_splits)
  obtain q' cs where r: "run_task (w_posted w ! i) (w_to_send w) = (q', cs)" by fastforce
  show ?thesis
    using st stopped_released [OF inv st] w' r run_task_weight [OF r] run_task_closed [OF r] sum_list_remove_nth [OF i, of task_weight]
    by (simp add: worker_stopped_def worker_weight_def worker_run_closure_def)
next
  case (ev_resume i)
  let ?c = "w_ready w ! i" and ?w = "w\<lparr>w_ready := remove_nth i (w_ready w)\<rparr>"
  have i: "i < length (w_ready w)" and w': "w' = worker_resume now ?c ?w"
    using step ev_resume by (auto split: if_splits)
  have ok: "completion_ok ?c" and c: "completed ?c \<in># worker_suspended w"
    using inv i ready_suspended [of w ?c]
    by (auto simp: worker_inv_def worker_queue_inv_def worker_queue_ok_def list_all_iff)
  have v: "completed ?c \<noteq> c_visit"
    using inv st c by (auto simp: worker_inv_def worker_flag_inv_def worker_stopped_def)
  have weight: "worker_weight w = completion_weight ?c + worker_weight ?w"
    using sum_list_remove_nth [OF i, of completion_weight] by (simp add: worker_weight_def)
  have "worker_weight w' < completion_weight ?c + worker_weight ?w"
    unfolding w' using st v
    by (cases ?c) (simp_all add: stopped_error stopped_upd worker_recv_loop_def worker_set_ddl_def worker_weight_def)
  moreover have "worker_stopped w'"
    unfolding w' using st v
    by (cases ?c) (simp_all add: stopped_error stopped_upd worker_recv_loop_def worker_set_ddl_def)
  ultimately show ?thesis using weight by simp
qed (use ev in \<open>simp_all add: wind_down_def\<close>)

lemma worker_stopped_steps:
  "worker_steps J evs w = Some w' \<Longrightarrow> worker_inv w \<Longrightarrow> worker_stopped w \<Longrightarrow>
    \<forall>(now, ev)\<in>set evs. wind_down ev \<Longrightarrow>
    worker_stopped w' \<and> length evs + worker_weight w' \<le> worker_weight w"
proof (induction evs arbitrary: w)
  case (Cons a evs)
  obtain now ev where a: "a = (now, ev)" by (cases a)
  with Cons.prems obtain w1 where s: "worker_step J now ev w = Some w1" "worker_steps J evs w1 = Some w'"
    by (auto split: option.splits)
  then show ?case
    using Cons.IH [of w1] worker_step_inv [of w J now ev w1] worker_stopped_step [of w ev J now w1]
      Cons.prems a by fastforce
qed simp

lemma worker_weight_0:
  assumes "worker_inv w" "worker_stopped w" "worker_weight w = 0"
  shows "w_recv w = recv_done \<and> w_send w = send_done \<and> w_ddl_pc w = ddl_done"
proof -
  have e: "w_posted w = []" "w_ready w = []" "queued (w_to_send w) = []"
    using assms(3) by (cases "w_posted w"; cases "hd (w_posted w)"; cases "w_ready w"; cases "hd (w_ready w)";
      simp add: worker_weight_def)+
  then have "worker_suspended w = {#}"
    using assms(1) by (simp add: worker_inv_def worker_queue_inv_def worker_handlers_def)
  then have "w_recv w \<noteq> recv_replying" "w_send w \<noteq> send_waiting"
    using suspended_iff [of w] by (metis empty_iff set_mset_empty)+
  then show ?thesis using assms(3)
    by (cases "w_recv w"; cases "w_send w"; cases "w_ddl_pc w"; simp add: worker_weight_def)
qed

end
