(* ===== verification/Std_Map.thy ===== *)
theory Std_Map
  imports Prelude "HOL-Library.List_Lexorder" "HOL-Library.Char_ord"
begin

text \<open>
  The containers that the program keeps its objects in: \<open>std::map\<close> as a key-sorted list of
  entries, with the four operations the program uses, and the heap of the objects that
  \<open>shared_ptr\<close> and \<open>weak_ptr\<close> point to.  An address that is not in the heap is an expired
  \<open>weak_ptr\<close>.
\<close>

section \<open>Sorted maps\<close>

type_synonym ('k, 'v) smap = "('k \<times> 'v) list"

definition map_find :: "'k \<Rightarrow> ('k, 'v) smap \<Rightarrow> 'v option" where
  "map_find k m = map_of m k"

text \<open>\<open>emplace\<close> keeps the entry that is there.\<close>

fun map_emplace :: "'k :: linorder \<Rightarrow> 'v \<Rightarrow> ('k, 'v) smap \<Rightarrow> ('k, 'v) smap" where
  "map_emplace k v [] = [(k, v)]"
| "map_emplace k v ((k', v') # m) =
     (if k = k' then (k', v') # m
      else if k < k' then (k, v) # (k', v') # m
      else (k', v') # map_emplace k v m)"

text \<open>Assignment through \<open>at\<close>, where the key is present.\<close>

fun map_assign :: "'k \<Rightarrow> 'v \<Rightarrow> ('k, 'v) smap \<Rightarrow> ('k, 'v) smap" where
  "map_assign k v [] = []"
| "map_assign k v ((k', v') # m) =
     (if k = k' then (k', v) # m else (k', v') # map_assign k v m)"

text \<open>The loop that erases the entries with a property while it iterates.\<close>

fun map_erase_if :: "('v \<Rightarrow> bool) \<Rightarrow> ('k, 'v) smap \<Rightarrow> ('k, 'v) smap" where
  "map_erase_if P [] = []"
| "map_erase_if P ((k, v) # m) = (if P v then map_erase_if P m else (k, v) # map_erase_if P m)"

definition map_ok :: "('k :: linorder, 'v) smap \<Rightarrow> bool" where
  "map_ok m \<longleftrightarrow> sorted_wrt (<) (map fst m)"

lemma map_ok_simps [simp]:
  "map_ok []"
  "map_ok ((k, v) # m) \<longleftrightarrow> (\<forall>k'\<in>fst ` set m. k < k') \<and> map_ok m"
  by (auto simp: map_ok_def)

lemma map_ok_distinct: "map_ok m \<Longrightarrow> distinct (map fst m)"
  by (simp add: map_ok_def strict_sorted_iff)

lemma fst_emplace [simp]: "fst ` set (map_emplace k v m) = insert k (fst ` set m)"
  by (induction k v m rule: map_emplace.induct) auto

lemma emplace_ok [simp]: "map_ok m \<Longrightarrow> map_ok (map_emplace k v m)"
  by (induction k v m rule: map_emplace.induct) auto

lemma fst_assign [simp]: "fst ` set (map_assign k v m) = fst ` set m"
  by (induction k v m rule: map_assign.induct) auto

lemma assign_ok [simp]: "map_ok m \<Longrightarrow> map_ok (map_assign k v m)"
  by (induction k v m rule: map_assign.induct) auto

lemma map_find_simps [simp]:
  "map_find k [] = None"
  "map_find k ((k', v) # m) = (if k = k' then Some v else map_find k m)"
  by (simp_all add: map_find_def)

lemma map_find_set: "map_find k m = Some v \<Longrightarrow> (k, v) \<in> set m"
  by (simp add: map_find_def map_of_SomeD)

lemma map_find_None: "map_find k m = None \<longleftrightarrow> k \<notin> fst ` set m"
  by (simp add: map_find_def map_of_eq_None_iff)

lemma map_find_fst: "k \<notin> fst ` set m \<Longrightarrow> map_find k m = None"
  by (simp add: map_find_None)

lemma map_find_below: "\<forall>k'\<in>fst ` set m. k < k' \<Longrightarrow> map_find (k :: 'k :: linorder) m = None"
  by (auto simp: map_find_None)

lemma find_emplace:
  "map_ok m \<Longrightarrow> map_find k' (map_emplace k v m) =
    (if k' = k \<and> map_find k m = None then Some v else map_find k' m)"
  by (induction k v m rule: map_emplace.induct) (auto simp: map_find_fst map_find_below, fastforce dest: map_find_set)

lemma find_assign:
  "map_find k' (map_assign k v m) =
    (if k' = k \<and> map_find k m \<noteq> None then Some v else map_find k' m)"
  by (induction k v m rule: map_assign.induct) auto

lemma set_erase_if: "set (map_erase_if P m) = {(k, v) \<in> set m. \<not> P v}"
  by (induction P m rule: map_erase_if.induct) auto

lemma erase_if_ok [simp]: "map_ok m \<Longrightarrow> map_ok (map_erase_if P m)"
  by (induction P m rule: map_erase_if.induct) (auto simp: set_erase_if)

lemma set_map_find: "map_ok m \<Longrightarrow> (k, v) \<in> set m \<longleftrightarrow> map_find k m = Some v"
  by (simp add: map_find_def map_ok_distinct)

lemma find_erase_if:
  "map_ok m \<Longrightarrow> map_find k (map_erase_if P m) =
    (case map_find k m of Some v \<Rightarrow> if P v then None else Some v | None \<Rightarrow> None)"
  by (induction P m rule: map_erase_if.induct) (auto simp: map_find_below split: option.split)

text \<open>A sorted map is determined by what it finds.\<close>

lemma map_ok_ext:
  assumes "map_ok m" "map_ok m'" "\<And>k. map_find k m = map_find k m'"
  shows "m = m'"
proof (rule map_sorted_distinct_set_unique [of fst])
  have "(k, v) \<in> set m \<longleftrightarrow> (k, v) \<in> set m'" for k v
    using set_map_find [OF assms(1)] set_map_find [OF assms(2)] assms(3) by auto
  then have eq: "set m = set m'" by auto
  then show "set m = set m'" .
  show "inj_on fst (set m \<union> set m')"
    using map_ok_distinct [OF assms(1)] eq by (simp add: distinct_map)
qed (use assms in \<open>auto simp: map_ok_def strict_sorted_iff\<close>)

lemma find_fold_emplace:
  "map_ok acc \<Longrightarrow> map_find k (fold (\<lambda>(k, x) m. map_emplace k x m) es acc) =
    (case map_find k acc of Some v \<Rightarrow> Some v | None \<Rightarrow> map_of es k)"
  by (induction es arbitrary: acc) (auto simp: find_emplace split: option.split)

section \<open>The heap\<close>

type_synonym 'o heap = "(nat \<times> 'o) list"

definition hget :: "'o heap \<Rightarrow> nat \<Rightarrow> 'o option" where
  "hget h a = map_of h a"

definition live :: "'o heap \<Rightarrow> nat \<Rightarrow> bool" where
  "live h a \<longleftrightarrow> hget h a \<noteq> None"

definition hupd :: "nat \<Rightarrow> ('o \<Rightarrow> 'o) \<Rightarrow> 'o heap \<Rightarrow> 'o heap" where
  "hupd a f h = map (\<lambda>(b, x). (b, if b = a then f x else x)) h"

definition hnew :: "nat \<Rightarrow> 'o \<Rightarrow> 'o heap \<Rightarrow> 'o heap" where
  "hnew a x h = (a, x) # h"

text \<open>The objects that stay when those without the property are destroyed.\<close>

definition hkeep :: "(nat \<Rightarrow> 'o \<Rightarrow> bool) \<Rightarrow> 'o heap \<Rightarrow> 'o heap" where
  "hkeep P h = filter (\<lambda>(a, x). case hget h a of Some y \<Rightarrow> P a y | None \<Rightarrow> False) h"

lemma map_of_filter_key: "map_of (filter (\<lambda>(a, x). A a) h) a = (if A a then map_of h a else None)"
  by (induction h) auto

lemma hget_keep: "hget (hkeep P h) a = (case hget h a of Some x \<Rightarrow> if P a x then Some x else None | None \<Rightarrow> None)"
  unfolding hkeep_def
  by (simp add: hget_def map_of_filter_key [of "\<lambda>a. case map_of h a of Some y \<Rightarrow> P a y | None \<Rightarrow> False"]
      split: option.split)

lemma hget_set: "hget h a = Some x \<Longrightarrow> (a, x) \<in> set h"
  by (simp add: hget_def map_of_SomeD)

lemma hget_upd [simp]: "hget (hupd a f h) b = (if b = a then map_option f (hget h a) else hget h b)"
  by (induction h) (auto simp: hget_def hupd_def)

lemma hget_new [simp]: "hget (hnew a x h) b = (if b = a then Some x else hget h b)"
  by (simp add: hget_def hnew_def)

lemma live_upd [simp]: "live (hupd a f h) b = live h b"
  by (simp add: live_def)

lemma live_new [simp]: "live (hnew a x h) b \<longleftrightarrow> b = a \<or> live h b"
  by (simp add: live_def)

lemma hget_live: "hget h a = Some x \<Longrightarrow> live h a"
  by (simp add: live_def)

lemma hupd_absent: "hget h a = None \<Longrightarrow> hupd a f h = h"
  by (induction h) (auto simp: hget_def hupd_def split: if_splits)

lemma hget_map_val: "hget (map (\<lambda>(a, x). (a, f a x)) h) a = map_option (f a) (hget h a)"
  by (induction h) (auto simp: hget_def)

lemma distinct_hkeep: "distinct (map fst h) \<Longrightarrow> distinct (map fst (hkeep P h))"
  by (simp add: hkeep_def distinct_map_filter)

lemma hget_Nil [simp]: "hget [] a = None"
  by (simp add: hget_def)

lemma fst_hupd [simp]: "map fst (hupd a f h) = map fst h"
  by (induction h) (auto simp: hupd_def)

end
