(* ===== verification/Server.thy ===== *)
theory Server
  imports Server_Worker Std_Map
begin

text \<open>
  The server (\<open>include/zrp/server.hpp\<close>): the objects \<open>tcp_share\<close>, \<open>controller_socket\<close>,
  \<open>server\<close> and \<open>server::socket_type\<close>, and the workers of \<open>Server_Worker\<close>, in one state.

  Objects live in heaps and are named by addresses.  A \<open>weak_ptr\<close> is an address, expired
  when the heap has no such object.  A \<open>shared_ptr\<close> is held by other objects and by the
  coroutines that have not ended; after every event \<open>collect\<close> destroys what nobody holds.
  As in \<open>Server_Worker\<close>, an event is what one resumption of one coroutine does, and what
  sockets and timers answer is chosen by the environment.
\<close>

section \<open>Objects\<close>

text \<open>Who is suspended in the queue of a share: \<open>got_worker\<close> with a worker to offer, or
  \<open>upstream::get_socket\<close> for a user.\<close>

datatype guest = g_offer nat | g_user nat tcp_endpoint

text \<open>
  The forwarder of a share, which a coroutine of its own creates and runs: not created
  yet, accepting users, no longer accepting but still held by its pipes, gone.
\<close>

datatype fwd_state = fwd_unborn | fwd_running | fwd_draining | fwd_gone

record share =
  shr_id :: string
  shr_port :: u16
  shr_ctrl :: nat
  shr_nr_workers :: int
  shr_wq :: "(guest, nat) waitqueue"
  shr_workers :: "(int, nat) smap"
  shr_closing :: bool
  shr_fwd :: fwd_state
  shr_fwd_stop :: bool
  shr_arriving :: "nat list"
  shr_posted :: "(guest, nat) wtask list"
  shr_ready :: "(guest, nat) completion list"

datatype ctrl_send_pc = cs_hello json | cs_waiting | cs_writing json | cs_done

record ctrl =
  ct_sock :: socket
  ct_uuid :: string
  ct_shares :: "(string, nat) smap"
  ct_to_send :: "(coro, json) waitqueue"
  ct_stopping :: bool
  ct_ddl :: "nat option"
  ct_ddl_action :: string
  ct_recv :: recv_pc
  ct_send :: ctrl_send_pc
  ct_posted :: "(coro, json) wtask list"
  ct_ready :: "(coro, json) completion list"
  ct_sent :: "json list"

record conn =
  cn_sock :: socket
  cn_ddl :: "nat option"
  cn_stopping :: bool
  cn_finished :: bool
  cn_recv :: bool
  cn_timer :: bool

record server =
  sv_ctrls :: "(string, nat) smap"
  sv_tcp_shares :: "(string, nat) smap"
  sv_sockets :: "nat list"
  sv_accepting :: bool
  sv_serving :: bool
  sv_stopping :: bool
  sv_exit_code :: int
  hp_ctrls :: "ctrl heap"
  hp_shares :: "share heap"
  hp_workers :: "worker heap"
  hp_conns :: "conn heap"
  hp_next :: nat

definition upd_ctrl :: "nat \<Rightarrow> (ctrl \<Rightarrow> ctrl) \<Rightarrow> server \<Rightarrow> server" where
  "upd_ctrl c f S = S\<lparr>hp_ctrls := hupd c f (hp_ctrls S)\<rparr>"

definition upd_share :: "nat \<Rightarrow> (share \<Rightarrow> share) \<Rightarrow> server \<Rightarrow> server" where
  "upd_share a f S = S\<lparr>hp_shares := hupd a f (hp_shares S)\<rparr>"

definition upd_worker :: "nat \<Rightarrow> (worker \<Rightarrow> worker) \<Rightarrow> server \<Rightarrow> server" where
  "upd_worker w f S = S\<lparr>hp_workers := hupd w f (hp_workers S)\<rparr>"

definition upd_conn :: "nat \<Rightarrow> (conn \<Rightarrow> conn) \<Rightarrow> server \<Rightarrow> server" where
  "upd_conn k f S = S\<lparr>hp_conns := hupd k f (hp_conns S)\<rparr>"

section \<open>The share\<close>

definition share_new :: "nat \<Rightarrow> string \<Rightarrow> u16 \<Rightarrow> share" where
  "share_new c share_id port =
    \<lparr>shr_id = share_id, shr_port = port, shr_ctrl = c, shr_nr_workers = 0, shr_wq = wq_new,
     shr_workers = [], shr_closing = False, shr_fwd = fwd_unborn, shr_fwd_stop = False,
     shr_arriving = [], shr_posted = [], shr_ready = []\<rparr>"

definition share_post :: "(guest, nat) wtask \<Rightarrow> share \<Rightarrow> share" where
  "share_post t s = s\<lparr>shr_posted := shr_posted s @ [t]\<rparr>"

text \<open>\<open>fwd_.lock()\<close> succeeds while the forwarder exists.\<close>

definition fwd_lock :: "share \<Rightarrow> bool" where
  "fwd_lock s \<longleftrightarrow> shr_fwd s = fwd_running \<or> shr_fwd s = fwd_draining"

definition share_close :: "share \<Rightarrow> share" where
  "share_close s =
    (let s = s\<lparr>shr_closing := True\<rparr>;
         s = (if fwd_lock s then s\<lparr>shr_fwd_stop := True\<rparr> else s)
     in share_post close_task (s\<lparr>shr_wq := (shr_wq s)\<lparr>wq_closed := True\<rparr>\<rparr>))"

definition stop_workers :: "(int, nat) smap \<Rightarrow> server \<Rightarrow> server" where
  "stop_workers ws S =
    fold (\<lambda>(i, w) S. if live (hp_workers S) w then upd_worker w worker_try_stop S else S) ws S"

definition share_try_stop :: "nat \<Rightarrow> server \<Rightarrow> server" where
  "share_try_stop a S =
    (case hget (hp_shares S) a of
      None \<Rightarrow> S
    | Some s \<Rightarrow> stop_workers (shr_workers s) (upd_share a share_close S))"

section \<open>The controller's connection\<close>

definition ctrl_new :: "socket \<Rightarrow> string \<Rightarrow> ctrl" where
  "ctrl_new s client_uuid =
    \<lparr>ct_sock = s, ct_uuid = client_uuid, ct_shares = [], ct_to_send = wq_new, ct_stopping = False,
     ct_ddl = None, ct_ddl_action = '''', ct_recv = recv_done, ct_send = cs_done,
     ct_posted = [], ct_ready = [], ct_sent = []\<rparr>"

definition ctrl_post :: "(coro, json) wtask \<Rightarrow> ctrl \<Rightarrow> ctrl" where
  "ctrl_post t ct = ct\<lparr>ct_posted := ct_posted ct @ [t]\<rparr>"

definition ctrl_set_ddl :: "string \<Rightarrow> nat \<Rightarrow> nat \<Rightarrow> ctrl \<Rightarrow> ctrl" where
  "ctrl_set_ddl action after now ct = ct\<lparr>ct_ddl := Some (now + after), ct_ddl_action := action\<rparr>"

definition ctrl_cancel_ddl :: "ctrl \<Rightarrow> ctrl" where
  [simp]: "ctrl_cancel_ddl ct = ct\<lparr>ct_ddl := None\<rparr>"

definition ctrl_close :: "ctrl \<Rightarrow> ctrl" where
  "ctrl_close ct =
    (let ct = ct\<lparr>ct_stopping := True\<rparr>;
         ct = ctrl_post close_task (ct\<lparr>ct_to_send := (ct_to_send ct)\<lparr>wq_closed := True\<rparr>\<rparr>)
     in ctrl_cancel_ddl (ct\<lparr>ct_sock := sock_closed\<rparr>))"

definition stop_shares :: "(string, nat) smap \<Rightarrow> server \<Rightarrow> server" where
  "stop_shares ss S =
    fold (\<lambda>(i, a) S. if live (hp_shares S) a then share_try_stop a S else S) ss S"

definition ctrl_try_stop :: "nat \<Rightarrow> server \<Rightarrow> server" where
  "ctrl_try_stop c S =
    (case hget (hp_ctrls S) c of
      None \<Rightarrow> S
    | Some ct \<Rightarrow> stop_shares (ct_shares ct) (upd_ctrl c ctrl_close S))"

definition ctrl_handle_error :: "exn \<Rightarrow> nat \<Rightarrow> server \<Rightarrow> server" where
  "ctrl_handle_error e c S =
    (case hget (hp_ctrls S) c of
      None \<Rightarrow> S
    | Some ct \<Rightarrow> if \<not> ct_stopping ct then ctrl_try_stop c S else S)"

definition share_handle_error :: "exn \<Rightarrow> nat \<Rightarrow> server \<Rightarrow> server" where
  "share_handle_error e a S =
    (case hget (hp_shares S) a of
      None \<Rightarrow> S
    | Some s \<Rightarrow> if \<not> shr_closing s then ctrl_try_stop (shr_ctrl s) S else S)"

definition ctrl_recv_loop :: "nat \<Rightarrow> ctrl \<Rightarrow> ctrl" where
  "ctrl_recv_loop now ct = (ctrl_set_ddl ''recv_msgs()'' 60 now ct)\<lparr>ct_recv := recv_reading\<rparr>"

text \<open>\<open>run()\<close> spawns \<open>recv_msgs\<close> and \<open>send_msgs\<close>, which begins with the server's hello.\<close>

definition ctrl_run :: "json_lib \<Rightarrow> string \<Rightarrow> nat \<Rightarrow> ctrl \<Rightarrow> ctrl" where
  "ctrl_run J welcome_msg now ct =
    (let ct = ctrl_recv_loop now (ctrl_cancel_ddl ct) in
     case marshal_msg J (M_server_hello \<lparr>sh_version = 0, sh_welcome = welcome_msg\<rparr>) of
       Inl e \<Rightarrow> ct\<lparr>ct_send := cs_done\<rparr>
     | Inr m \<Rightarrow> ct\<lparr>ct_send := cs_hello m, ct_sent := ct_sent ct @ [m]\<rparr>)"

definition ctrl_on_read :: "json_lib \<Rightarrow> json res \<Rightarrow> nat \<Rightarrow> server \<Rightarrow> server" where
  "ctrl_on_read J r c S =
    (case ebind r (\<lambda>jv. ebind (unmarshal_msg J [T_ping] jv) (\<lambda>m. marshal_msg J M_pong)) of
      Inl e \<Rightarrow> upd_ctrl c (\<lambda>ct. ct\<lparr>ct_recv := recv_done\<rparr>) (ctrl_handle_error e c S)
    | Inr pong \<Rightarrow>
        upd_ctrl c (\<lambda>ct. (ctrl_post (provide_task c_recv pong) ct)\<lparr>ct_recv := recv_replying\<rparr>) S)"

definition ctrl_send_loop :: "ctrl \<Rightarrow> ctrl" where
  "ctrl_send_loop ct = (ctrl_post (wait_task c_send) ct)\<lparr>ct_send := cs_waiting\<rparr>"

text \<open>The hello is sent outside the \<open>try\<close>: if that fails, the coroutine just ends.\<close>

definition ctrl_on_write :: "unit res \<Rightarrow> nat \<Rightarrow> server \<Rightarrow> server" where
  "ctrl_on_write r c S =
    (case hget (hp_ctrls S) c of
      None \<Rightarrow> S
    | Some ct \<Rightarrow>
        (case r of
          Inr _ \<Rightarrow> upd_ctrl c ctrl_send_loop S
        | Inl e \<Rightarrow>
            (case ct_send ct of
              cs_hello m \<Rightarrow> upd_ctrl c (\<lambda>ct. ct\<lparr>ct_send := cs_done\<rparr>) S
            | _ \<Rightarrow> upd_ctrl c (\<lambda>ct. ct\<lparr>ct_send := cs_done\<rparr>) (ctrl_handle_error e c S))))"

fun ctrl_resume :: "nat \<Rightarrow> (coro, json) completion \<Rightarrow> nat \<Rightarrow> server \<Rightarrow> server" where
  "ctrl_resume now (wait_done h m) c S =
     upd_ctrl c (\<lambda>ct. ct\<lparr>ct_send := cs_writing m, ct_sent := ct_sent ct @ [m]\<rparr>) S"
| "ctrl_resume now (wait_aborted h) c S =
     upd_ctrl c (\<lambda>ct. ct\<lparr>ct_send := cs_done\<rparr>)
       (ctrl_handle_error (system_error operation_aborted) c S)"
| "ctrl_resume now (provide_done h) c S = upd_ctrl c (ctrl_recv_loop now) S"
| "ctrl_resume now (provide_aborted h) c S =
     upd_ctrl c (\<lambda>ct. ct\<lparr>ct_recv := recv_done\<rparr>)
       (ctrl_handle_error (system_error operation_aborted) c S)"

definition ctrl_run_closure :: "nat \<Rightarrow> ctrl \<Rightarrow> ctrl" where
  "ctrl_run_closure i ct =
    (let (q', cs) = run_task (ct_posted ct ! i) (ct_to_send ct) in
     ct\<lparr>ct_to_send := q', ct_posted := remove_nth i (ct_posted ct), ct_ready := ct_ready ct @ cs\<rparr>)"

text \<open>\<open>ddl_actor\<close> of the controller: what it would do when its wait ends.\<close>

definition ctrl_ddl_check :: "nat \<Rightarrow> nat \<Rightarrow> server \<Rightarrow> server" where
  "ctrl_ddl_check now c S =
    (case hget (hp_ctrls S) c of
      None \<Rightarrow> S
    | Some ct \<Rightarrow>
        if ct_stopping ct then S
        else (case ct_ddl ct of
               Some expiry \<Rightarrow> if expiry \<le> now then ctrl_try_stop c S else S
             | None \<Rightarrow> S))"

section \<open>Registration\<close>

text \<open>\<open>add_tcp_share\<close>: the share is created, put into the controller's map and run.\<close>

definition add_tcp_share :: "nat \<Rightarrow> string \<Rightarrow> u16 \<Rightarrow> server \<Rightarrow> nat \<times> server" where
  "add_tcp_share c share_id port S =
    (let a = hp_next S;
         S = S\<lparr>hp_next := Suc a, hp_shares := hnew a (share_new c share_id port) (hp_shares S)\<rparr>;
         S = upd_ctrl c (\<lambda>ct. ct\<lparr>ct_shares := map_emplace share_id a (ct_shares ct)\<rparr>) S
     in (a, S))"

text \<open>
  The handler of a hello changes the state as it goes and may throw on the way, so it
  returns the exception, if any, beside the state.
\<close>

definition register_ctrl :: "nat \<Rightarrow> string \<Rightarrow> server \<Rightarrow> exn option \<times> server" where
  "register_ctrl c client_uuid S =
    (case map_find client_uuid (sv_ctrls S) of
      None \<Rightarrow> (None, S\<lparr>sv_ctrls := map_emplace client_uuid c (sv_ctrls S)\<rparr>)
    | Some c' \<Rightarrow>
        if \<not> live (hp_ctrls S) c'
        then (None, S\<lparr>sv_ctrls := map_assign client_uuid c (sv_ctrls S)\<rparr>)
        else (Some duplicate_client, S))"

definition register_share :: "nat \<Rightarrow> tcp_share_info \<Rightarrow> server \<Rightarrow> exn option \<times> server" where
  "register_share c it S =
    (case map_find (ts_id it) (sv_tcp_shares S) of
      None \<Rightarrow>
        (let (a, S) = add_tcp_share c (ts_id it) (ts_port it) S in
         (None, S\<lparr>sv_tcp_shares := map_emplace (ts_id it) a (sv_tcp_shares S)\<rparr>))
    | Some a' \<Rightarrow>
        if \<not> live (hp_shares S) a'
        then (let (a, S) = add_tcp_share c (ts_id it) (ts_port it) S in
              (None, S\<lparr>sv_tcp_shares := map_assign (ts_id it) a (sv_tcp_shares S)\<rparr>))
        else (Some (duplicate_tcp_share (ts_id it)), S))"

fun register_shares :: "nat \<Rightarrow> tcp_share_info list \<Rightarrow> server \<Rightarrow> exn option \<times> server" where
  "register_shares c [] S = (None, S)"
| "register_shares c (it # its) S =
    (case register_share c it S of
      (Some e, S) \<Rightarrow> (Some e, S)
    | (None, S) \<Rightarrow> register_shares c its S)"

definition hello_client ::
  "json_lib \<Rightarrow> string \<Rightarrow> nat \<Rightarrow> nat \<Rightarrow> client_hello \<Rightarrow> server \<Rightarrow> exn option \<times> server" where
  "hello_client J welcome_msg now k hello S =
    (case hget (hp_conns S) k of
      None \<Rightarrow> (None, S)
    | Some cn \<Rightarrow>
        (let c = hp_next S;
             S = S\<lparr>hp_next := Suc c,
                   hp_ctrls := hnew c (ctrl_new (cn_sock cn) (ch_client_uuid hello)) (hp_ctrls S)\<rparr>;
             S = upd_conn k (\<lambda>cn. cn\<lparr>cn_sock := sock_moved\<rparr>) S
         in
         case register_ctrl c (ch_client_uuid hello) S of
           (Some e, S) \<Rightarrow> (Some e, S)
         | (None, S) \<Rightarrow>
             (case register_shares c (ch_tcp_shares hello) S of
               (Some e, S) \<Rightarrow> (Some e, S)
             | (None, S) \<Rightarrow>
                 (None, upd_conn k (\<lambda>cn. cn\<lparr>cn_ddl := None\<rparr>)
                   (upd_ctrl c (ctrl_run J welcome_msg now) S)))))"

definition hello_worker :: "nat \<Rightarrow> nat \<Rightarrow> worker_hello \<Rightarrow> server \<Rightarrow> exn option \<times> server" where
  "hello_worker now k hello S =
    (case hget (hp_conns S) k of
      None \<Rightarrow> (None, S)
    | Some cn \<Rightarrow>
        (case map_find (wh_tcp_share_id hello) (sv_tcp_shares S) of
          None \<Rightarrow> (Some out_of_range, S)
        | Some a \<Rightarrow>
            if live (hp_shares S) a
            then
              (let w = hp_next S;
                   wk = worker_run now (worker_new (cn_sock cn) (wh_worker_id hello) a);
                   S = S\<lparr>hp_next := Suc w, hp_workers := hnew w wk (hp_workers S)\<rparr>;
                   S = upd_conn k (\<lambda>cn. cn\<lparr>cn_sock := sock_moved\<rparr>) S
               in (None, upd_share a (\<lambda>s. s\<lparr>shr_nr_workers := shr_nr_workers s + 1,
                                            shr_arriving := shr_arriving s @ [w]\<rparr>) S))
            else (Some tcp_share_closed, S)))"

section \<open>A connection that has not said hello\<close>

definition conn_try_stop :: "nat \<Rightarrow> server \<Rightarrow> server" where
  "conn_try_stop k = upd_conn k (\<lambda>cn.
    if cn_stopping cn then cn
    else
      (let cn = cn\<lparr>cn_stopping := True\<rparr> in
       if \<not> cn_finished cn \<and> cn_sock cn \<noteq> sock_moved then cn\<lparr>cn_sock := sock_closed\<rparr> else cn))"

text \<open>\<open>run()\<close> arms the deadline and spawns both coroutines.\<close>

definition conn_run :: "nat \<Rightarrow> conn \<Rightarrow> conn" where
  [simp]: "conn_run now cn = cn\<lparr>cn_ddl := Some (now + 30), cn_recv := True, cn_timer := True\<rparr>"

definition conn_handle_error :: "exn \<Rightarrow> nat \<Rightarrow> server \<Rightarrow> server" where
  "conn_handle_error e k S =
    (case hget (hp_conns S) k of
      None \<Rightarrow> S
    | Some cn \<Rightarrow> if cn_finished cn then S
                 else if \<not> cn_stopping cn then conn_try_stop k S else S)"

fun hello_msg :: "json_lib \<Rightarrow> string \<Rightarrow> nat \<Rightarrow> nat \<Rightarrow> message \<Rightarrow> server \<Rightarrow> exn option \<times> server" where
  "hello_msg J welcome_msg now k (M_client_hello h) S = hello_client J welcome_msg now k h S"
| "hello_msg J welcome_msg now k (M_worker_hello h) S = hello_worker now k h S"
| "hello_msg J welcome_msg now k m S = (Some (unexpected_msg_type (msg_type_id (type_of m))), S)"

text \<open>\<open>recv_hello\<close> after \<open>recv_msg\<close>.\<close>

definition conn_on_hello :: "json_lib \<Rightarrow> string \<Rightarrow> nat \<Rightarrow> nat \<Rightarrow> json res \<Rightarrow> server \<Rightarrow> server" where
  "conn_on_hello J welcome_msg now k r S =
    (let S = upd_conn k (\<lambda>cn. cn\<lparr>cn_recv := False\<rparr>) S in
     case ebind r (unmarshal_msg J [T_client_hello, T_worker_hello]) of
       Inl e \<Rightarrow> conn_handle_error e k S
     | Inr m \<Rightarrow>
         (case hello_msg J welcome_msg now k m S of
           (Some e, S) \<Rightarrow> conn_handle_error e k S
         | (None, S) \<Rightarrow> conn_try_stop k (upd_conn k (\<lambda>cn. cn\<lparr>cn_finished := True\<rparr>) S)))"

text \<open>\<open>ddl_actor\<close>: any end of the wait, an expiry or a cancellation, stops the connection
  unless it is done.\<close>

definition conn_on_timer :: "nat \<Rightarrow> unit res \<Rightarrow> server \<Rightarrow> server" where
  "conn_on_timer k r S =
    (case hget (hp_conns S) k of
      None \<Rightarrow> S
    | Some cn \<Rightarrow>
        (let S = upd_conn k (\<lambda>cn. cn\<lparr>cn_timer := False\<rparr>) S in
         case r of
           Inl e \<Rightarrow>
             if e \<noteq> system_error operation_aborted then conn_handle_error e k S
             else if cn_stopping cn \<or> cn_finished cn then S else conn_try_stop k S
         | Inr _ \<Rightarrow> if cn_stopping cn \<or> cn_finished cn then S else conn_try_stop k S))"

section \<open>The server object\<close>

definition server_new :: server where
  "server_new =
    \<lparr>sv_ctrls = [], sv_tcp_shares = [], sv_sockets = [], sv_accepting = True, sv_serving = False,
     sv_stopping = False, sv_exit_code = 0, hp_ctrls = [], hp_shares = [], hp_workers = [],
     hp_conns = [], hp_next = 0\<rparr>"

definition server_run :: "server \<Rightarrow> server" where
  "server_run S = S\<lparr>sv_serving := True\<rparr>"

definition server_try_stop :: "server \<Rightarrow> server" where
  "server_try_stop S =
    (let S = S\<lparr>sv_stopping := True\<rparr>;
         S = fold (\<lambda>(i, c) S. if live (hp_ctrls S) c then ctrl_try_stop c S else S) (sv_ctrls S) S;
         S = fold (\<lambda>k S. if live (hp_conns S) k then conn_try_stop k S else S) (sv_sockets S) S
     in S\<lparr>sv_accepting := False\<rparr>)"

definition server_handle_error :: "exn \<Rightarrow> server \<Rightarrow> server" where
  "server_handle_error e S =
    (if \<not> sv_stopping S then server_try_stop (S\<lparr>sv_exit_code := 1\<rparr>) else S)"

definition cleanup_sockets :: "server \<Rightarrow> server" where
  "cleanup_sockets S = S\<lparr>sv_sockets := filter (live (hp_conns S)) (sv_sockets S)\<rparr>"

definition handle_socket :: "nat \<Rightarrow> server \<Rightarrow> server" where
  "handle_socket now S =
    (let k = hp_next S;
         cn = \<lparr>cn_sock = sock_open, cn_ddl = None, cn_stopping = False, cn_finished = False,
               cn_recv = False, cn_timer = False\<rparr>;
         S = S\<lparr>hp_next := Suc k, hp_conns := hnew k cn (hp_conns S)\<rparr>;
         S = cleanup_sockets S;
         S = S\<lparr>sv_sockets := sv_sockets S @ [k]\<rparr>
     in upd_conn k (conn_run now) S)"

text \<open>\<open>serve\<close> after \<open>async_accept\<close>.\<close>

definition serve_accepted :: "nat \<Rightarrow> unit res \<Rightarrow> server \<Rightarrow> server" where
  "serve_accepted now r S =
    (case r of
      Inr _ \<Rightarrow> handle_socket now S
    | Inl e \<Rightarrow> (server_handle_error e S)\<lparr>sv_serving := False\<rparr>)"

section \<open>Users and workers of a share\<close>

definition cleanup_workers :: "server \<Rightarrow> share \<Rightarrow> share" where
  "cleanup_workers S s = s\<lparr>shr_workers := map_erase_if (\<lambda>w. \<not> live (hp_workers S) w) (shr_workers s)\<rparr>"

text \<open>\<open>got_worker\<close>, a coroutine of its own that starts after the hello.\<close>

definition got_worker :: "nat \<Rightarrow> nat \<Rightarrow> server \<Rightarrow> server" where
  "got_worker a w S =
    (case hget (hp_workers S) w of
      None \<Rightarrow> S
    | Some wk \<Rightarrow>
        upd_share a (\<lambda>s.
          let s = cleanup_workers S s;
              s = s\<lparr>shr_workers := map_emplace (sint (w_id wk)) w (shr_workers s)\<rparr>
          in share_post (provide_task (g_offer w) w) s) S)"

text \<open>
  \<open>upstream::get_socket\<close> when its wait ends: skip a worker that died, or visit it; \<open>c\<close> is
  what the worker's \<open>s_.cancel()\<close> did and \<open>epoch\<close> the clock.
\<close>

fun share_resume ::
  "json_lib \<Rightarrow> nat \<Rightarrow> unit res \<Rightarrow> u64 \<Rightarrow> (guest, nat) completion \<Rightarrow> nat \<Rightarrow> server \<Rightarrow> server" where
  "share_resume J now c epoch (wait_done (g_user n ep) w) a S =
     (if live (hp_workers S) w then upd_worker w (worker_visit J now c epoch ep) S
      else upd_share a (share_post (wait_task (g_user n ep))) S)"
| "share_resume J now c epoch _ a S = S"

definition share_run_closure :: "nat \<Rightarrow> share \<Rightarrow> share" where
  "share_run_closure i s =
    (let (q', cs) = run_task (shr_posted s ! i) (shr_wq s) in
     s\<lparr>shr_wq := q', shr_posted := remove_nth i (shr_posted s), shr_ready := shr_ready s @ cs\<rparr>)"

text \<open>\<open>run_forwarder\<close>: creating the forwarder binds the port, which may throw; \<open>forward\<close>
  only returns by an exception.\<close>

definition run_forwarder_start :: "nat \<Rightarrow> unit res \<Rightarrow> server \<Rightarrow> server" where
  "run_forwarder_start a r S =
    (case r of
      Inl e \<Rightarrow> upd_share a (\<lambda>s. s\<lparr>shr_fwd := fwd_gone\<rparr>) (share_handle_error e a S)
    | Inr _ \<Rightarrow> upd_share a (\<lambda>s. s\<lparr>shr_fwd := fwd_running\<rparr>) S)"

definition run_forwarder_end :: "nat \<Rightarrow> exn \<Rightarrow> server \<Rightarrow> server" where
  "run_forwarder_end a e S =
    upd_share a (\<lambda>s. s\<lparr>shr_fwd := fwd_draining\<rparr>) (share_handle_error e a S)"

section \<open>Destruction\<close>

definition worker_held :: "worker \<Rightarrow> bool" where
  "worker_held w \<longleftrightarrow> w_recv w \<noteq> recv_done \<or> w_send w \<noteq> send_done \<or> w_ddl_pc w \<noteq> ddl_done \<or>
    w_visit w = visit_providing \<or> w_visit w = visit_reading"

definition share_held :: "server \<Rightarrow> nat \<Rightarrow> share \<Rightarrow> bool" where
  "share_held S a s \<longleftrightarrow> shr_fwd s \<noteq> fwd_gone \<or> shr_arriving s \<noteq> [] \<or> queued (shr_wq s) \<noteq> [] \<or>
    shr_posted s \<noteq> [] \<or> shr_ready s \<noteq> [] \<or> list_ex (\<lambda>(w, wk). w_share wk = a) (hp_workers S)"

definition ctrl_held :: "server \<Rightarrow> nat \<Rightarrow> ctrl \<Rightarrow> bool" where
  "ctrl_held S c ct \<longleftrightarrow> ct_recv ct \<noteq> recv_done \<or> ct_send ct \<noteq> cs_done \<or>
    list_ex (\<lambda>(a, s). shr_ctrl s = c) (hp_shares S)"

definition conn_held :: "conn \<Rightarrow> bool" where
  "conn_held cn \<longleftrightarrow> cn_recv cn \<or> cn_timer cn"

definition collect_workers :: "server \<Rightarrow> server" where
  "collect_workers S =
    (let dead = filter (\<lambda>(w, wk). \<not> worker_held wk) (hp_workers S) in
     S\<lparr>hp_workers := hkeep (\<lambda>w. worker_held) (hp_workers S),
       hp_shares := map (\<lambda>(a, s). (a, s\<lparr>shr_nr_workers := shr_nr_workers s -
         int (length (filter (\<lambda>(w, wk). w_share wk = a) dead))\<rparr>)) (hp_shares S)\<rparr>)"

definition collect_shares :: "server \<Rightarrow> server" where
  "collect_shares S = S\<lparr>hp_shares := hkeep (share_held S) (hp_shares S)\<rparr>"

definition collect_ctrls :: "server \<Rightarrow> server" where
  "collect_ctrls S = S\<lparr>hp_ctrls := hkeep (ctrl_held S) (hp_ctrls S)\<rparr>"

definition collect_conns :: "server \<Rightarrow> server" where
  "collect_conns S = S\<lparr>hp_conns := hkeep (\<lambda>k. conn_held) (hp_conns S)\<rparr>"

definition collect :: "server \<Rightarrow> server" where
  "collect S = collect_conns (collect_ctrls (collect_shares (collect_workers S)))"

section \<open>Steps\<close>

datatype ctrl_event =
  cev_read "json res" | cev_write "unit res" | cev_closure nat | cev_resume nat

datatype server_event =
  sev_accept "unit res"
| sev_hello nat "json res"
| sev_conn_timer nat "unit res"
| sev_ctrl nat ctrl_event
| sev_worker nat worker_event
| sev_arrive nat nat
| sev_user nat nat tcp_endpoint
| sev_share_closure nat nat
| sev_share_resume nat nat "unit res" u64
| sev_fwd_start nat "unit res"
| sev_fwd_end nat exn
| sev_fwd_gone nat
| sev_stop

fun ctrl_step :: "json_lib \<Rightarrow> nat \<Rightarrow> ctrl_event \<Rightarrow> nat \<Rightarrow> ctrl \<Rightarrow> server \<Rightarrow> server option" where
  "ctrl_step J now (cev_read r) c ct S =
     (if ct_recv ct = recv_reading then Some (ctrl_on_read J r c S) else None)"
| "ctrl_step J now (cev_write r) c ct S =
     (case ct_send ct of
       cs_hello m \<Rightarrow> Some (ctrl_on_write r c S)
     | cs_writing m \<Rightarrow> Some (ctrl_on_write r c S)
     | _ \<Rightarrow> None)"
| "ctrl_step J now (cev_closure i) c ct S =
     (if i < length (ct_posted ct) then Some (upd_ctrl c (ctrl_run_closure i) S) else None)"
| "ctrl_step J now (cev_resume i) c ct S =
     (if i < length (ct_ready ct)
      then Some (ctrl_resume now (ct_ready ct ! i) c
             (upd_ctrl c (\<lambda>ct. ct\<lparr>ct_ready := remove_nth i (ct_ready ct)\<rparr>) S))
      else None)"

text \<open>What the coroutines of a worker do by themselves; the visit and the stop come from
  the share.\<close>

definition own_event :: "worker_event \<Rightarrow> bool" where
  "own_event ev \<longleftrightarrow> (case ev of ev_visit c e p \<Rightarrow> False | ev_stop \<Rightarrow> False | _ \<Rightarrow> True)"

fun server_act :: "json_lib \<Rightarrow> string \<Rightarrow> nat \<Rightarrow> server_event \<Rightarrow> server \<Rightarrow> server option" where
  "server_act J welcome now (sev_accept r) S =
     (if sv_serving S then Some (serve_accepted now r S) else None)"
| "server_act J welcome now (sev_hello k r) S =
     (case hget (hp_conns S) k of
       Some cn \<Rightarrow> if cn_recv cn then Some (conn_on_hello J welcome now k r S) else None
     | None \<Rightarrow> None)"
| "server_act J welcome now (sev_conn_timer k r) S =
     (case hget (hp_conns S) k of
       Some cn \<Rightarrow> if cn_timer cn then Some (conn_on_timer k r S) else None
     | None \<Rightarrow> None)"
| "server_act J welcome now (sev_ctrl c ev) S =
     (case hget (hp_ctrls S) c of Some ct \<Rightarrow> ctrl_step J now ev c ct S | None \<Rightarrow> None)"
| "server_act J welcome now (sev_worker w ev) S =
     (case hget (hp_workers S) w of
       Some wk \<Rightarrow>
         if own_event ev
         then map_option (\<lambda>wk'. upd_worker w (\<lambda>_. wk') S) (worker_step J now ev wk)
         else None
     | None \<Rightarrow> None)"
| "server_act J welcome now (sev_arrive a i) S =
     (case hget (hp_shares S) a of
       Some s \<Rightarrow>
         if i < length (shr_arriving s)
         then Some (got_worker a (shr_arriving s ! i)
                (upd_share a (\<lambda>s. s\<lparr>shr_arriving := remove_nth i (shr_arriving s)\<rparr>) S))
         else None
     | None \<Rightarrow> None)"
| "server_act J welcome now (sev_user a n ep) S =
     (case hget (hp_shares S) a of
       Some s \<Rightarrow>
         if shr_fwd s = fwd_running
         then Some (upd_share a (share_post (wait_task (g_user n ep))) S) else None
     | None \<Rightarrow> None)"
| "server_act J welcome now (sev_share_closure a i) S =
     (case hget (hp_shares S) a of
       Some s \<Rightarrow>
         if i < length (shr_posted s) then Some (upd_share a (share_run_closure i) S) else None
     | None \<Rightarrow> None)"
| "server_act J welcome now (sev_share_resume a i c epoch) S =
     (case hget (hp_shares S) a of
       Some s \<Rightarrow>
         if i < length (shr_ready s)
         then Some (share_resume J now c epoch (shr_ready s ! i) a
                (upd_share a (\<lambda>s. s\<lparr>shr_ready := remove_nth i (shr_ready s)\<rparr>) S))
         else None
     | None \<Rightarrow> None)"
| "server_act J welcome now (sev_fwd_start a r) S =
     (case hget (hp_shares S) a of
       Some s \<Rightarrow> if shr_fwd s = fwd_unborn then Some (run_forwarder_start a r S) else None
     | None \<Rightarrow> None)"
| "server_act J welcome now (sev_fwd_end a e) S =
     (case hget (hp_shares S) a of
       Some s \<Rightarrow> if shr_fwd s = fwd_running then Some (run_forwarder_end a e S) else None
     | None \<Rightarrow> None)"
| "server_act J welcome now (sev_fwd_gone a) S =
     (case hget (hp_shares S) a of
       Some s \<Rightarrow>
         if shr_fwd s = fwd_draining then Some (upd_share a (\<lambda>s. s\<lparr>shr_fwd := fwd_gone\<rparr>) S) else None
     | None \<Rightarrow> None)"
| "server_act J welcome now sev_stop S = Some (server_try_stop S)"

definition server_step :: "json_lib \<Rightarrow> string \<Rightarrow> nat \<Rightarrow> server_event \<Rightarrow> server \<Rightarrow> server option" where
  "server_step J welcome now ev S = map_option collect (server_act J welcome now ev S)"

fun server_steps :: "json_lib \<Rightarrow> string \<Rightarrow> (nat \<times> server_event) list \<Rightarrow> server \<Rightarrow> server option" where
  "server_steps J welcome [] S = Some S"
| "server_steps J welcome ((now, ev) # evs) S =
     (case server_step J welcome now ev S of
       None \<Rightarrow> None
     | Some S' \<Rightarrow> server_steps J welcome evs S')"

definition server_reachable :: "json_lib \<Rightarrow> string \<Rightarrow> server \<Rightarrow> bool" where
  "server_reachable J welcome S \<longleftrightarrow>
    (\<exists>evs. server_steps J welcome evs (server_run server_new) = Some S)"

end
