(* ===== verification/Server_Inv.thy ===== *)
theory Server_Inv
  imports Server
begin

text \<open>
  The invariant of the server's registries: every live controller and every live share is
  the one that the registries name, and whatever a live object points to is live.  It is
  stated over the shape of the state, which most operations do not change, and it is
  kept by registration and by destruction.
\<close>

section \<open>The shape of the state\<close>

text \<open>
  What the registries and the heaps say about each other: the registries themselves, and
  of each object only its name and whom it points to.  Most operations do not touch it.
\<close>

record shape =
  sp_ctrls :: "(string, nat) smap"
  sp_shares :: "(string, nat) smap"
  sp_sockets :: "nat list"
  sp_next :: nat
  sp_ctrl :: "nat \<Rightarrow> (string \<times> (string, nat) smap) option"
  sp_share :: "nat \<Rightarrow> (string \<times> nat) option"
  sp_worker :: "nat \<Rightarrow> nat option"
  sp_conn :: "nat \<Rightarrow> bool"
  sp_addrs :: "nat list"

definition shape :: "server \<Rightarrow> shape" where
  "shape S = \<lparr>sp_ctrls = sv_ctrls S, sp_shares = sv_tcp_shares S, sp_sockets = sv_sockets S,
    sp_next = hp_next S,
    sp_ctrl = (\<lambda>c. map_option (\<lambda>ct. (ct_uuid ct, ct_shares ct)) (hget (hp_ctrls S) c)),
    sp_share = (\<lambda>a. map_option (\<lambda>s. (shr_id s, shr_ctrl s)) (hget (hp_shares S) a)),
    sp_worker = (\<lambda>w. map_option w_share (hget (hp_workers S) w)),
    sp_conn = live (hp_conns S), sp_addrs = map fst (hp_shares S)\<rparr>"

lemma shape_upd_ctrl:
  "(\<And>ct. ct_uuid (f ct) = ct_uuid ct) \<Longrightarrow> (\<And>ct. ct_shares (f ct) = ct_shares ct) \<Longrightarrow>
    shape (upd_ctrl c f S) = shape S"
  by (auto simp: shape_def upd_ctrl_def option.map_comp comp_def fun_eq_iff)

lemma shape_upd_share:
  "(\<And>s. shr_id (f s) = shr_id s) \<Longrightarrow> (\<And>s. shr_ctrl (f s) = shr_ctrl s) \<Longrightarrow>
    shape (upd_share a f S) = shape S"
  by (auto simp: shape_def upd_share_def option.map_comp comp_def fun_eq_iff)

lemma shape_upd_worker:
  "(\<And>w. w_share (f w) = w_share w) \<Longrightarrow> shape (upd_worker w f S) = shape S"
  by (auto simp: shape_def upd_worker_def option.map_comp comp_def fun_eq_iff)

lemma shape_upd_conn: "shape (upd_conn k f S) = shape S"
  by (auto simp: shape_def upd_conn_def)

lemma shape_fold: "(\<And>x S. shape (f x S) = shape S) \<Longrightarrow> shape (fold f xs S) = shape S"
  by (induction xs arbitrary: S) auto

lemmas shape_upds = shape_upd_ctrl shape_upd_share shape_upd_worker shape_upd_conn shape_fold

lemma w_share_try_stop [simp]: "w_share (worker_try_stop w) = w_share w"
  by (simp add: worker_try_stop_def worker_close_queue_def worker_post_def worker_cancel_ddl_def
      worker_close_socket_def worker_cancel_socket_def Let_def)

lemma share_close_keys [simp]:
  "shr_id (share_close s) = shr_id s" "shr_ctrl (share_close s) = shr_ctrl s"
  "shr_closing (share_close s)"
  by (simp_all add: share_close_def share_post_def Let_def)

lemma share_post_keys [simp]:
  "shr_id (share_post t s) = shr_id s" "shr_ctrl (share_post t s) = shr_ctrl s"
  by (simp_all add: share_post_def)

lemma ctrl_close_keys [simp]:
  "ct_uuid (ctrl_close ct) = ct_uuid ct" "ct_shares (ctrl_close ct) = ct_shares ct"
  "ct_stopping (ctrl_close ct)" "ct_sock (ctrl_close ct) = sock_closed"
  by (simp_all add: ctrl_close_def ctrl_post_def Let_def)

lemma shape_stop_workers [simp]: "shape (stop_workers ws S) = shape S"
  by (auto simp: stop_workers_def intro!: shape_upds)

lemma shape_share_try_stop [simp]: "shape (share_try_stop a S) = shape S"
  by (simp add: share_try_stop_def shape_upd_share split: option.split)

lemma shape_stop_shares [simp]: "shape (stop_shares ss S) = shape S"
  by (auto simp: stop_shares_def intro!: shape_fold)

lemma shape_ctrl_try_stop [simp]: "shape (ctrl_try_stop c S) = shape S"
  by (simp add: ctrl_try_stop_def shape_upd_ctrl split: option.split)

lemma shape_ctrl_handle_error [simp]: "shape (ctrl_handle_error e c S) = shape S"
  by (simp add: ctrl_handle_error_def split: option.split)

lemma shape_share_handle_error [simp]: "shape (share_handle_error e a S) = shape S"
  by (simp add: share_handle_error_def split: option.split)

lemma ctrl_op_keys [simp]:
  "ct_uuid (ctrl_post t ct) = ct_uuid ct" "ct_shares (ctrl_post t ct) = ct_shares ct"
  "ct_uuid (ctrl_recv_loop now ct) = ct_uuid ct" "ct_shares (ctrl_recv_loop now ct) = ct_shares ct"
  "ct_uuid (ctrl_send_loop ct) = ct_uuid ct" "ct_shares (ctrl_send_loop ct) = ct_shares ct"
  "ct_uuid (ctrl_run J wm now ct) = ct_uuid ct" "ct_shares (ctrl_run J wm now ct) = ct_shares ct"
  "ct_uuid (ctrl_run_closure i ct) = ct_uuid ct" "ct_shares (ctrl_run_closure i ct) = ct_shares ct"
  by (simp_all add: ctrl_post_def ctrl_recv_loop_def ctrl_set_ddl_def ctrl_send_loop_def ctrl_run_def
      ctrl_run_closure_def Let_def split: sum.split prod.split)

lemma shape_ctrl_step: "ctrl_step J now ev c ct S = Some S' \<Longrightarrow> shape S' = shape S"
proof (cases ev)
  case (cev_resume i)
  assume s: "ctrl_step J now ev c ct S = Some S'"
  then show ?thesis using cev_resume
    by (cases "ct_ready ct ! i") (auto simp: shape_upd_ctrl split: if_splits)
qed (auto simp: ctrl_on_read_def ctrl_on_write_def shape_upd_ctrl
    split: if_splits sum.splits option.splits ctrl_send_pc.splits)

lemma shape_conn_try_stop [simp]: "shape (conn_try_stop k S) = shape S"
  by (simp add: conn_try_stop_def shape_upd_conn)

lemma shape_conn_handle_error [simp]: "shape (conn_handle_error e k S) = shape S"
  by (simp add: conn_handle_error_def split: option.split)

lemma shape_conn_on_timer [simp]: "shape (conn_on_timer k r S) = shape S"
  by (simp add: conn_on_timer_def shape_upd_conn Let_def split: option.split sum.split)

lemma shape_server_flags [simp]:
  "shape (S\<lparr>sv_stopping := b\<rparr>) = shape S" "shape (S\<lparr>sv_accepting := b\<rparr>) = shape S"
  "shape (S\<lparr>sv_serving := b\<rparr>) = shape S" "shape (S\<lparr>sv_exit_code := e\<rparr>) = shape S"
  by (simp_all add: shape_def)

lemma shape_server_try_stop [simp]: "shape (server_try_stop S) = shape S"
proof -
  have "shape (fold (\<lambda>(i, c) S. if live (hp_ctrls S) c then ctrl_try_stop c S else S) xs S) = shape S"
    "shape (fold (\<lambda>k S. if live (hp_conns S) k then conn_try_stop k S else S) ys S) = shape S" for xs :: "(string, nat) smap" and ys S
    by (auto intro!: shape_fold)
  then show ?thesis by (simp add: server_try_stop_def Let_def)
qed

lemma shape_server_handle_error [simp]: "shape (server_handle_error e S) = shape S"
  by (simp add: server_handle_error_def)

lemma w_share_ops [simp]:
  "w_share (worker_handle_error e w) = w_share w" "w_share (worker_post t w) = w_share w"
  "w_share (worker_send_loop w) = w_share w" "w_share (worker_recv_loop now w) = w_share w"
  "w_share (worker_close_queue w) = w_share w" "w_share (worker_cancel_ddl w) = w_share w"
  "w_share (worker_run_closure i w) = w_share w" "w_share (worker_visit J now c epoch ep w) = w_share w"
  by (simp_all add: worker_handle_error_def worker_ops worker_run_closure_def worker_visit_def Let_def
      split: prod.split sum.split)

lemma w_share_step: "worker_step J now ev w = Some w' \<Longrightarrow> w_share w' = w_share w"
proof (cases ev)
  case (ev_resume i)
  assume s: "worker_step J now ev w = Some w'"
  then show ?thesis using ev_resume by (cases "w_ready w ! i") (auto split: if_splits)
qed (auto simp: worker_on_read_def worker_on_write_def worker_on_visit_read_def worker_on_timer_def
    worker_ddl_check_def split: if_splits sum.splits option.splits send_pc.splits)

section \<open>Invariant\<close>

text \<open>
  Every live object is where the registries say: a controller under its uuid, a share
  under its id with the server and with its controller, a worker's share is live, a
  connection is in the list.
\<close>

definition shape_inv :: "nat set \<Rightarrow> shape \<Rightarrow> bool" where
  [zrp_inv]: "shape_inv X P \<longleftrightarrow>
    map_ok (sp_ctrls P) \<and> map_ok (sp_shares P) \<and>
    (\<forall>c\<in>snd ` set (sp_ctrls P). c < sp_next P) \<and> (\<forall>a\<in>snd ` set (sp_shares P). a < sp_next P) \<and>
    (\<forall>c u ss. sp_ctrl P c = Some (u, ss) \<longrightarrow>
      (c \<notin> X \<longrightarrow> map_find u (sp_ctrls P) = Some c) \<and> map_ok ss \<and> c < sp_next P \<and>
      (\<forall>a\<in>snd ` set ss. a < sp_next P)) \<and>
    (\<forall>a i c. sp_share P a = Some (i, c) \<longrightarrow>
      map_find i (sp_shares P) = Some a \<and> a < sp_next P \<and> c \<notin> X \<and>
      (\<exists>u ss. sp_ctrl P c = Some (u, ss) \<and> map_find i ss = Some a)) \<and>
    (\<forall>w a. sp_worker P w = Some a \<longrightarrow> w < sp_next P \<and> sp_share P a \<noteq> None) \<and>
    (\<forall>k. sp_conn P k \<longrightarrow> k < sp_next P \<and> k \<in> set (sp_sockets P)) \<and>
    distinct (sp_addrs P) \<and> (\<forall>a\<in>set (sp_addrs P). a < sp_next P) \<and>
    (\<forall>i a j c. map_find i (sp_shares P) = Some a \<longrightarrow> sp_share P a = Some (j, c) \<longrightarrow> j = i)"

abbreviation server_inv :: "nat set \<Rightarrow> server \<Rightarrow> bool" where
  "server_inv X S \<equiv> shape_inv X (shape S)"

lemma shape_simps [simp]:
  "sp_ctrls (shape S) = sv_ctrls S" "sp_shares (shape S) = sv_tcp_shares S"
  "sp_sockets (shape S) = sv_sockets S" "sp_next (shape S) = hp_next S"
  "sp_ctrl (shape S) c = map_option (\<lambda>ct. (ct_uuid ct, ct_shares ct)) (hget (hp_ctrls S) c)"
  "sp_share (shape S) a = map_option (\<lambda>s. (shr_id s, shr_ctrl s)) (hget (hp_shares S) a)"
  "sp_worker (shape S) w = map_option w_share (hget (hp_workers S) w)"
  "sp_conn (shape S) k = live (hp_conns S) k" "sp_addrs (shape S) = map fst (hp_shares S)"
  by (simp_all add: shape_def)

lemma hget_map_snd: "hget (map (\<lambda>(a, x). (a, f a x)) h) a = map_option (f a) (hget h a)"
  by (induction h) (auto simp: hget_def)

text \<open>The clauses of the invariant, one by one.\<close>

lemma shape_invD:
  assumes "shape_inv X P"
  shows "map_ok (sp_ctrls P)" "map_ok (sp_shares P)"
    "\<forall>c\<in>snd ` set (sp_ctrls P). c < sp_next P" "\<forall>a\<in>snd ` set (sp_shares P). a < sp_next P"
    "\<forall>c u ss. sp_ctrl P c = Some (u, ss) \<longrightarrow>
      (c \<notin> X \<longrightarrow> map_find u (sp_ctrls P) = Some c) \<and> map_ok ss \<and> c < sp_next P \<and>
      (\<forall>a\<in>snd ` set ss. a < sp_next P)"
    "\<forall>a i c. sp_share P a = Some (i, c) \<longrightarrow>
      map_find i (sp_shares P) = Some a \<and> a < sp_next P \<and> c \<notin> X \<and>
      (\<exists>u ss. sp_ctrl P c = Some (u, ss) \<and> map_find i ss = Some a)"
    "\<forall>w a. sp_worker P w = Some a \<longrightarrow> w < sp_next P \<and> sp_share P a \<noteq> None"
    "\<forall>k. sp_conn P k \<longrightarrow> k < sp_next P \<and> k \<in> set (sp_sockets P)"
    "distinct (sp_addrs P)" "\<forall>a\<in>set (sp_addrs P). a < sp_next P"
    "\<forall>i a j c. map_find i (sp_shares P) = Some a \<longrightarrow> sp_share P a = Some (j, c) \<longrightarrow> j = i"
proof -
  note i = assms [unfolded shape_inv_def]
  note fs = i [THEN conjunct1]
    i [THEN conjunct2, THEN conjunct1]
    i [THEN conjunct2, THEN conjunct2, THEN conjunct1]
    i [THEN conjunct2, THEN conjunct2, THEN conjunct2, THEN conjunct1]
    i [THEN conjunct2, THEN conjunct2, THEN conjunct2, THEN conjunct2, THEN conjunct1]
    i [THEN conjunct2, THEN conjunct2, THEN conjunct2, THEN conjunct2, THEN conjunct2, THEN conjunct1]
    i [THEN conjunct2, THEN conjunct2, THEN conjunct2, THEN conjunct2, THEN conjunct2, THEN conjunct2, THEN conjunct1]
    i [THEN conjunct2, THEN conjunct2, THEN conjunct2, THEN conjunct2, THEN conjunct2, THEN conjunct2, THEN conjunct2, THEN conjunct1]
    i [THEN conjunct2, THEN conjunct2, THEN conjunct2, THEN conjunct2, THEN conjunct2, THEN conjunct2, THEN conjunct2, THEN conjunct2, THEN conjunct1]
    i [THEN conjunct2, THEN conjunct2, THEN conjunct2, THEN conjunct2, THEN conjunct2, THEN conjunct2, THEN conjunct2, THEN conjunct2, THEN conjunct2, THEN conjunct1]
    i [THEN conjunct2, THEN conjunct2, THEN conjunct2, THEN conjunct2, THEN conjunct2, THEN conjunct2, THEN conjunct2, THEN conjunct2, THEN conjunct2, THEN conjunct2]
  show "map_ok (sp_ctrls P)" "map_ok (sp_shares P)"
    "\<forall>c\<in>snd ` set (sp_ctrls P). c < sp_next P" "\<forall>a\<in>snd ` set (sp_shares P). a < sp_next P"
    "\<forall>c u ss. sp_ctrl P c = Some (u, ss) \<longrightarrow>
      (c \<notin> X \<longrightarrow> map_find u (sp_ctrls P) = Some c) \<and> map_ok ss \<and> c < sp_next P \<and>
      (\<forall>a\<in>snd ` set ss. a < sp_next P)"
    "\<forall>a i c. sp_share P a = Some (i, c) \<longrightarrow>
      map_find i (sp_shares P) = Some a \<and> a < sp_next P \<and> c \<notin> X \<and>
      (\<exists>u ss. sp_ctrl P c = Some (u, ss) \<and> map_find i ss = Some a)"
    "\<forall>w a. sp_worker P w = Some a \<longrightarrow> w < sp_next P \<and> sp_share P a \<noteq> None"
    "\<forall>k. sp_conn P k \<longrightarrow> k < sp_next P \<and> k \<in> set (sp_sockets P)"
    "distinct (sp_addrs P)" "\<forall>a\<in>set (sp_addrs P). a < sp_next P"
    "\<forall>i a j c. map_find i (sp_shares P) = Some a \<longrightarrow> sp_share P a = Some (j, c) \<longrightarrow> j = i"
    by (rule fs)+
qed

text \<open>What the invariant says of an object that is there.\<close>

lemma server_inv_worker:
  assumes "server_inv X S" "hget (hp_workers S) w = Some wk"
  shows "w < hp_next S \<and> (\<exists>s. hget (hp_shares S) (w_share wk) = Some s)"
  using shape_invD(7) [OF assms(1), rule_format, of w "w_share wk"] assms(2) by auto

lemma server_inv_share:
  assumes "server_inv X S" "hget (hp_shares S) a = Some s"
  shows "map_find (shr_id s) (sv_tcp_shares S) = Some a \<and> a < hp_next S \<and> shr_ctrl s \<notin> X \<and>
    (\<exists>ct. hget (hp_ctrls S) (shr_ctrl s) = Some ct \<and> map_find (shr_id s) (ct_shares ct) = Some a)"
  using shape_invD(6) [OF assms(1), rule_format, of a "shr_id s" "shr_ctrl s"] assms(2) by auto

lemma server_inv_named:
  assumes "server_inv X S" "map_find i (sv_tcp_shares S) = Some a" "hget (hp_shares S) a = Some s"
  shows "shr_id s = i"
  using shape_invD(11) [OF assms(1), rule_format, of i a "shr_id s" "shr_ctrl s"] assms(2,3) by simp

lemma server_inv_ctrl:
  assumes "server_inv X S" "hget (hp_ctrls S) c = Some ct"
  shows "(c \<notin> X \<longrightarrow> map_find (ct_uuid ct) (sv_ctrls S) = Some c) \<and> map_ok (ct_shares ct) \<and> c < hp_next S \<and>
    (\<forall>a\<in>snd ` set (ct_shares ct). a < hp_next S)"
  using shape_invD(5) [OF assms(1), rule_format, of c "ct_uuid ct" "ct_shares ct"] assms(2) by simp

lemma server_inv_sets:
  assumes "server_inv X S"
  shows "map_ok (sv_ctrls S)" "map_ok (sv_tcp_shares S)" "distinct (map fst (hp_shares S))"
    "(i, c) \<in> set (sv_ctrls S) \<Longrightarrow> c < hp_next S" "(j, a) \<in> set (sv_tcp_shares S) \<Longrightarrow> a < hp_next S"
    "(b, s) \<in> set (hp_shares S) \<Longrightarrow> b < hp_next S"
    "live (hp_conns S) k \<Longrightarrow> k < hp_next S \<and> k \<in> set (sv_sockets S)"
proof -
  note inv = shape_invD [OF assms, unfolded shape_simps]
  show "map_ok (sv_ctrls S)" by (rule inv(1))
  show "map_ok (sv_tcp_shares S)" by (rule inv(2))
  show "distinct (map fst (hp_shares S))" by (rule inv(9))
  show "live (hp_conns S) k \<Longrightarrow> k < hp_next S \<and> k \<in> set (sv_sockets S)" using inv(8) by simp
  show "(i, c) \<in> set (sv_ctrls S) \<Longrightarrow> c < hp_next S" using inv(3) by (metis image_eqI snd_conv)
  show "(j, a) \<in> set (sv_tcp_shares S) \<Longrightarrow> a < hp_next S" using inv(4) by (metis image_eqI snd_conv)
  show "(b, s) \<in> set (hp_shares S) \<Longrightarrow> b < hp_next S" using inv(10) by (metis image_eqI fst_conv set_map)
qed

lemma server_invI:
  assumes "map_ok (sv_ctrls S)" "map_ok (sv_tcp_shares S)" "distinct (map fst (hp_shares S))"
    and "\<And>i c. (i, c) \<in> set (sv_ctrls S) \<Longrightarrow> c < hp_next S"
    and "\<And>i a. (i, a) \<in> set (sv_tcp_shares S) \<Longrightarrow> a < hp_next S"
    and "\<And>a s. (a, s) \<in> set (hp_shares S) \<Longrightarrow> a < hp_next S"
    and "\<And>k. live (hp_conns S) k \<Longrightarrow> k < hp_next S \<and> k \<in> set (sv_sockets S)"
    and "\<And>w wk. hget (hp_workers S) w = Some wk \<Longrightarrow> w < hp_next S \<and> live (hp_shares S) (w_share wk)"
    and "\<And>a s. hget (hp_shares S) a = Some s \<Longrightarrow>
      map_find (shr_id s) (sv_tcp_shares S) = Some a \<and> shr_ctrl s \<notin> X \<and>
      (\<exists>ct. hget (hp_ctrls S) (shr_ctrl s) = Some ct \<and> map_find (shr_id s) (ct_shares ct) = Some a)"
    and "\<And>c ct. hget (hp_ctrls S) c = Some ct \<Longrightarrow>
      (c \<notin> X \<longrightarrow> map_find (ct_uuid ct) (sv_ctrls S) = Some c) \<and> map_ok (ct_shares ct) \<and> c < hp_next S \<and>
      (\<forall>(i, a)\<in>set (ct_shares ct). a < hp_next S)"
    and "\<And>i a s. map_find i (sv_tcp_shares S) = Some a \<Longrightarrow> hget (hp_shares S) a = Some s \<Longrightarrow> shr_id s = i"
  shows "server_inv X S"
proof -
  have 0: "\<forall>i a j c. map_find i (sp_shares (shape S)) = Some a \<longrightarrow> sp_share (shape S) a = Some (j, c) \<longrightarrow> j = i"
    using assms(11) by auto
  have 1: "\<forall>a i c. sp_share (shape S) a = Some (i, c) \<longrightarrow>
      map_find i (sp_shares (shape S)) = Some a \<and> a < sp_next (shape S) \<and> c \<notin> X \<and>
      (\<exists>u ss. sp_ctrl (shape S) c = Some (u, ss) \<and> map_find i ss = Some a)"
  proof (intro allI impI)
    fix a i c
    assume "sp_share (shape S) a = Some (i, c)"
    then obtain s where s: "hget (hp_shares S) a = Some s" "i = shr_id s" "c = shr_ctrl s" by auto
    show "map_find i (sp_shares (shape S)) = Some a \<and> a < sp_next (shape S) \<and> c \<notin> X \<and>
      (\<exists>u ss. sp_ctrl (shape S) c = Some (u, ss) \<and> map_find i ss = Some a)"
      using assms(9) [OF s(1)] assms(6) [OF hget_set [OF s(1)]] s(2,3) by auto
  qed
  have 2: "\<forall>c u ss. sp_ctrl (shape S) c = Some (u, ss) \<longrightarrow>
      (c \<notin> X \<longrightarrow> map_find u (sp_ctrls (shape S)) = Some c) \<and> map_ok ss \<and> c < sp_next (shape S) \<and>
      (\<forall>a\<in>snd ` set ss. a < sp_next (shape S))"
  proof (intro allI impI)
    fix c u ss
    assume "sp_ctrl (shape S) c = Some (u, ss)"
    then obtain ct where ct: "hget (hp_ctrls S) c = Some ct" "u = ct_uuid ct" "ss = ct_shares ct" by auto
    show "(c \<notin> X \<longrightarrow> map_find u (sp_ctrls (shape S)) = Some c) \<and> map_ok ss \<and> c < sp_next (shape S) \<and>
      (\<forall>a\<in>snd ` set ss. a < sp_next (shape S))"
      using assms(10) [OF ct(1)] ct(2,3) by auto
  qed
  have 3: "\<forall>w a. sp_worker (shape S) w = Some a \<longrightarrow> w < sp_next (shape S) \<and> sp_share (shape S) a \<noteq> None"
    using assms(8) by (auto simp: live_def)
  have 4: "\<forall>c\<in>snd ` set (sp_ctrls (shape S)). c < sp_next (shape S)"
    "\<forall>a\<in>snd ` set (sp_shares (shape S)). a < sp_next (shape S)"
    "\<forall>a\<in>set (sp_addrs (shape S)). a < sp_next (shape S)"
    "\<forall>k. sp_conn (shape S) k \<longrightarrow> k < sp_next (shape S) \<and> k \<in> set (sp_sockets (shape S))"
    using assms(4-7) by auto
  have 5: "map_ok (sp_ctrls (shape S))" "map_ok (sp_shares (shape S))" "distinct (sp_addrs (shape S))"
    using assms(1-3) by simp_all
  show ?thesis unfolding shape_inv_def by (intro conjI) (rule 0 1 2 3 4 5)+
qed

text \<open>Destruction keeps the invariant when whoever is pointed to stays.\<close>

lemma shape_inv_shrink:
  assumes inv: "shape_inv X P"
    and same: "sp_ctrls P' = sp_ctrls P" "sp_shares P' = sp_shares P" "sp_sockets P' = sp_sockets P"
      "sp_next P' = sp_next P" "distinct (sp_addrs P')" "set (sp_addrs P') \<subseteq> set (sp_addrs P)"
    and sub: "sp_ctrl P' \<subseteq>\<^sub>m sp_ctrl P" "sp_share P' \<subseteq>\<^sub>m sp_share P" "sp_worker P' \<subseteq>\<^sub>m sp_worker P"
      "\<And>k. sp_conn P' k \<Longrightarrow> sp_conn P k"
    and held: "\<And>w a. sp_worker P' w = Some a \<Longrightarrow> sp_share P' a \<noteq> None"
      "\<And>a i c. sp_share P' a = Some (i, c) \<Longrightarrow> sp_ctrl P' c \<noteq> None"
      "\<And>c. c \<in> X \<Longrightarrow> c \<notin> X' \<Longrightarrow> sp_ctrl P' c = None"
    and X': "X' \<subseteq> X"
  shows "shape_inv X' P'"
proof -
  have c: "sp_ctrl P' a = Some x \<Longrightarrow> sp_ctrl P a = Some x" for a x using sub(1) by (auto simp: map_le_def dom_def)
  have s: "sp_share P' a = Some x \<Longrightarrow> sp_share P a = Some x" for a x using sub(2) by (auto simp: map_le_def dom_def)
  have w: "sp_worker P' a = Some x \<Longrightarrow> sp_worker P a = Some x" for a x using sub(3) by (auto simp: map_le_def dom_def)
  have c': "sp_share P' a = Some (i, k) \<Longrightarrow> sp_ctrl P' k = sp_ctrl P k" for a i k
    using held(2) [of a i k] c by fastforce
  note i = shape_invD [OF inv]
  have 1: "\<forall>c u ss. sp_ctrl P' c = Some (u, ss) \<longrightarrow>
      (c \<notin> X' \<longrightarrow> map_find u (sp_ctrls P) = Some c) \<and> map_ok ss \<and> c < sp_next P \<and>
      (\<forall>a\<in>snd ` set ss. a < sp_next P)"
  proof (intro allI impI)
    fix d u ss
    assume d: "sp_ctrl P' d = Some (u, ss)"
    then have "sp_ctrl P d = Some (u, ss)" by (rule c)
    then show "(d \<notin> X' \<longrightarrow> map_find u (sp_ctrls P) = Some d) \<and> map_ok ss \<and> d < sp_next P \<and>
      (\<forall>a\<in>snd ` set ss. a < sp_next P)"
      using i(5) held(3) [of d] d by (metis option.distinct(1))
  qed
  have 2: "\<forall>a i c. sp_share P' a = Some (i, c) \<longrightarrow>
      map_find i (sp_shares P) = Some a \<and> a < sp_next P \<and> c \<notin> X' \<and>
      (\<exists>u ss. sp_ctrl P' c = Some (u, ss) \<and> map_find i ss = Some a)"
    using i(6) s c' X' by (metis subsetD)
  have 3: "\<forall>w a. sp_worker P' w = Some a \<longrightarrow> w < sp_next P \<and> sp_share P' a \<noteq> None"
    using i(7) w held(1) by metis
  have 4: "\<forall>k. sp_conn P' k \<longrightarrow> k < sp_next P \<and> k \<in> set (sp_sockets P)"
    using i(8) sub(4) by metis
  have 5: "\<forall>a\<in>set (sp_addrs P'). a < sp_next P" using i(10) same(6) by (metis subsetD)
  have 6: "\<forall>i a j c. map_find i (sp_shares P) = Some a \<longrightarrow> sp_share P' a = Some (j, c) \<longrightarrow> j = i"
    using i(11) s by metis
  show ?thesis
    using i(1-4) same(1-5) 1 2 3 4 5 6 unfolding shape_inv_def by simp
qed

lemma hkeep_addrs: "distinct (map fst h) \<Longrightarrow> distinct (map fst (hkeep P h))" "set (map fst (hkeep P h)) \<subseteq> set (map fst h)"
  by (auto simp: hkeep_def distinct_map intro: inj_on_subset)

lemma hget_collect_worker:
  "hget (hp_workers (collect_workers S)) w = Some wk \<longleftrightarrow> hget (hp_workers S) w = Some wk \<and> worker_held wk"
  by (auto simp: collect_workers_def Let_def hget_keep split: option.split)

lemma hget_collect_shares_nr:
  "hget (hp_shares (collect_workers S)) a = None \<longleftrightarrow> hget (hp_shares S) a = None"
  by (simp add: collect_workers_def Let_def hget_map_snd)

lemma server_inv_collect_workers:
  assumes "server_inv X S"
  shows "server_inv X (collect_workers S)"
proof (rule shape_inv_shrink [OF assms])
  have "distinct (map fst (hp_shares S))" using server_inv_sets(3) [OF assms] .
  then show "distinct (sp_addrs (shape (collect_workers S)))"
    by (simp add: collect_workers_def Let_def comp_def case_prod_unfold)
  show "sp_share (shape (collect_workers S)) a \<noteq> None"
    if prem: "sp_worker (shape (collect_workers S)) w = Some a" for w a
  proof -
    obtain wk where "hget (hp_workers S) w = Some wk" "w_share wk = a"
      using prem by (auto simp: hget_collect_worker)
    then show ?thesis using server_inv_worker [OF assms] hget_collect_shares_nr [of S a] by fastforce
  qed
  show "sp_ctrl (shape (collect_workers S)) c \<noteq> None"
    if prem: "sp_share (shape (collect_workers S)) a = Some (i, c)" for a i c
  proof -
    obtain s where "hget (hp_shares S) a = Some s" "shr_ctrl s = c"
      using prem by (auto simp: collect_workers_def Let_def hget_map_snd)
    then show ?thesis using server_inv_share [OF assms] by (fastforce simp: collect_workers_def Let_def)
  qed
  show "set (sp_addrs (shape (collect_workers S))) \<subseteq> set (sp_addrs (shape S))"
    by (force simp: collect_workers_def Let_def)
qed (auto simp: collect_workers_def Let_def hget_map_snd hget_keep map_le_def live_def
    split: option.splits if_splits)

lemma worker_holds_share:
  "hget (hp_workers S) w = Some wk \<Longrightarrow> share_held S (w_share wk) s"
  by (auto simp: share_held_def list_ex_iff dest: hget_set)

lemma server_inv_collect_shares:
  assumes "server_inv X S"
  shows "server_inv X (collect_shares S)"
proof (rule shape_inv_shrink [OF assms])
  show "distinct (sp_addrs (shape (collect_shares S)))"
    using server_inv_sets(3) [OF assms] by (simp add: collect_shares_def hkeep_addrs)
  show "set (sp_addrs (shape (collect_shares S))) \<subseteq> set (sp_addrs (shape S))"
    using hkeep_addrs(2) by (simp add: collect_shares_def)
  show "sp_share (shape (collect_shares S)) a \<noteq> None"
    if "sp_worker (shape (collect_shares S)) w = Some a" for w a
    using that server_inv_worker [OF assms, of w] worker_holds_share [of S w]
    by (fastforce simp: collect_shares_def hget_keep split: option.splits)
  show "sp_ctrl (shape (collect_shares S)) c \<noteq> None"
    if "sp_share (shape (collect_shares S)) a = Some (i, c)" for a i c
    using that server_inv_share [OF assms, of a]
    by (fastforce simp: collect_shares_def hget_keep split: option.splits if_splits)
qed (auto simp: collect_shares_def hget_keep map_le_def live_def split: option.splits if_splits)

lemma share_holds_ctrl:
  "hget (hp_shares S) a = Some s \<Longrightarrow> ctrl_held S (shr_ctrl s) ct"
  by (auto simp: ctrl_held_def list_ex_iff dest: hget_set)

lemma server_inv_collect_ctrls:
  assumes "server_inv X S" "\<And>c ct. c \<in> X \<Longrightarrow> hget (hp_ctrls S) c = Some ct \<Longrightarrow> \<not> ctrl_held S c ct"
  shows "server_inv {} (collect_ctrls S)"
proof (rule shape_inv_shrink [OF assms(1)])
  show "distinct (sp_addrs (shape (collect_ctrls S)))"
    using server_inv_sets(3) [OF assms(1)] by (simp add: collect_ctrls_def)
  show "sp_share (shape (collect_ctrls S)) a \<noteq> None"
    if "sp_worker (shape (collect_ctrls S)) w = Some a" for w a
    using that server_inv_worker [OF assms(1), of w] by (fastforce simp: collect_ctrls_def)
  show "sp_ctrl (shape (collect_ctrls S)) c \<noteq> None"
    if "sp_share (shape (collect_ctrls S)) a = Some (i, c)" for a i c
    using that server_inv_share [OF assms(1), of a] share_holds_ctrl [of S a]
    by (fastforce simp: collect_ctrls_def hget_keep split: option.splits)
  show "sp_ctrl (shape (collect_ctrls S)) c = None" if "c \<in> X" for c
    using that assms(2) [of c] by (auto simp: collect_ctrls_def hget_keep split: option.split)
qed (auto simp: collect_ctrls_def hget_keep map_le_def live_def split: option.splits if_splits)

lemma server_inv_collect_conns:
  assumes "server_inv X S"
  shows "server_inv X (collect_conns S)"
proof (rule shape_inv_shrink [OF assms])
  show "distinct (sp_addrs (shape (collect_conns S)))"
    using server_inv_sets(3) [OF assms] by (simp add: collect_conns_def)
  show "sp_share (shape (collect_conns S)) a \<noteq> None"
    if "sp_worker (shape (collect_conns S)) w = Some a" for w a
    using that server_inv_worker [OF assms, of w] by (fastforce simp: collect_conns_def)
  show "sp_ctrl (shape (collect_conns S)) c \<noteq> None"
    if "sp_share (shape (collect_conns S)) a = Some (i, c)" for a i c
    using that server_inv_share [OF assms, of a] by (fastforce simp: collect_conns_def)
qed (auto simp: collect_conns_def hget_keep map_le_def live_def split: option.splits if_splits)

lemma server_inv_collect:
  assumes "server_inv X S"
    and "\<And>c ct. c \<in> X \<Longrightarrow> hget (hp_ctrls S) c = Some ct \<Longrightarrow> ct_recv ct = recv_done \<and> ct_send ct = cs_done"
  shows "server_inv {} (collect S)"
proof -
  let ?S = "collect_shares (collect_workers S)"
  have i: "server_inv X ?S" by (intro server_inv_collect_shares server_inv_collect_workers assms(1))
  have "\<not> ctrl_held ?S c ct" if c: "c \<in> X" "hget (hp_ctrls ?S) c = Some ct" for c ct
  proof -
    have "ct_recv ct = recv_done \<and> ct_send ct = cs_done"
      using c assms(2) by (simp add: collect_shares_def collect_workers_def Let_def)
    moreover have "shr_ctrl s \<noteq> c" if "(a, s) \<in> set (hp_shares ?S)" for a s
    proof -
      have "hget (hp_shares ?S) a = Some s" using server_inv_sets(3) [OF i] that by (simp add: hget_def)
      then show ?thesis using server_inv_share [OF i] c(1) by blast
    qed
    ultimately show ?thesis by (auto simp: ctrl_held_def list_ex_iff)
  qed
  then show ?thesis
    unfolding collect_def by (intro server_inv_collect_conns server_inv_collect_ctrls [OF i]) auto
qed

section \<open>Registration keeps the invariant\<close>

lemma server_inv_new_ctrl:
  assumes inv: "server_inv {} S"
  shows "server_inv {hp_next S} (S\<lparr>hp_next := Suc (hp_next S),
    hp_ctrls := hnew (hp_next S) (ctrl_new s u) (hp_ctrls S)\<rparr>)" (is "server_inv _ ?S")
proof (rule server_invI)
  note sets = server_inv_sets [OF inv]
  show "map_ok (sv_ctrls ?S)" "map_ok (sv_tcp_shares ?S)" "distinct (map fst (hp_shares ?S))"
    using sets(1-3) by simp_all
  show "c < hp_next ?S" if "(i, c) \<in> set (sv_ctrls ?S)" for i c using that sets(4) [of i c] by simp
  show "a < hp_next ?S" if "(i, a) \<in> set (sv_tcp_shares ?S)" for i a using that sets(5) [of i a] by simp
  show "a < hp_next ?S" if "(a, s) \<in> set (hp_shares ?S)" for a s using that sets(6) [of a s] by simp
  show "k < hp_next ?S \<and> k \<in> set (sv_sockets ?S)" if "live (hp_conns ?S) k" for k
    using that sets(7) [of k] by simp
  show "w < hp_next ?S \<and> live (hp_shares ?S) (w_share wk)" if "hget (hp_workers ?S) w = Some wk" for w wk
    using that server_inv_worker [OF inv, of w wk] by (auto simp: live_def)
  show "map_find (shr_id s) (sv_tcp_shares ?S) = Some a \<and> shr_ctrl s \<notin> {hp_next S} \<and>
      (\<exists>ct. hget (hp_ctrls ?S) (shr_ctrl s) = Some ct \<and> map_find (shr_id s) (ct_shares ct) = Some a)"
    if "hget (hp_shares ?S) a = Some s" for a s
    using that server_inv_share [OF inv, of a s] server_inv_ctrl [OF inv, of "shr_ctrl s"] by fastforce
  show "(c \<notin> {hp_next S} \<longrightarrow> map_find (ct_uuid ct) (sv_ctrls ?S) = Some c) \<and> map_ok (ct_shares ct) \<and>
      c < hp_next ?S \<and> (\<forall>(i, a)\<in>set (ct_shares ct). a < hp_next ?S)"
    if "hget (hp_ctrls ?S) c = Some ct" for c ct
    using that server_inv_ctrl [OF inv, of c ct]
    by (cases "c = hp_next S") (fastforce simp: ctrl_new_def less_Suc_eq)+
  show "shr_id s = i" if "map_find i (sv_tcp_shares ?S) = Some a" "hget (hp_shares ?S) a = Some s" for i a s
    using that server_inv_named [OF inv, of i a s] by simp
qed

lemma server_inv_register_ctrl:
  assumes "server_inv {c} S" "hget (hp_ctrls S) c = Some ct" "register_ctrl c (ct_uuid ct) S = (None, S')"
  shows "server_inv {} S'"
proof -
  let ?u = "ct_uuid ct"
  have dead: "\<not> live (hp_ctrls S) c'" if "map_find ?u (sv_ctrls S) = Some c'" for c'
    using that assms(3) by (auto simp: register_ctrl_def split: option.splits if_splits)
  define m where "m = sv_ctrls S'"
  have S': "S' = S\<lparr>sv_ctrls := m\<rparr>" and ok: "map_ok m" and find: "map_find ?u m = Some c"
    and others: "\<And>i. i \<noteq> ?u \<Longrightarrow> map_find i m = map_find i (sv_ctrls S)"
    using server_inv_sets(1) [OF assms(1)] assms(3) unfolding m_def
    by (auto simp: register_ctrl_def find_emplace find_assign split: option.splits if_splits)
  have addr: "d < hp_next S" if "(i, d) \<in> set m" for i d
  proof (cases "i = ?u")
    case True
    then show ?thesis
      using that find ok server_inv_ctrl [OF assms(1,2)] set_map_find [OF ok] by auto
  next
    case False
    then have "(i, d) \<in> set (sv_ctrls S)" using that others ok set_map_find map_find_set by metis
    then show ?thesis by (rule server_inv_sets(4) [OF assms(1)])
  qed
  have reg: "map_find (ct_uuid dt) m = Some d" if "hget (hp_ctrls S) d = Some dt" for d dt
  proof (cases "ct_uuid dt = ?u")
    case True
    then have "d = c" using server_inv_ctrl [OF assms(1) that] dead that by (auto simp: live_def)
    then show ?thesis using find True by simp
  next
    case False
    then have "d \<noteq> c" using that assms(2) by auto
    then show ?thesis using server_inv_ctrl [OF assms(1) that] others [OF False] by simp
  qed
  note sets = server_inv_sets [OF assms(1)]
  show ?thesis unfolding S'
  proof (rule server_invI)
    show "w < hp_next (S\<lparr>sv_ctrls := m\<rparr>) \<and> live (hp_shares (S\<lparr>sv_ctrls := m\<rparr>)) (w_share wk)"
      if "hget (hp_workers (S\<lparr>sv_ctrls := m\<rparr>)) w = Some wk" for w wk
      using that server_inv_worker [OF assms(1), of w wk] by (auto simp: live_def)
    show "(d \<notin> {} \<longrightarrow> map_find (ct_uuid dt) (sv_ctrls (S\<lparr>sv_ctrls := m\<rparr>)) = Some d) \<and> map_ok (ct_shares dt) \<and>
      d < hp_next (S\<lparr>sv_ctrls := m\<rparr>) \<and> (\<forall>(i, a)\<in>set (ct_shares dt). a < hp_next (S\<lparr>sv_ctrls := m\<rparr>))"
      if "hget (hp_ctrls (S\<lparr>sv_ctrls := m\<rparr>)) d = Some dt" for d dt
      using that server_inv_ctrl [OF assms(1), of d dt] reg by auto
    show "shr_id s = i" if "map_find i (sv_tcp_shares (S\<lparr>sv_ctrls := m\<rparr>)) = Some a"
        "hget (hp_shares (S\<lparr>sv_ctrls := m\<rparr>)) a = Some s" for i a s
      using that server_inv_named [OF assms(1), of i a s] by simp
  qed (use sets ok addr server_inv_share [OF assms(1)] in \<open>auto\<close>)
qed

definition ctrl_fresh :: "server \<Rightarrow> nat \<Rightarrow> bool" where
  "ctrl_fresh S c \<longleftrightarrow> (\<exists>ct. hget (hp_ctrls S) c = Some ct \<and>
    (\<forall>(i, a)\<in>set (ct_shares ct). \<exists>s. hget (hp_shares S) a = Some s \<and> shr_id s = i))"

text \<open>What a registered share adds to the state.\<close>

lemma register_share_new:
  assumes "register_share c it S = (None, S')"
  shows "\<exists>m. S' = S\<lparr>hp_next := Suc (hp_next S),
      hp_shares := hnew (hp_next S) (share_new c (ts_id it) (ts_port it)) (hp_shares S),
      hp_ctrls := hupd c (\<lambda>ct. ct\<lparr>ct_shares := map_emplace (ts_id it) (hp_next S) (ct_shares ct)\<rparr>) (hp_ctrls S),
      sv_tcp_shares := m\<rparr> \<and>
    (map_ok (sv_tcp_shares S) \<longrightarrow> map_ok m \<and> map_find (ts_id it) m = Some (hp_next S) \<and>
      (\<forall>i. i \<noteq> ts_id it \<longrightarrow> map_find i m = map_find i (sv_tcp_shares S))) \<and>
    (\<forall>a. map_find (ts_id it) (sv_tcp_shares S) = Some a \<longrightarrow> \<not> live (hp_shares S) a)"
  using assms
  by (auto simp: register_share_def add_tcp_share_def upd_ctrl_def Let_def find_emplace find_assign
      split: option.splits if_splits)

lemma register_share_error:
  "register_share c it S = (Some e, S') \<Longrightarrow> S' = S \<and> e = duplicate_tcp_share (ts_id it) \<and>
    (\<exists>a. map_find (ts_id it) (sv_tcp_shares S) = Some a \<and> live (hp_shares S) a)"
  by (auto simp: register_share_def add_tcp_share_def Let_def split: option.splits if_splits)

lemma ctrl_fresh_unlisted:
  assumes "server_inv X S" "ctrl_fresh S c" "hget (hp_ctrls S) c = Some ct"
    and "\<forall>a. map_find i (sv_tcp_shares S) = Some a \<longrightarrow> \<not> live (hp_shares S) a"
  shows "map_find i (ct_shares ct) = None"
proof (rule ccontr)
  assume "map_find i (ct_shares ct) \<noteq> None"
  then obtain a where "(i, a) \<in> set (ct_shares ct)" using map_find_set by fastforce
  then obtain s where s: "hget (hp_shares S) a = Some s" "shr_id s = i"
    using assms(2,3) by (fastforce simp: ctrl_fresh_def)
  then show False using server_inv_share [OF assms(1) s(1)] assms(4) by (auto simp: live_def)
qed

lemma server_inv_register_share:
  assumes inv: "server_inv {} S" and fresh: "ctrl_fresh S c" and reg: "register_share c it S = (None, S')"
  shows "server_inv {} S' \<and> ctrl_fresh S' c"
proof -
  let ?a = "hp_next S" and ?i = "ts_id it"
  obtain m where S': "S' = S\<lparr>hp_next := Suc ?a,
      hp_shares := hnew ?a (share_new c ?i (ts_port it)) (hp_shares S),
      hp_ctrls := hupd c (\<lambda>ct. ct\<lparr>ct_shares := map_emplace ?i ?a (ct_shares ct)\<rparr>) (hp_ctrls S),
      sv_tcp_shares := m\<rparr>"
    and m: "map_ok m" "map_find ?i m = Some ?a" "\<And>i. i \<noteq> ?i \<Longrightarrow> map_find i m = map_find i (sv_tcp_shares S)"
    and dead: "\<forall>a. map_find ?i (sv_tcp_shares S) = Some a \<longrightarrow> \<not> live (hp_shares S) a"
    using register_share_new [OF reg] server_inv_sets(2) [OF inv] by blast
  note sets = server_inv_sets [OF inv]
  obtain ct where ct: "hget (hp_ctrls S) c = Some ct" using fresh by (auto simp: ctrl_fresh_def)
  have ctok: "map_ok (ct_shares ct)" using server_inv_ctrl [OF inv ct] by simp
  have none: "map_find ?i (ct_shares ct) = None" by (rule ctrl_fresh_unlisted [OF inv fresh ct dead])
  have maddr: "a < Suc ?a" if "(i, a) \<in> set m" for i a
  proof (cases "i = ?i")
    case True
    then show ?thesis using that m(1,2) set_map_find [OF m(1)] by auto
  next
    case False
    then have "map_find i (sv_tcp_shares S) = Some a" using that m set_map_find [OF m(1)] by metis
    then show ?thesis using sets(5) map_find_set by (metis less_SucI)
  qed
  have old: "map_find (shr_id s) m = Some b" if "hget (hp_shares S) b = Some s" for b s
  proof -
    have f: "map_find (shr_id s) (sv_tcp_shares S) = Some b" using server_inv_share [OF inv that] by blast
    then have "shr_id s \<noteq> ?i" using dead that by (auto simp: live_def)
    then show ?thesis using f m(3) by simp
  qed
  have "server_inv {} S'"
  proof (rule server_invI)
    show "map_ok (sv_ctrls S')" "map_ok (sv_tcp_shares S')" using sets(1) m(1) by (simp_all add: S')
    have "?a \<notin> fst ` set (hp_shares S)" using sets(6) by fastforce
    then show "distinct (map fst (hp_shares S'))" using sets(3) by (simp add: S' hnew_def)
    show "d < hp_next S'" if "(i, d) \<in> set (sv_ctrls S')" for i d using that sets(4) [of i d] by (simp add: S')
    show "b < hp_next S'" if "(i, b) \<in> set (sv_tcp_shares S')" for i b using that maddr by (simp add: S')
    show "b < hp_next S'" if "(b, s) \<in> set (hp_shares S')" for b s
      using that sets(6) [of b s] by (auto simp: S' hnew_def)
    show "k < hp_next S' \<and> k \<in> set (sv_sockets S')" if "live (hp_conns S') k" for k
      using that sets(7) [of k] by (simp add: S')
    show "w < hp_next S' \<and> live (hp_shares S') (w_share wk)" if "hget (hp_workers S') w = Some wk" for w wk
      using that server_inv_worker [OF inv, of w wk] by (auto simp: S' live_def)
    show "map_find (shr_id s) (sv_tcp_shares S') = Some b \<and> shr_ctrl s \<notin> {} \<and>
        (\<exists>ct. hget (hp_ctrls S') (shr_ctrl s) = Some ct \<and> map_find (shr_id s) (ct_shares ct) = Some b)"
      if b: "hget (hp_shares S') b = Some s" for b s
    proof (cases "b = ?a")
      case True
      then have "s = share_new c ?i (ts_port it)" using b by (simp add: S')
      then show ?thesis using True m(2) ct none ctok by (simp add: S' share_new_def find_emplace)
    next
      case False
      then have s: "hget (hp_shares S) b = Some s" using b by (simp add: S')
      obtain dt where dt: "hget (hp_ctrls S) (shr_ctrl s) = Some dt" "map_find (shr_id s) (ct_shares dt) = Some b"
        using server_inv_share [OF inv s] by blast
      have "map_ok (ct_shares dt)" using server_inv_ctrl [OF inv dt(1)] by blast
      then show ?thesis using dt old [OF s] ct none
        by (auto simp: S' find_emplace)
    qed
    show "shr_id s = i" if b: "map_find i (sv_tcp_shares S') = Some b" "hget (hp_shares S') b = Some s" for i b s
    proof (cases "i = ?i")
      case True
      then show ?thesis using b m(2) by (auto simp: S' share_new_def)
    next
      case False
      then have f: "map_find i (sv_tcp_shares S) = Some b" using b(1) m(3) by (simp add: S')
      then have "b \<noteq> ?a" using sets(5) [OF map_find_set [OF f]] by simp
      then show ?thesis using b(2) server_inv_named [OF inv f, of s] by (simp add: S')
    qed
    show "(d \<notin> {} \<longrightarrow> map_find (ct_uuid dt) (sv_ctrls S') = Some d) \<and> map_ok (ct_shares dt) \<and> d < hp_next S' \<and>
        (\<forall>(i, b)\<in>set (ct_shares dt). b < hp_next S')"
      if d: "hget (hp_ctrls S') d = Some dt" for d dt
    proof -
      obtain et where et: "hget (hp_ctrls S) d = Some et" "ct_uuid dt = ct_uuid et"
          "ct_shares dt = (if d = c then map_emplace ?i ?a (ct_shares et) else ct_shares et)"
        using d by (auto simp: S' split: if_splits)
      note e = server_inv_ctrl [OF inv et(1)]
      have eok: "map_ok (map_emplace ?i ?a (ct_shares et))" using e by simp
      have "b < Suc ?a" if "(i, b) \<in> set (map_emplace ?i ?a (ct_shares et))" for i b
      proof -
        have "map_find i (map_emplace ?i ?a (ct_shares et)) = Some b" using that eok by (simp add: set_map_find)
        then have "b = ?a \<or> map_find i (ct_shares et) = Some b"
          using e by (auto simp: find_emplace split: if_splits)
        then show ?thesis using e map_find_set [of i "ct_shares et" b] by force
      qed
      moreover have "b < Suc ?a" if "(i, b) \<in> set (ct_shares et)" for i b using that e by force
      ultimately show ?thesis using e et eok by (auto simp: S')
    qed
  qed
  moreover have "ctrl_fresh S' c"
  proof -
    have listed: "\<exists>s. hget (hp_shares S') b = Some s \<and> shr_id s = i"
      if "(i, b) \<in> set (map_emplace ?i ?a (ct_shares ct))" for i b
    proof -
      have "map_find i (map_emplace ?i ?a (ct_shares ct)) = Some b" using that ctok by (simp add: set_map_find)
      then have "(i = ?i \<and> b = ?a) \<or> (i, b) \<in> set (ct_shares ct)"
        using ctok by (auto simp: find_emplace map_find_set split: if_splits)
      moreover have "b \<noteq> ?a" if "(i, b) \<in> set (ct_shares ct)"
        using that server_inv_ctrl [OF inv ct] by force
      ultimately show ?thesis using fresh ct by (auto simp: ctrl_fresh_def S' share_new_def)
    qed
    have "hget (hp_ctrls S') c = Some (ct\<lparr>ct_shares := map_emplace ?i ?a (ct_shares ct)\<rparr>)"
      using ct by (simp add: S')
    then show ?thesis using listed unfolding ctrl_fresh_def by auto
  qed
  ultimately show ?thesis ..
qed

lemma server_inv_register_shares:
  "server_inv {} S \<Longrightarrow> ctrl_fresh S c \<Longrightarrow> register_shares c its S = (r, S') \<Longrightarrow> server_inv {} S'"
proof (induction its arbitrary: S)
  case (Cons it its)
  show ?case
  proof (cases "register_share c it S")
    case (Pair x T)
    show ?thesis
    proof (cases x)
      case None
      then have reg: "register_share c it S = (None, T)" "register_shares c its T = (r, S')"
        using Pair Cons.prems(3) by auto
      show ?thesis
        using server_inv_register_share [OF Cons.prems(1,2) reg(1)] Cons.IH [OF _ _ reg(2)] by blast
    next
      case (Some e)
      then show ?thesis using Pair Cons.prems register_share_error [of c it S e T] by simp
    qed
  qed
qed simp

lemma register_ctrl_error: "register_ctrl c u S = (Some e, S') \<Longrightarrow> S' = S \<and> e = duplicate_client"
  by (auto simp: register_ctrl_def split: option.splits if_splits)

lemma server_inv_shape: "shape S' = shape S \<Longrightarrow> server_inv X S \<Longrightarrow> server_inv X S'"
  by simp

text \<open>After a hello at most one controller is unregistered, the one that was refused.\<close>

lemma hello_client_inv:
  assumes inv: "server_inv {} S" and h: "hello_client J wm now k hello S = (r, S')"
  shows "\<exists>X. server_inv X S' \<and>
    (\<forall>c\<in>X. \<forall>ct. hget (hp_ctrls S') c = Some ct \<longrightarrow> ct_recv ct = recv_done \<and> ct_send ct = cs_done)"
proof (cases "hget (hp_conns S) k")
  case None
  then show ?thesis using assms by (auto simp: hello_client_def)
next
  case (Some cn)
  let ?c = "hp_next S" and ?u = "ch_client_uuid hello"
  let ?T = "upd_conn k (\<lambda>cn. cn\<lparr>cn_sock := sock_moved\<rparr>) (S\<lparr>hp_next := Suc ?c,
    hp_ctrls := hnew ?c (ctrl_new (cn_sock cn) ?u) (hp_ctrls S)\<rparr>)"
  have T: "server_inv {?c} ?T" using server_inv_new_ctrl [OF inv] by (simp add: shape_upd_conn)
  have c: "hget (hp_ctrls ?T) ?c = Some (ctrl_new (cn_sock cn) ?u)" by (simp add: upd_conn_def)
  have u: "ct_uuid (ctrl_new (cn_sock cn) ?u) = ?u" by (simp add: ctrl_new_def)
  obtain r1 T1 where r1: "register_ctrl ?c ?u ?T = (r1, T1)" by fastforce
  show ?thesis
  proof (cases r1)
    case (Some e)
    then have "S' = ?T"
      using h r1 \<open>hget (hp_conns S) k = Some cn\<close> register_ctrl_error [of ?c ?u ?T e T1]
      by (simp add: hello_client_def Let_def)
    then show ?thesis using T c by (intro exI [of _ "{?c}"]) (simp add: ctrl_new_def)
  next
    case None
    have T1: "server_inv {} T1" using server_inv_register_ctrl [OF T c] r1 None u by simp
    have "hp_ctrls T1 = hp_ctrls ?T"
      using r1 None by (auto simp: register_ctrl_def split: option.splits if_splits)
    then have f: "ctrl_fresh T1 ?c" using c by (simp add: ctrl_fresh_def ctrl_new_def)
    obtain r2 T2 where r2: "register_shares ?c (ch_tcp_shares hello) T1 = (r2, T2)" by fastforce
    have T2: "server_inv {} T2" by (rule server_inv_register_shares [OF T1 f r2])
    have "shape S' = shape T2"
      using h r1 r2 None \<open>hget (hp_conns S) k = Some cn\<close>
      by (cases r2) (auto simp: hello_client_def Let_def shape_upd_conn shape_upd_ctrl)
    then show ?thesis using T2 by (intro exI [of _ "{}"]) simp
  qed
qed

lemma hello_worker_inv:
  assumes inv: "server_inv {} S" and h: "hello_worker now k hello S = (r, S')"
  shows "server_inv {} S'"
proof (cases "\<exists>a cn. map_find (wh_tcp_share_id hello) (sv_tcp_shares S) = Some a \<and> live (hp_shares S) a \<and>
    hget (hp_conns S) k = Some cn")
  case True
  then obtain a cn where a: "map_find (wh_tcp_share_id hello) (sv_tcp_shares S) = Some a" "live (hp_shares S) a"
    "hget (hp_conns S) k = Some cn"
    by blast
  let ?S = "S\<lparr>hp_next := Suc (hp_next S), hp_workers :=
    hnew (hp_next S) (worker_run now (worker_new (cn_sock cn) (wh_worker_id hello) a)) (hp_workers S)\<rparr>"
  have "shape S' = shape ?S"
    using h a by (auto simp: hello_worker_def Let_def shape_upd_share shape_upd_conn)
  moreover have "server_inv {} ?S"
  proof (rule server_invI)
    note sets = server_inv_sets [OF inv]
    show "map_ok (sv_ctrls ?S)" "map_ok (sv_tcp_shares ?S)" "distinct (map fst (hp_shares ?S))"
      using sets(1-3) by simp_all
    show "d < hp_next ?S" if "(i, d) \<in> set (sv_ctrls ?S)" for i d using that sets(4) [of i d] by simp
    show "b < hp_next ?S" if "(i, b) \<in> set (sv_tcp_shares ?S)" for i b using that sets(5) [of i b] by simp
    show "b < hp_next ?S" if "(b, s) \<in> set (hp_shares ?S)" for b s using that sets(6) [of b s] by simp
    show "k < hp_next ?S \<and> k \<in> set (sv_sockets ?S)" if "live (hp_conns ?S) k" for k
      using that sets(7) [of k] by simp
    have w: "w_share (worker_run now (worker_new (cn_sock cn) (wh_worker_id hello) a)) = a"
      by (simp add: worker_run_def worker_new_def worker_ops)
    show "w < hp_next ?S \<and> live (hp_shares ?S) (w_share wk)" if "hget (hp_workers ?S) w = Some wk" for w wk
      using that w a(2) server_inv_worker [OF inv, of w wk] by (auto simp: live_def split: if_splits)
    show "map_find (shr_id s) (sv_tcp_shares ?S) = Some b \<and> shr_ctrl s \<notin> {} \<and>
        (\<exists>ct. hget (hp_ctrls ?S) (shr_ctrl s) = Some ct \<and> map_find (shr_id s) (ct_shares ct) = Some b)"
      if "hget (hp_shares ?S) b = Some s" for b s
      using that server_inv_share [OF inv, of b s] by simp
    show "(d \<notin> {} \<longrightarrow> map_find (ct_uuid dt) (sv_ctrls ?S) = Some d) \<and> map_ok (ct_shares dt) \<and> d < hp_next ?S \<and>
        (\<forall>(i, b)\<in>set (ct_shares dt). b < hp_next ?S)"
      if "hget (hp_ctrls ?S) d = Some dt" for d dt
      using that server_inv_ctrl [OF inv, of d dt] by fastforce
    show "shr_id s = i" if "map_find i (sv_tcp_shares ?S) = Some b" "hget (hp_shares ?S) b = Some s" for i b s
      using that server_inv_named [OF inv, of i b s] by simp
  qed
  ultimately show ?thesis by simp
next
  case False
  then have "S' = S" using h by (auto simp: hello_worker_def split: option.splits if_splits)
  then show ?thesis using inv by simp
qed

lemma hp_ctrls_conn [simp]:
  "hp_ctrls (upd_conn k f S) = hp_ctrls S" "hp_ctrls (conn_try_stop k S) = hp_ctrls S"
  "hp_ctrls (conn_handle_error e k S) = hp_ctrls S"
  by (simp_all add: upd_conn_def conn_try_stop_def conn_handle_error_def split: option.split)

text \<open>The states after which \<open>collect\<close> restores the invariant.\<close>

definition nearly_inv :: "server \<Rightarrow> bool" where
  "nearly_inv S \<longleftrightarrow> (\<exists>X. server_inv X S \<and>
    (\<forall>c\<in>X. \<forall>ct. hget (hp_ctrls S) c = Some ct \<longrightarrow> ct_recv ct = recv_done \<and> ct_send ct = cs_done))"

lemma nearly_inv_collect: "nearly_inv S \<Longrightarrow> server_inv {} (collect S)"
  unfolding nearly_inv_def using server_inv_collect by blast

lemma nearly_invI: "server_inv {} S \<Longrightarrow> nearly_inv S"
  unfolding nearly_inv_def by blast

lemma nearly_inv_shape: "nearly_inv S \<Longrightarrow> shape S' = shape S \<Longrightarrow> hp_ctrls S' = hp_ctrls S \<Longrightarrow> nearly_inv S'"
  by (simp add: nearly_inv_def)

lemma hello_msg_inv: "server_inv {} S \<Longrightarrow> hello_msg J wm now k m S = (r, S') \<Longrightarrow> nearly_inv S'"
  by (cases m)
    (auto simp: nearly_inv_def dest: hello_client_inv hello_worker_inv intro: exI [of _ "{}"])

lemma conn_on_hello_inv: "server_inv {} S \<Longrightarrow> nearly_inv (conn_on_hello J wm now k r S)"
proof -
  assume inv: "server_inv {} S"
  let ?S = "upd_conn k (\<lambda>cn. cn\<lparr>cn_recv := False\<rparr>) S"
  have S: "server_inv {} ?S" using inv by (simp add: shape_upd_conn)
  show ?thesis
  proof (cases "ebind r (unmarshal_msg J [T_client_hello, T_worker_hello])")
    case (Inl e)
    then show ?thesis using S by (simp add: conn_on_hello_def nearly_invI)
  next
    case (Inr m)
    obtain x T where T: "hello_msg J wm now k m ?S = (x, T)" by fastforce
    have n: "nearly_inv T" by (rule hello_msg_inv [OF S T])
    show ?thesis
      using T Inr
      by (cases x) (auto simp: conn_on_hello_def shape_upd_conn intro: nearly_inv_shape [OF n])
  qed
qed

lemma got_worker_shape [simp]: "shape (got_worker a w S) = shape S"
  by (simp add: got_worker_def cleanup_workers_def shape_upd_share Let_def split: option.split)

lemma share_resume_shape [simp]: "shape (share_resume J now r epoch cpl a S) = shape S"
proof (cases cpl)
  case (wait_done g w)
  then show ?thesis by (cases g) (simp_all add: shape_upd_share shape_upd_worker)
qed simp_all

lemma share_run_closure_keys [simp]:
  "shr_id (share_run_closure i s) = shr_id s" "shr_ctrl (share_run_closure i s) = shr_ctrl s"
  by (simp_all add: share_run_closure_def split: prod.split)

lemma run_forwarder_shape [simp]:
  "shape (run_forwarder_start a r S) = shape S" "shape (run_forwarder_end a e S) = shape S"
  by (simp_all add: run_forwarder_start_def run_forwarder_end_def shape_upd_share split: sum.split)

lemma handle_socket_inv:
  assumes inv: "server_inv {} S"
  shows "server_inv {} (handle_socket now S)"
proof -
  let ?k = "hp_next S"
  let ?cn = "\<lparr>cn_sock = sock_open, cn_ddl = None, cn_stopping = False, cn_finished = False,
      cn_recv = False, cn_timer = False\<rparr>"
  let ?S = "S\<lparr>hp_next := Suc ?k, hp_conns := hnew ?k ?cn (hp_conns S),
    sv_sockets := filter (live (hnew ?k ?cn (hp_conns S))) (sv_sockets S) @ [?k]\<rparr>"
  note sets = server_inv_sets [OF inv]
  have "server_inv {} ?S"
  proof (rule server_invI)
    show "map_ok (sv_ctrls ?S)" "map_ok (sv_tcp_shares ?S)" "distinct (map fst (hp_shares ?S))"
      using sets(1-3) by simp_all
    show "d < hp_next ?S" if "(i, d) \<in> set (sv_ctrls ?S)" for i d using that sets(4) [of i d] by simp
    show "b < hp_next ?S" if "(i, b) \<in> set (sv_tcp_shares ?S)" for i b using that sets(5) [of i b] by simp
    show "b < hp_next ?S" if "(b, s) \<in> set (hp_shares ?S)" for b s using that sets(6) [of b s] by simp
    show "k < hp_next ?S \<and> k \<in> set (sv_sockets ?S)" if "live (hp_conns ?S) k" for k
      using that sets(7) [of k] by auto
    show "w < hp_next ?S \<and> live (hp_shares ?S) (w_share wk)" if "hget (hp_workers ?S) w = Some wk" for w wk
      using that server_inv_worker [OF inv, of w wk] by (auto simp: live_def)
    show "map_find (shr_id s) (sv_tcp_shares ?S) = Some b \<and> shr_ctrl s \<notin> {} \<and>
        (\<exists>ct. hget (hp_ctrls ?S) (shr_ctrl s) = Some ct \<and> map_find (shr_id s) (ct_shares ct) = Some b)"
      if "hget (hp_shares ?S) b = Some s" for b s
      using that server_inv_share [OF inv, of b s] by simp
    show "(d \<notin> {} \<longrightarrow> map_find (ct_uuid dt) (sv_ctrls ?S) = Some d) \<and> map_ok (ct_shares dt) \<and> d < hp_next ?S \<and>
        (\<forall>(i, b)\<in>set (ct_shares dt). b < hp_next ?S)"
      if "hget (hp_ctrls ?S) d = Some dt" for d dt
      using that server_inv_ctrl [OF inv, of d dt] by fastforce
    show "shr_id s = i" if "map_find i (sv_tcp_shares ?S) = Some b" "hget (hp_shares ?S) b = Some s" for i b s
      using that server_inv_named [OF inv, of i b s] by simp
  qed
  moreover have "handle_socket now S = upd_conn ?k (conn_run now) ?S"
    by (simp add: handle_socket_def cleanup_sockets_def Let_def)
  ultimately show ?thesis by (simp add: shape_upd_conn)
qed

lemma shape_set_worker:
  "hget (hp_workers S) w = Some wk \<Longrightarrow> w_share wk' = w_share wk \<Longrightarrow> shape (upd_worker w (\<lambda>_. wk') S) = shape S"
  by (auto simp: shape_def upd_worker_def fun_eq_iff)

lemma server_act_inv:
  assumes inv: "server_inv {} S" and act: "server_act J wm now ev S = Some S'"
  shows "nearly_inv S'"
proof -
  have hello: ?thesis if "ev = sev_hello k r" for k r
    using act that conn_on_hello_inv [OF inv] by (auto split: option.splits if_splits)
  have acc: ?thesis if "ev = sev_accept r" for r
  proof (cases r)
    case (Inl e)
    then have "shape S' = shape S" using act that by (auto simp: serve_accepted_def split: if_splits)
    then show ?thesis using inv by (simp add: nearly_invI)
  next
    case (Inr u)
    then have "S' = handle_socket now S" using act that by (auto simp: serve_accepted_def split: if_splits)
    then show ?thesis using handle_socket_inv [OF inv] by (simp add: nearly_invI)
  qed
  have other: ?thesis if "\<nexists>k r. ev = sev_hello k r" "\<nexists>r. ev = sev_accept r"
  proof -
    have "shape S' = shape S"
      using act that
      by (cases ev)
        (auto simp: shape_upd_share shape_ctrl_step split: option.splits if_splits
          intro: shape_set_worker w_share_step)
    then show ?thesis using inv by (simp add: nearly_invI)
  qed
  show ?thesis using hello acc other by blast
qed

lemma server_step_inv: "server_inv {} S \<Longrightarrow> server_step J wm now ev S = Some S' \<Longrightarrow> server_inv {} S'"
  by (auto simp: server_step_def dest: server_act_inv nearly_inv_collect)

lemma server_steps_inv:
  "server_steps J wm evs S = Some S' \<Longrightarrow> server_inv {} S \<Longrightarrow> server_inv {} S'"
proof (induction evs arbitrary: S)
  case (Cons a evs)
  obtain now ev where a: "a = (now, ev)" by (cases a)
  with Cons.prems obtain T where "server_step J wm now ev S = Some T" "server_steps J wm evs T = Some S'"
    by (auto split: option.splits)
  then show ?case using Cons.IH server_step_inv Cons.prems(2) by blast
qed simp

lemma server_inv_new: "server_inv {} (server_run server_new)"
  by (simp add: shape_inv_def server_run_def server_new_def live_def)

lemma server_reachable_inv: "server_reachable J wm S \<Longrightarrow> server_inv {} S"
  unfolding server_reachable_def using server_steps_inv server_inv_new by blast

lemma server_steps_append:
  "server_steps J wm (as @ bs) S = Option.bind (server_steps J wm as S) (server_steps J wm bs)"
  by (induction as arbitrary: S) (auto split: option.splits)

lemma server_reachable_steps:
  "server_reachable J wm S \<Longrightarrow> server_steps J wm evs S = Some S' \<Longrightarrow> server_reachable J wm S'"
  unfolding server_reachable_def by (metis server_steps_append bind.bind_lunit)

lemma server_reachable_start: "server_reachable J wm (server_run server_new)"
  unfolding server_reachable_def by (metis server_steps.simps(1))

section \<open>Concrete runs\<close>

text \<open>A hello of the client \<open>A\<close> with one share, and the definitions that a run evaluates.\<close>

definition ssh_hello :: message where
  "ssh_hello = M_client_hello \<lparr>ch_version = 0, ch_client_uuid = ''A'',
     ch_tcp_shares = [\<lparr>ts_id = ''ssh'', ts_port = 22\<rparr>]\<rparr>"

lemmas server_eval = server_step_def server_run_def server_new_def serve_accepted_def handle_socket_def
  cleanup_sockets_def hnew_def hget_def hupd_def live_def hkeep_def upd_conn_def upd_ctrl_def upd_share_def
  upd_worker_def conn_on_hello_def hello_client_def register_ctrl_def register_share_def add_tcp_share_def
  map_find_def conn_try_stop_def conn_handle_error_def conn_on_timer_def ctrl_new_def ctrl_run_def
  ctrl_recv_loop_def ctrl_set_ddl_def share_new_def wq_new_def collect_def collect_conns_def collect_ctrls_def
  collect_shares_def collect_workers_def worker_held_def share_held_def ctrl_held_def conn_held_def queued_def
  ctrl_on_read_def ctrl_handle_error_def ctrl_try_stop_def ctrl_close_def ctrl_post_def stop_shares_def
  share_try_stop_def share_close_def fwd_lock_def share_post_def stop_workers_def run_forwarder_start_def
  hello_worker_def unmarshal_msg_json marshal_msg_plain

text \<open>The state after one client has said hello and its share is up.\<close>

definition one_client :: "(nat \<times> server_event) list" where
  "one_client = [(0, sev_accept (Inr ())), (1, sev_hello 0 (Inr (msg_json ssh_hello))),
    (1, sev_conn_timer 0 (Inl (system_error operation_aborted))), (2, sev_fwd_start 2 (Inr ())),
    (3, sev_accept (Inr ()))]"

definition one_client_state :: server where
  "one_client_state = \<lparr>sv_ctrls = [(''A'', 1)], sv_tcp_shares = [(''ssh'', 2)], sv_sockets = [3],
     sv_accepting = True, sv_serving = True, sv_stopping = False, sv_exit_code = 0,
     hp_ctrls = [(1, \<lparr>ct_sock = sock_open, ct_uuid = ''A'', ct_shares = [(''ssh'', 2)],
       ct_to_send = wq_new, ct_stopping = False, ct_ddl = Some 61, ct_ddl_action = ''recv_msgs()'',
       ct_recv = recv_reading,
       ct_send = cs_hello (msg_json (M_server_hello \<lparr>sh_version = 0, sh_welcome = ''hi''\<rparr>)),
       ct_posted = [], ct_ready = [],
       ct_sent = [msg_json (M_server_hello \<lparr>sh_version = 0, sh_welcome = ''hi''\<rparr>)]\<rparr>)],
     hp_shares = [(2, (share_new 1 ''ssh'' 22)\<lparr>shr_fwd := fwd_running\<rparr>)],
     hp_workers = [],
     hp_conns = [(3, \<lparr>cn_sock = sock_open, cn_ddl = Some 33, cn_stopping = False, cn_finished = False,
       cn_recv = True, cn_timer = True\<rparr>)],
     hp_next = 4\<rparr>"

lemma one_client_run:
  "server_steps plain_json ''hi'' one_client (server_run server_new) = Some one_client_state"
  by (simp add: one_client_def one_client_state_def ssh_hello_def server_eval Let_def)

lemma one_client_reachable: "server_reachable plain_json ''hi'' one_client_state"
  using server_reachable_steps [OF server_reachable_start one_client_run] .

end
