(* ===== verification/Server_Registry.thy ===== *)
theory Server_Registry
  imports Server_Inv
begin

text \<open>
  How the server hands out uuids and share ids (\<open>handle_hello_msg\<close> of
  \<open>include/zrp/server.hpp\<close>): the contract of a registry, kept by both maps of the server,
  what a hello registers, and what a refused one leaves behind.
\<close>

section \<open>The contract of a registry\<close>

text \<open>
  How the server hands out names: a name is granted unless its owner is alive, and nobody
  else is touched.  Both registries of the server, of controllers and of shares, keep this
  contract.
\<close>

locale registry =
  fixes claim :: "'i \<Rightarrow> 's \<Rightarrow> exn option \<times> 's"
    and key :: "'i \<Rightarrow> 'k"
    and owner :: "'s \<Rightarrow> 'k \<Rightarrow> nat option"
    and alive :: "'s \<Rightarrow> nat \<Rightarrow> bool"
    and good :: "'s \<Rightarrow> bool"
  assumes refused: "owner s (key i) = Some a \<Longrightarrow> alive s a \<Longrightarrow> \<exists>e. claim i s = (Some e, s)"
    and granted: "good s \<Longrightarrow> \<not> (\<exists>a. owner s (key i) = Some a \<and> alive s a) \<Longrightarrow>
      \<exists>s' a. claim i s = (None, s') \<and> good s' \<and> owner s' (key i) = Some a \<and> alive s' a \<and>
        (\<forall>k. k \<noteq> key i \<longrightarrow> owner s' k = owner s k \<and> (\<forall>b. owner s k = Some b \<longrightarrow> alive s' b = alive s b))"
begin

definition held :: "'s \<Rightarrow> 'k \<Rightarrow> bool" where
  "held s k \<longleftrightarrow> (\<exists>a. owner s k = Some a \<and> alive s a)"

fun claims :: "'i list \<Rightarrow> 's \<Rightarrow> exn option \<times> 's" where
  "claims [] s = (None, s)"
| "claims (i # is) s = (case claim i s of (Some e, s) \<Rightarrow> (Some e, s) | (None, s) \<Rightarrow> claims is s)"

lemma claim_keeps:
  assumes "good s" "claim i s = (r, s')" "owner s k = Some a" "alive s a"
  shows "good s' \<and> owner s' k = Some a \<and> alive s' a"
proof (cases "held s (key i)")
  case True
  then show ?thesis using refused [of s i] assms by (auto simp: held_def)
next
  case False
  then obtain s'' where s'': "claim i s = (None, s'')" "good s''"
      "\<forall>k. k \<noteq> key i \<longrightarrow> owner s'' k = owner s k \<and> (\<forall>b. owner s k = Some b \<longrightarrow> alive s'' b = alive s b)"
    using granted [OF assms(1)] unfolding held_def by metis
  have "k \<noteq> key i" using False assms(3,4) by (auto simp: held_def)
  then show ?thesis using s'' assms by auto
qed

text \<open>An owner that is alive keeps its name, whatever is claimed.\<close>

lemma claims_keep:
  "good s \<Longrightarrow> owner s k = Some a \<Longrightarrow> alive s a \<Longrightarrow> claims is s = (r, s') \<Longrightarrow>
    owner s' k = Some a \<and> alive s' a"
proof (induction "is" arbitrary: s)
  case (Cons i "is")
  obtain x t where t: "claim i s = (x, t)" by fastforce
  note kept = claim_keeps [OF Cons.prems(1) t Cons.prems(2,3)]
  show ?case
  proof (cases x)
    case None
    then show ?thesis using Cons.IH [of t] kept Cons.prems(4) t by auto
  next
    case (Some e)
    then show ?thesis using kept Cons.prems(4) t by auto
  qed
qed simp

lemma granted_held:
  assumes "good s" "\<not> held s (key i)"
  shows "\<exists>s'. claim i s = (None, s') \<and> good s' \<and> held s' (key i) \<and> (\<forall>k. k \<noteq> key i \<longrightarrow> held s' k = held s k)"
  using granted [of s i] assms unfolding held_def by metis

text \<open>Free and distinct names are all granted.\<close>

lemma claims_granted:
  "good s \<Longrightarrow> distinct (map key is) \<Longrightarrow> \<forall>i\<in>set is. \<not> held s (key i) \<Longrightarrow>
    \<exists>s'. claims is s = (None, s') \<and> good s' \<and> (\<forall>i\<in>set is. held s' (key i)) \<and>
      (\<forall>k. k \<notin> key ` set is \<longrightarrow> held s' k = held s k)"
proof (induction "is" arbitrary: s)
  case (Cons i "is")
  obtain t where t: "claim i s = (None, t)" "good t" "held t (key i)" "\<forall>k. k \<noteq> key i \<longrightarrow> held t k = held s k"
    using granted_held [of s i] Cons.prems by auto
  have new: "key i \<notin> key ` set is" using Cons.prems(2) by simp
  have free: "\<forall>j\<in>set is. \<not> held t (key j)"
    using Cons.prems(3) t(4) new by (metis image_eqI list.set_intros(2))
  obtain s' where s': "claims is t = (None, s')" "good s'" "\<forall>i\<in>set is. held s' (key i)"
      "\<forall>k. k \<notin> key ` set is \<longrightarrow> held s' k = held t k"
    using Cons.IH [OF t(2) _ free] Cons.prems(2) by auto
  show ?case using t s' new by auto
qed auto

text \<open>The first name that is taken stops the sequence; what was granted before stays.\<close>

lemma claims_refused:
  "good s \<Longrightarrow> distinct (map key is) \<Longrightarrow> \<forall>i\<in>set is. \<not> held s (key i) \<Longrightarrow> held s (key j) \<Longrightarrow>
    \<exists>s' e. claims (is @ j # js) s = (Some e, s') \<and> claims is s = (None, s') \<and> (\<forall>i\<in>set is. held s' (key i))"
proof (induction "is" arbitrary: s)
  case Nil
  then show ?case using refused [of s j] by (auto simp: held_def)
next
  case (Cons i "is")
  obtain t where t: "claim i s = (None, t)" "good t" "held t (key i)" "\<forall>k. k \<noteq> key i \<longrightarrow> held t k = held s k"
    using granted_held [of s i] Cons.prems by auto
  have new: "key i \<notin> key ` set is" using Cons.prems(2) by simp
  have free: "\<forall>j\<in>set is. \<not> held t (key j)"
    using Cons.prems(3) t(4) new by (metis image_eqI list.set_intros(2))
  have j: "held t (key j)" using Cons.prems t by (cases "key j = key i") auto
  have d: "distinct (map key is)" using Cons.prems(2) by simp
  obtain s' e where s': "claims (is @ j # js) t = (Some e, s')" "claims is t = (None, s')"
      "\<forall>i\<in>set is. held s' (key i)"
    using Cons.IH [OF t(2) d free j] by blast
  have "held s' (key i)"
    using t(3) claims_keep [OF t(2) _ _ s'(2)] by (auto simp: held_def)
  then show ?case using t s' by auto
qed

end

interpretation ctrl_names: registry "\<lambda>u. register_ctrl c u" "\<lambda>u. u"
  "\<lambda>S u. map_find u (sv_ctrls S)" "\<lambda>S. live (hp_ctrls S)" "\<lambda>S. map_ok (sv_ctrls S) \<and> live (hp_ctrls S) c" for c
  by unfold_locales
    (auto simp: register_ctrl_def find_emplace find_assign split: option.splits)

lemma register_share_granted:
  assumes inv: "server_inv {} S" and fresh: "ctrl_fresh S c"
    and free: "\<not> (\<exists>a. map_find (ts_id it) (sv_tcp_shares S) = Some a \<and> live (hp_shares S) a)"
  shows "\<exists>S' a. register_share c it S = (None, S') \<and> (server_inv {} S' \<and> ctrl_fresh S' c) \<and>
    map_find (ts_id it) (sv_tcp_shares S') = Some a \<and> live (hp_shares S') a \<and>
    (\<forall>k. k \<noteq> ts_id it \<longrightarrow> map_find k (sv_tcp_shares S') = map_find k (sv_tcp_shares S) \<and>
      (\<forall>b. map_find k (sv_tcp_shares S) = Some b \<longrightarrow> live (hp_shares S') b = live (hp_shares S) b))"
proof -
  obtain r S' where reg: "register_share c it S = (r, S')" by fastforce
  have none: "r = None" using register_share_error [of c it S _ S'] reg free by (cases r) auto
  note keep = server_inv_register_share [OF inv fresh reg [unfolded none]]
  obtain m where S': "S' = S\<lparr>hp_next := Suc (hp_next S),
      hp_shares := hnew (hp_next S) (share_new c (ts_id it) (ts_port it)) (hp_shares S),
      hp_ctrls := hupd c (\<lambda>ct. ct\<lparr>ct_shares := map_emplace (ts_id it) (hp_next S) (ct_shares ct)\<rparr>) (hp_ctrls S),
      sv_tcp_shares := m\<rparr>"
    and m: "map_find (ts_id it) m = Some (hp_next S)"
      "\<And>i. i \<noteq> ts_id it \<Longrightarrow> map_find i m = map_find i (sv_tcp_shares S)"
    using register_share_new [OF reg [unfolded none]] server_inv_sets(2) [OF inv] by blast
  have "b \<noteq> hp_next S" if "map_find k (sv_tcp_shares S) = Some b" for k b
    using server_inv_sets(5) [OF inv map_find_set [OF that]] by simp
  then show ?thesis using reg none keep m by (auto simp: S')
qed

interpretation share_ids: registry "\<lambda>it. register_share c it" ts_id
  "\<lambda>S i. map_find i (sv_tcp_shares S)" "\<lambda>S. live (hp_shares S)" "\<lambda>S. server_inv {} S \<and> ctrl_fresh S c" for c
proof unfold_locales
  show "\<exists>e. register_share c it S = (Some e, S)"
    if "map_find (ts_id it) (sv_tcp_shares S) = Some a" "live (hp_shares S) a" for S it a
    using that by (auto simp: register_share_def)
qed (use register_share_granted in \<open>blast\<close>)

lemma claims_register_shares: "share_ids.claims c its S = register_shares c its S"
  by (induction its arbitrary: S) (auto split: prod.split option.split)

section \<open>Registering\<close>

lemma register_shares_append:
  "register_shares c (xs @ ys) S =
    (case register_shares c xs S of (Some e, T) \<Rightarrow> (Some e, T) | (None, T) \<Rightarrow> register_shares c ys T)"
  by (induction xs arbitrary: S) (auto split: prod.split option.split)

lemma ctrl_same: "\<exists>ss. ct = ct\<lparr>ct_shares := ss\<rparr>"
  by (rule exI [of _ "ct_shares ct"]) simp

lemma register_share_keeps:
  assumes "server_inv {} S" "register_share c it S = (r, S')"
  shows "(\<forall>b s. hget (hp_shares S) b = Some s \<longrightarrow> hget (hp_shares S') b = Some s) \<and>
    (\<forall>ct. hget (hp_ctrls S) c = Some ct \<longrightarrow> (\<exists>ss. hget (hp_ctrls S') c = Some (ct\<lparr>ct_shares := ss\<rparr>))) \<and>
    sv_ctrls S' = sv_ctrls S \<and> hp_conns S' = hp_conns S \<and> hp_next S \<le> hp_next S'"
proof (cases r)
  case None
  have "b \<noteq> hp_next S" if "hget (hp_shares S) b = Some s" for b s
    using server_inv_share [OF assms(1) that] by auto
  then show ?thesis using register_share_new [of c it S S'] assms(2) None by auto
next
  case (Some e)
  then have "S' = S" using register_share_error [of c it S e S'] assms(2) by simp
  then show ?thesis using ctrl_same by auto
qed

lemma register_shares_keeps:
  "server_inv {} S \<Longrightarrow> ctrl_fresh S c \<Longrightarrow> register_shares c its S = (r, S') \<Longrightarrow>
    (\<forall>b s. hget (hp_shares S) b = Some s \<longrightarrow> hget (hp_shares S') b = Some s) \<and>
    (\<forall>ct. hget (hp_ctrls S) c = Some ct \<longrightarrow> (\<exists>ss. hget (hp_ctrls S') c = Some (ct\<lparr>ct_shares := ss\<rparr>))) \<and>
    sv_ctrls S' = sv_ctrls S \<and> hp_conns S' = hp_conns S \<and> hp_next S \<le> hp_next S'"
proof (induction its arbitrary: S)
  case Nil
  then show ?case using ctrl_same by auto
next
  case (Cons it its)
  obtain x T where T: "register_share c it S = (x, T)" by fastforce
  note keep = register_share_keeps [OF Cons.prems(1) T]
  show ?case
  proof (cases x)
    case (Some e)
    then show ?thesis using keep Cons.prems(3) T by auto
  next
    case None
    then have next': "register_shares c its T = (r, S')" using Cons.prems(3) T by simp
    have inv: "server_inv {} T" "ctrl_fresh T c"
      using server_inv_register_share [OF Cons.prems(1,2)] T None by auto
    note IH = Cons.IH [OF inv next']
    have ct: "\<exists>ss. hget (hp_ctrls S') c = Some (ct\<lparr>ct_shares := ss\<rparr>)" if d: "hget (hp_ctrls S) c = Some ct" for ct
    proof -
      obtain ss where "hget (hp_ctrls T) c = Some (ct\<lparr>ct_shares := ss\<rparr>)" using keep d by blast
      then obtain ss' where "hget (hp_ctrls S') c = Some (ct\<lparr>ct_shares := ss\<rparr>\<lparr>ct_shares := ss'\<rparr>)"
        using IH by blast
      then show ?thesis by (intro exI [of _ ss']) simp
    qed
    show ?thesis using keep IH ct by (auto intro: order_trans)
  qed
qed

lemma register_shares_done:
  "server_inv {} S \<Longrightarrow> ctrl_fresh S c \<Longrightarrow> register_shares c its S = (None, S') \<Longrightarrow> it \<in> set its \<Longrightarrow>
    \<exists>a. map_find (ts_id it) (sv_tcp_shares S') = Some a \<and>
      hget (hp_shares S') a = Some (share_new c (ts_id it) (ts_port it))"
proof (induction its arbitrary: S)
  case (Cons j its)
  obtain T where T: "register_share c j S = (None, T)" "register_shares c its T = (None, S')"
    using Cons.prems(3) by (auto split: prod.splits option.splits)
  have inv: "server_inv {} T" "ctrl_fresh T c"
    using server_inv_register_share [OF Cons.prems(1,2) T(1)] by auto
  show ?case
  proof (cases "it = j")
    case True
    let ?a = "hp_next S"
    have a: "map_find (ts_id it) (sv_tcp_shares T) = Some ?a"
      "hget (hp_shares T) ?a = Some (share_new c (ts_id it) (ts_port it))"
      using register_share_new [OF T(1)] server_inv_sets(2) [OF Cons.prems(1)] True by auto
    have "map_find (ts_id it) (sv_tcp_shares S') = Some ?a"
      using share_ids.claims_keep [of T c "ts_id it" ?a its] a inv T(2)
      by (auto simp: claims_register_shares live_def)
    then show ?thesis using a(2) register_shares_keeps [OF inv T(2)] by auto
  next
    case False
    then show ?thesis using Cons.IH [OF inv T(2)] Cons.prems(4) by auto
  qed
qed simp

text \<open>The first part of a hello: the controller is created and gets its name.\<close>

definition hello_start :: "nat \<Rightarrow> conn \<Rightarrow> client_hello \<Rightarrow> server \<Rightarrow> server" where
  "hello_start k cn hello S = upd_conn k (\<lambda>cn. cn\<lparr>cn_sock := sock_moved\<rparr>) (S\<lparr>hp_next := Suc (hp_next S),
    hp_ctrls := hnew (hp_next S) (ctrl_new (cn_sock cn) (ch_client_uuid hello)) (hp_ctrls S)\<rparr>)"

lemma hello_started:
  assumes inv: "server_inv {} S"
    and free: "\<forall>c. map_find (ch_client_uuid hello) (sv_ctrls S) = Some c \<longrightarrow> \<not> live (hp_ctrls S) c"
  shows "\<exists>T. register_ctrl (hp_next S) (ch_client_uuid hello) (hello_start k cn hello S) = (None, T) \<and>
    server_inv {} T \<and> ctrl_fresh T (hp_next S) \<and>
    hget (hp_ctrls T) (hp_next S) = Some (ctrl_new (cn_sock cn) (ch_client_uuid hello)) \<and>
    map_find (ch_client_uuid hello) (sv_ctrls T) = Some (hp_next S) \<and>
    sv_tcp_shares T = sv_tcp_shares S \<and> hp_shares T = hp_shares S"
proof -
  let ?c = "hp_next S" and ?u = "ch_client_uuid hello" and ?S = "hello_start k cn hello S"
  have S: "server_inv {?c} ?S" using server_inv_new_ctrl [OF inv] by (simp add: shape_upd_conn hello_start_def)
  have c: "hget (hp_ctrls ?S) ?c = Some (ctrl_new (cn_sock cn) ?u)" by (simp add: hello_start_def)
  have "d \<noteq> ?c" if "map_find ?u (sv_ctrls S) = Some d" for d
    using server_inv_sets(4) [OF inv map_find_set [OF that]] by simp
  then have "\<not> ctrl_names.held ?S ?u"
    using free by (auto simp: ctrl_names.held_def hello_start_def upd_conn_def live_def)
  then obtain T where T: "register_ctrl ?c ?u ?S = (None, T)"
    using ctrl_names.granted_held [of ?S ?c ?u] server_inv_sets(1) [OF S] c by (auto simp: live_def)
  have inv': "server_inv {} T" using server_inv_register_ctrl [OF S c] T by (simp add: ctrl_new_def)
  have same: "hp_ctrls T = hp_ctrls ?S" "sv_tcp_shares T = sv_tcp_shares S" "hp_shares T = hp_shares S"
    using T by (auto simp: register_ctrl_def hello_start_def upd_conn_def split: option.splits if_splits)
  then have "ctrl_fresh T ?c" using c by (simp add: ctrl_fresh_def ctrl_new_def)
  moreover have "map_find ?u (sv_ctrls T) = Some ?c"
    using server_inv_ctrl [OF inv', of ?c] c same by (simp add: ctrl_new_def)
  ultimately show ?thesis using T inv' same c by simp
qed

text \<open>Destruction leaves what is held.\<close>

lemma hget_collect_workers_shares:
  "hget (hp_shares (collect_workers S)) a = (case hget (hp_shares S) a of None \<Rightarrow> None
    | Some s \<Rightarrow> Some (s\<lparr>shr_nr_workers := shr_nr_workers s -
        int (length (filter (\<lambda>(w, wk). w_share wk = a) (filter (\<lambda>(w, wk). \<not> worker_held wk) (hp_workers S))))\<rparr>))"
  by (simp add: collect_workers_def Let_def hget_map_snd split: option.split)

lemma collect_keeps_share:
  assumes "hget (hp_shares S) a = Some s" "shr_fwd s \<noteq> fwd_gone"
  shows "\<exists>s'. hget (hp_shares (collect S)) a = Some s' \<and> shr_id s' = shr_id s \<and> shr_ctrl s' = shr_ctrl s"
  using assms
  by (simp add: collect_def collect_conns_def collect_ctrls_def collect_shares_def hget_keep
      hget_collect_workers_shares share_held_def)

lemma collect_keeps_ctrl:
  assumes "hget (hp_shares S) a = Some s" "shr_fwd s \<noteq> fwd_gone" "hget (hp_ctrls S) (shr_ctrl s) = Some ct"
  shows "hget (hp_ctrls (collect S)) (shr_ctrl s) = Some ct"
proof -
  let ?T = "collect_shares (collect_workers S)"
  obtain s' where "hget (hp_shares ?T) a = Some s'" "shr_ctrl s' = shr_ctrl s"
    using assms(1,2) by (auto simp: collect_shares_def hget_keep hget_collect_workers_shares share_held_def)
  then have "ctrl_held ?T (shr_ctrl s) ct" using share_holds_ctrl by metis
  moreover have "hget (hp_ctrls ?T) (shr_ctrl s) = Some ct"
    using assms(3) by (simp add: collect_shares_def collect_workers_def Let_def)
  ultimately show ?thesis by (simp add: collect_def collect_conns_def collect_ctrls_def hget_keep)
qed

section \<open>Properties\<close>

text \<open>
  Property C1 (invariant): the registries of the server are exact.  In every state the
  server can reach, a live share is the one registered under its id, its controller
  is live, lists it, and is the one registered under its uuid; so no two live
  shares have the same id and no two live controllers the same uuid.
\<close>

theorem registries_exact:
  assumes "server_reachable J wm S"
  shows "(\<forall>a s. hget (hp_shares S) a = Some s \<longrightarrow>
      map_find (shr_id s) (sv_tcp_shares S) = Some a \<and>
      (\<exists>ct. hget (hp_ctrls S) (shr_ctrl s) = Some ct \<and> map_find (shr_id s) (ct_shares ct) = Some a)) \<and>
    (\<forall>c ct. hget (hp_ctrls S) c = Some ct \<longrightarrow> map_find (ct_uuid ct) (sv_ctrls S) = Some c) \<and>
    (\<forall>w wk. hget (hp_workers S) w = Some wk \<longrightarrow> live (hp_shares S) (w_share wk))"
proof -
  note inv = server_reachable_inv [OF assms]
  show ?thesis
    using server_inv_share [OF inv] server_inv_ctrl [OF inv] server_inv_worker [OF inv]
    by (fastforce simp: live_def)
qed

lemma hello_registers_all:
  assumes "server_inv {} S" "hget (hp_conns S) k = Some cn"
    and "\<forall>c. map_find (ch_client_uuid hello) (sv_ctrls S) = Some c \<longrightarrow> \<not> live (hp_ctrls S) c"
    and "distinct (map ts_id (ch_tcp_shares hello))"
    and "\<forall>it\<in>set (ch_tcp_shares hello). \<forall>a. map_find (ts_id it) (sv_tcp_shares S) = Some a \<longrightarrow>
      \<not> live (hp_shares S) a"
    and "marshal_msg J (M_server_hello \<lparr>sh_version = 0, sh_welcome = wm\<rparr>) = Inr greeting"
  shows "\<exists>S' c ct. hello_client J wm now k hello S = (None, S') \<and> \<not> live (hp_ctrls S) c \<and>
    hget (hp_ctrls S') c = Some ct \<and> map_find (ch_client_uuid hello) (sv_ctrls S') = Some c \<and>
    ct_uuid ct = ch_client_uuid hello \<and> ct_sock ct = cn_sock cn \<and>
    ct_recv ct = recv_reading \<and> ct_send ct = cs_hello greeting \<and> ct_sent ct = [greeting] \<and>
    (\<forall>it\<in>set (ch_tcp_shares hello). \<exists>a. map_find (ts_id it) (sv_tcp_shares S') = Some a \<and>
      hget (hp_shares S') a = Some (share_new c (ts_id it) (ts_port it)))"
proof -
  let ?c = "hp_next S"
  note inv = assms(1)
  obtain T where T: "register_ctrl ?c (ch_client_uuid hello) (hello_start k cn hello S) = (None, T)"
    "server_inv {} T" "ctrl_fresh T ?c"
    "hget (hp_ctrls T) ?c = Some (ctrl_new (cn_sock cn) (ch_client_uuid hello))"
    "map_find (ch_client_uuid hello) (sv_ctrls T) = Some ?c"
    "sv_tcp_shares T = sv_tcp_shares S" "hp_shares T = hp_shares S"
    using hello_started [OF inv assms(3), of k cn] by blast
  have "\<forall>it\<in>set (ch_tcp_shares hello). \<not> share_ids.held T (ts_id it)"
    using assms(5) T(6,7) by (auto simp: share_ids.held_def)
  then obtain U where U: "register_shares ?c (ch_tcp_shares hello) T = (None, U)"
    using share_ids.claims_granted [of T ?c, unfolded claims_register_shares] T(2,3) assms(4) by blast
  note kept = register_shares_keeps [OF T(2,3) U] and shares = register_shares_done [OF T(2,3) U]
  obtain ss where ss: "hget (hp_ctrls U) ?c = Some ((ctrl_new (cn_sock cn) (ch_client_uuid hello))\<lparr>ct_shares := ss\<rparr>)"
    using kept T(4) by blast
  define S' where "S' = upd_conn k (\<lambda>cn. cn\<lparr>cn_ddl := None\<rparr>) (upd_ctrl ?c (ctrl_run J wm now) U)"
  have h: "hello_client J wm now k hello S = (None, S')"
    using assms(2) T(1) U by (simp add: hello_client_def hello_start_def S'_def Let_def)
  have S': "sv_ctrls S' = sv_ctrls U" "sv_tcp_shares S' = sv_tcp_shares U" "hp_shares S' = hp_shares U"
    "hp_ctrls S' = hupd ?c (ctrl_run J wm now) (hp_ctrls U)"
    by (simp_all add: S'_def upd_ctrl_def upd_conn_def)
  have new: "\<not> live (hp_ctrls S) ?c"
    using server_inv_ctrl [OF inv, of ?c] by (cases "hget (hp_ctrls S) ?c") (auto simp: live_def)
  show ?thesis
    by (rule exI [of _ S'], rule exI [of _ ?c],
      rule exI [of _ "ctrl_run J wm now ((ctrl_new (cn_sock cn) (ch_client_uuid hello))\<lparr>ct_shares := ss\<rparr>)"])
      (use h S' new ss kept T(5) shares assms(6) in \<open>simp add: ctrl_run_def ctrl_recv_loop_def ctrl_set_ddl_def ctrl_new_def\<close>)
qed

text \<open>
  A hello whose uuid and share ids are free, or whose owners are
  gone, is accepted: its shares are registered with the ports it asks for, under a
  new controller that owns the connection, reads from it and greets the client.
\<close>

theorem client_hello_registers_all:
  assumes "server_reachable J wm S" "hget (hp_conns S) k = Some cn"
    and "\<forall>c. map_find (ch_client_uuid hello) (sv_ctrls S) = Some c \<longrightarrow> \<not> live (hp_ctrls S) c"
    and "distinct (map ts_id (ch_tcp_shares hello))"
    and "\<forall>it\<in>set (ch_tcp_shares hello). \<forall>a. map_find (ts_id it) (sv_tcp_shares S) = Some a \<longrightarrow>
      \<not> live (hp_shares S) a"
    and "marshal_msg J (M_server_hello \<lparr>sh_version = 0, sh_welcome = wm\<rparr>) = Inr greeting"
  shows "\<exists>S' c ct. hello_client J wm now k hello S = (None, S') \<and> \<not> live (hp_ctrls S) c \<and>
    hget (hp_ctrls S') c = Some ct \<and> map_find (ch_client_uuid hello) (sv_ctrls S') = Some c \<and>
    ct_uuid ct = ch_client_uuid hello \<and> ct_sock ct = cn_sock cn \<and>
    ct_recv ct = recv_reading \<and> ct_send ct = cs_hello greeting \<and> ct_sent ct = [greeting] \<and>
    (\<forall>it\<in>set (ch_tcp_shares hello). \<exists>a. map_find (ts_id it) (sv_tcp_shares S') = Some a \<and>
      hget (hp_shares S') a = Some (share_new c (ts_id it) (ts_port it)))"
  by (rule hello_registers_all [OF server_reachable_inv [OF assms(1)] assms(2-6)])

text \<open>
  Property C17 (error): a hello that asks for a share id somebody else holds is refused
  half way.  The exception names the id; the shares asked for before it stay
  registered and alive, with them the controller under the client's uuid and the
  client's connection, although the controller was never run: it neither reads nor
  writes, nothing was sent to the client, and the ids stay taken.
\<close>

theorem refused_hello_leaves_shares:
  assumes "server_reachable J wm S" "hget (hp_conns S) k = Some cn"
    and "\<forall>c. map_find (ch_client_uuid hello) (sv_ctrls S) = Some c \<longrightarrow> \<not> live (hp_ctrls S) c"
    and "ch_tcp_shares hello = its @ it # rest" "its \<noteq> []" "distinct (map ts_id its)"
    and "\<forall>i\<in>set its. \<forall>a. map_find (ts_id i) (sv_tcp_shares S) = Some a \<longrightarrow> \<not> live (hp_shares S) a"
    and "map_find (ts_id it) (sv_tcp_shares S) = Some a0" "live (hp_shares S) a0"
  shows "\<exists>S' c ct. hello_client J wm now k hello S = (Some (duplicate_tcp_share (ts_id it)), S') \<and>
    hget (hp_ctrls (collect (conn_handle_error (duplicate_tcp_share (ts_id it)) k S'))) c = Some ct \<and>
    ct_uuid ct = ch_client_uuid hello \<and> ct_sock ct = cn_sock cn \<and> \<not> ct_stopping ct \<and>
    ct_recv ct = recv_done \<and> ct_send ct = cs_done \<and> ct_sent ct = [] \<and>
    (\<forall>i\<in>set its. \<exists>a s. map_find (ts_id i) (sv_tcp_shares S') = Some a \<and>
      hget (hp_shares (collect (conn_handle_error (duplicate_tcp_share (ts_id it)) k S'))) a = Some s \<and>
      shr_id s = ts_id i \<and> shr_ctrl s = c)"
proof -
  let ?c = "hp_next S" and ?e = "duplicate_tcp_share (ts_id it)"
  note inv = server_reachable_inv [OF assms(1)]
  obtain T where T: "register_ctrl ?c (ch_client_uuid hello) (hello_start k cn hello S) = (None, T)"
    "server_inv {} T" "ctrl_fresh T ?c"
    "hget (hp_ctrls T) ?c = Some (ctrl_new (cn_sock cn) (ch_client_uuid hello))"
    "sv_tcp_shares T = sv_tcp_shares S" "hp_shares T = hp_shares S"
    using hello_started [OF inv assms(3), of k cn] by blast
  have free: "\<forall>i\<in>set its. \<not> share_ids.held T (ts_id i)" and taken: "share_ids.held T (ts_id it)"
    using assms(7-9) T(5,6) by (auto simp: share_ids.held_def)
  obtain e U where U: "register_shares ?c (its @ it # rest) T = (Some e, U)" "register_shares ?c its T = (None, U)"
    using share_ids.claims_refused [of T ?c its it rest, unfolded claims_register_shares]
      T(2,3) assms(6) free taken by blast
  have "map_find (ts_id it) (sv_tcp_shares U) = Some a0 \<and> live (hp_shares U) a0"
    using share_ids.claims_keep [of T ?c "ts_id it" a0 its] T assms(8,9) U(2)
    by (simp add: claims_register_shares)
  then have "register_share ?c it U = (Some ?e, U)" by (simp add: register_share_def)
  then have "e = ?e" using U by (simp add: register_shares_append)
  then have h: "hello_client J wm now k hello S = (Some ?e, U)"
    using assms(2,4) T(1) U(1) by (simp add: hello_client_def hello_start_def Let_def)
  note done' = register_shares_done [OF T(2,3) U(2)]
  obtain ss where ss: "hget (hp_ctrls U) ?c = Some ((ctrl_new (cn_sock cn) (ch_client_uuid hello))\<lparr>ct_shares := ss\<rparr>)"
    using register_shares_keeps [OF T(2,3) U(2)] T(4) by blast
  let ?U = "conn_handle_error ?e k U"
  have same: "hp_shares ?U = hp_shares U" "hp_ctrls ?U = hp_ctrls U"
    by (simp_all add: conn_handle_error_def conn_try_stop_def upd_conn_def split: option.split)
  have shares: "\<exists>a s. map_find (ts_id i) (sv_tcp_shares U) = Some a \<and> hget (hp_shares (collect ?U)) a = Some s \<and>
      shr_id s = ts_id i \<and> shr_ctrl s = ?c" if "i \<in> set its" for i
    using done' [OF that] collect_keeps_share [of ?U] by (fastforce simp: same share_new_def)
  obtain i where "i \<in> set its" using assms(5) by fastforce
  then obtain a where "hget (hp_shares ?U) a = Some (share_new ?c (ts_id i) (ts_port i))"
    using done' same by metis
  then have "hget (hp_ctrls (collect ?U)) ?c = Some ((ctrl_new (cn_sock cn) (ch_client_uuid hello))\<lparr>ct_shares := ss\<rparr>)"
    using collect_keeps_ctrl [of ?U a "share_new ?c (ts_id i) (ts_port i)"] ss same by (simp add: share_new_def)
  then show ?thesis
    by (intro exI [of _ U] exI [of _ ?c] exI [of _ "(ctrl_new (cn_sock cn) (ch_client_uuid hello))\<lparr>ct_shares := ss\<rparr>"])
      (use h shares in \<open>simp add: ctrl_new_def\<close>)
qed

lemma one_client_free:
  "map_find ''B'' (sv_ctrls one_client_state) = None" "map_find ''web'' (sv_tcp_shares one_client_state) = None"
  "map_find ''ssh'' (sv_tcp_shares one_client_state) = Some 2" "live (hp_shares one_client_state) 2"
  "hget (hp_conns one_client_state) 3 = Some \<lparr>cn_sock = sock_open, cn_ddl = Some 33, cn_stopping = False,
     cn_finished = False, cn_recv = True, cn_timer = True\<rparr>"
  by (simp_all add: one_client_state_def live_def hget_def)

theorem registries_exact_witness:
  "map_find ''ssh'' (sv_tcp_shares one_client_state) = Some 2 \<and>
   (\<exists>ct. hget (hp_ctrls one_client_state) 1 = Some ct \<and> map_find ''ssh'' (ct_shares ct) = Some 2)"
proof -
  have s: "hget (hp_shares one_client_state) 2 = Some ((share_new 1 ''ssh'' 22)\<lparr>shr_fwd := fwd_running\<rparr>)"
    by (simp add: one_client_state_def hget_def)
  show ?thesis
    using conjunct1 [OF registries_exact [OF one_client_reachable]] s by (fastforce simp: share_new_def)
qed

definition web_hello :: client_hello where
  "web_hello = \<lparr>ch_version = 0, ch_client_uuid = ''B'', ch_tcp_shares = [\<lparr>ts_id = ''web'', ts_port = 80\<rparr>]\<rparr>"

theorem client_hello_registers_all_witness:
  "\<exists>S' a s. hello_client plain_json ''hi'' 4 3 web_hello one_client_state = (None, S') \<and>
    map_find ''web'' (sv_tcp_shares S') = Some a \<and> hget (hp_shares S') a = Some s \<and> shr_port s = 80"
proof -
  have "\<exists>S' c ct. hello_client plain_json ''hi'' 4 3 web_hello one_client_state = (None, S') \<and>
      (\<forall>it\<in>set (ch_tcp_shares web_hello). \<exists>a. map_find (ts_id it) (sv_tcp_shares S') = Some a \<and>
        hget (hp_shares S') a = Some (share_new c (ts_id it) (ts_port it)))"
    using client_hello_registers_all [OF one_client_reachable one_client_free(5), of web_hello]
      one_client_free marshal_msg_plain by (fastforce simp: web_hello_def)
  then show ?thesis by (fastforce simp: web_hello_def share_new_def)
qed

definition greedy_hello :: client_hello where
  "greedy_hello = \<lparr>ch_version = 0, ch_client_uuid = ''B'',
     ch_tcp_shares = [\<lparr>ts_id = ''web'', ts_port = 80\<rparr>, \<lparr>ts_id = ''ssh'', ts_port = 2222\<rparr>]\<rparr>"

theorem refused_hello_leaves_shares_witness:
  "\<exists>S' a s. hello_client plain_json ''hi'' 4 3 greedy_hello one_client_state =
      (Some (duplicate_tcp_share ''ssh''), S') \<and>
    map_find ''web'' (sv_tcp_shares S') = Some a \<and>
    hget (hp_shares (collect (conn_handle_error (duplicate_tcp_share ''ssh'') 3 S'))) a = Some s"
proof -
  have split: "ch_tcp_shares greedy_hello = [\<lparr>ts_id = ''web'', ts_port = 80\<rparr>] @ \<lparr>ts_id = ''ssh'', ts_port = 2222\<rparr> # []"
    by (simp add: greedy_hello_def)
  have uuid: "\<forall>c. map_find (ch_client_uuid greedy_hello) (sv_ctrls one_client_state) = Some c \<longrightarrow>
      \<not> live (hp_ctrls one_client_state) c"
    by (simp add: greedy_hello_def one_client_free)
  show ?thesis
    using refused_hello_leaves_shares [OF one_client_reachable one_client_free(5) uuid split, of 2] one_client_free
    by fastforce
qed

lemma hello_attaches:
  assumes "server_reachable J wm S" "hget (hp_conns S) k = Some cn"
    and "\<not> cn_stopping cn" "\<not> cn_finished cn" "cn_sock cn = sock_open"
    and "unmarshal_msg J [T_client_hello, T_worker_hello] jv = Inr (M_worker_hello hello)"
    and "S' = conn_on_hello J wm now k (Inr jv) S"
  shows "(\<forall>a. map_find (wh_tcp_share_id hello) (sv_tcp_shares S) = Some a \<and> live (hp_shares S) a \<longrightarrow>
      (\<exists>w s. \<not> live (hp_workers S) w \<and>
        hget (hp_workers S') w = Some (worker_run now (worker_new sock_open (wh_worker_id hello) a)) \<and>
        hget (hp_shares S) a = Some s \<and> shr_id s = wh_tcp_share_id hello \<and>
        hget (hp_shares S') a = Some (s\<lparr>shr_nr_workers := shr_nr_workers s + 1,
          shr_arriving := shr_arriving s @ [w]\<rparr>) \<and>
        (\<forall>v. v \<noteq> w \<longrightarrow> hget (hp_workers S') v = hget (hp_workers S) v) \<and>
        map_option cn_sock (hget (hp_conns S') k) = Some sock_moved)) \<and>
    ((\<forall>a. map_find (wh_tcp_share_id hello) (sv_tcp_shares S) = Some a \<longrightarrow> \<not> live (hp_shares S) a) \<longrightarrow>
      hp_workers S' = hp_workers S \<and> hp_shares S' = hp_shares S \<and> hp_ctrls S' = hp_ctrls S \<and>
      sv_tcp_shares S' = sv_tcp_shares S \<and> map_option cn_sock (hget (hp_conns S') k) = Some sock_closed)"
proof (intro conjI allI impI)
  note inv = server_reachable_inv [OF assms(1)]
  fix a
  assume a: "map_find (wh_tcp_share_id hello) (sv_tcp_shares S) = Some a \<and> live (hp_shares S) a"
  then obtain s where s: "hget (hp_shares S) a = Some s" by (auto simp: live_def)
  have id: "shr_id s = wh_tcp_share_id hello" using server_inv_named [OF inv _ s] a by simp
  have new: "\<not> live (hp_workers S) (hp_next S)"
    using server_inv_worker [OF inv, of "hp_next S"]
    by (cases "hget (hp_workers S) (hp_next S)") (auto simp: live_def)
  show "\<exists>w s. \<not> live (hp_workers S) w \<and>
        hget (hp_workers S') w = Some (worker_run now (worker_new sock_open (wh_worker_id hello) a)) \<and>
        hget (hp_shares S) a = Some s \<and> shr_id s = wh_tcp_share_id hello \<and>
        hget (hp_shares S') a = Some (s\<lparr>shr_nr_workers := shr_nr_workers s + 1,
          shr_arriving := shr_arriving s @ [w]\<rparr>) \<and>
        (\<forall>v. v \<noteq> w \<longrightarrow> hget (hp_workers S') v = hget (hp_workers S) v) \<and>
        map_option cn_sock (hget (hp_conns S') k) = Some sock_moved"
    by (rule exI [of _ "hp_next S"], rule exI [of _ s])
      (use assms a s id new in \<open>simp add: conn_on_hello_def hello_worker_def conn_try_stop_def upd_conn_def
        upd_share_def Let_def\<close>)
next
  assume "\<forall>a. map_find (wh_tcp_share_id hello) (sv_tcp_shares S) = Some a \<longrightarrow> \<not> live (hp_shares S) a"
  then obtain e where e: "hello_worker now k hello (upd_conn k (\<lambda>cn. cn\<lparr>cn_recv := False\<rparr>) S) =
      (Some e, upd_conn k (\<lambda>cn. cn\<lparr>cn_recv := False\<rparr>) S)"
    using assms(2) by (cases "map_find (wh_tcp_share_id hello) (sv_tcp_shares S)") (auto simp: hello_worker_def upd_conn_def)
  have S': "S' = conn_try_stop k (upd_conn k (\<lambda>cn. cn\<lparr>cn_recv := False\<rparr>) S)"
    using e assms(2-7) by (simp add: conn_on_hello_def conn_handle_error_def upd_conn_def)
  show "hp_workers S' = hp_workers S" "hp_shares S' = hp_shares S" "hp_ctrls S' = hp_ctrls S"
    "sv_tcp_shares S' = sv_tcp_shares S" "map_option cn_sock (hget (hp_conns S') k) = Some sock_closed"
    using assms(2-5) unfolding S' by (simp_all add: conn_try_stop_def upd_conn_def Let_def)
qed

text \<open>
  The hello of a worker attaches its connection to the live share
  it names, and to no other: a new worker that belongs to that share reads from the
  connection and will be offered to the share's users; if there is no such share, or
  it is gone, no object changes and the connection is closed.
\<close>

theorem worker_hello_attaches:
  assumes "server_reachable J wm S" "hget (hp_conns S) k = Some cn"
    and "\<not> cn_stopping cn" "\<not> cn_finished cn" "cn_sock cn = sock_open"
    and "unmarshal_msg J [T_client_hello, T_worker_hello] jv = Inr (M_worker_hello hello)"
    and "S' = conn_on_hello J wm now k (Inr jv) S"
  shows "(\<forall>a. map_find (wh_tcp_share_id hello) (sv_tcp_shares S) = Some a \<and> live (hp_shares S) a \<longrightarrow>
      (\<exists>w s. \<not> live (hp_workers S) w \<and>
        hget (hp_workers S') w = Some (worker_run now (worker_new sock_open (wh_worker_id hello) a)) \<and>
        hget (hp_shares S) a = Some s \<and> shr_id s = wh_tcp_share_id hello \<and>
        hget (hp_shares S') a = Some (s\<lparr>shr_nr_workers := shr_nr_workers s + 1,
          shr_arriving := shr_arriving s @ [w]\<rparr>) \<and>
        (\<forall>v. v \<noteq> w \<longrightarrow> hget (hp_workers S') v = hget (hp_workers S) v) \<and>
        map_option cn_sock (hget (hp_conns S') k) = Some sock_moved)) \<and>
    ((\<forall>a. map_find (wh_tcp_share_id hello) (sv_tcp_shares S) = Some a \<longrightarrow> \<not> live (hp_shares S) a) \<longrightarrow>
      hp_workers S' = hp_workers S \<and> hp_shares S' = hp_shares S \<and> hp_ctrls S' = hp_ctrls S \<and>
      sv_tcp_shares S' = sv_tcp_shares S \<and> map_option cn_sock (hget (hp_conns S') k) = Some sock_closed)"
  by (rule hello_attaches [OF assms])

theorem worker_hello_attaches_witness:
  "\<exists>w. hget (hp_workers (conn_on_hello plain_json ''hi'' 4 3
      (Inr (msg_json (M_worker_hello \<lparr>wh_tcp_share_id = ''ssh'', wh_worker_id = 7\<rparr>))) one_client_state)) w =
    Some (worker_run 4 (worker_new sock_open 7 2))"
proof -
  have u: "unmarshal_msg plain_json [T_client_hello, T_worker_hello]
      (msg_json (M_worker_hello \<lparr>wh_tcp_share_id = ''ssh'', wh_worker_id = 7\<rparr>)) =
    Inr (M_worker_hello \<lparr>wh_tcp_share_id = ''ssh'', wh_worker_id = 7\<rparr>)"
    by (simp add: unmarshal_msg_json)
  show ?thesis
    using conjunct1 [OF worker_hello_attaches [OF one_client_reachable one_client_free(5) _ _ _ u refl]]
      one_client_free by fastforce
qed

end
