(* ===== verification/Directory.thy ===== *)
theory Directory
  imports Server_Registry
begin

text \<open>
  What the registries of the server promise, without objects: a directory of clients and of share
  names with the client that each belongs to.  Every event of the server acts on the
  directory as its specification says: a client's hello joins it, nothing else changes it, and the
  destruction of objects only removes entries.  The abstraction function is \<open>directory\<close>; it reads both
  maps of the server and the objects they name.
\<close>

section \<open>The abstract directory\<close>

record directory =
  dr_client :: "string \<Rightarrow> bool"
  dr_owner :: "string \<Rightarrow> string option"

text \<open>The names that a client asks for are given to it one by one, up to the first that is taken.\<close>

fun enlist :: "string \<Rightarrow> string list \<Rightarrow> (string \<Rightarrow> string option) \<Rightarrow> (string \<Rightarrow> string option)" where
  "enlist u [] own = own"
| "enlist u (n # ns) own = (if own n = None then enlist u ns (own(n \<mapsto> u)) else own)"

definition dir_join :: "string \<Rightarrow> string list \<Rightarrow> directory \<Rightarrow> directory" where
  "dir_join u ns d =
    (if dr_client d u then d
     else \<lparr>dr_client = (dr_client d)(u := True), dr_owner = enlist u ns (dr_owner d)\<rparr>)"

text \<open>A part of a directory: some clients and some names have gone.\<close>

definition dir_part :: "directory \<Rightarrow> directory \<Rightarrow> bool" where
  "dir_part d e \<longleftrightarrow> (\<forall>u. dr_client d u \<longrightarrow> dr_client e u) \<and> dr_owner d \<subseteq>\<^sub>m dr_owner e"

lemma enlist_keeps: "own n = Some v \<Longrightarrow> enlist u ns own n = Some v"
proof (induction ns arbitrary: own)
  case (Cons m ns)
  then show ?case by (cases "n = m") auto
qed simp

section \<open>The abstraction function\<close>

definition dir_of :: "shape \<Rightarrow> directory" where
  "dir_of P =
    \<lparr>dr_client = (\<lambda>u. case map_find u (sp_ctrls P) of None \<Rightarrow> False | Some c \<Rightarrow> sp_ctrl P c \<noteq> None),
     dr_owner = (\<lambda>n. Option.bind (map_find n (sp_shares P)) (\<lambda>a. Option.bind (sp_share P a) (\<lambda>(i, c).
       map_option fst (sp_ctrl P c))))\<rparr>"

definition directory :: "server \<Rightarrow> directory" where
  "directory S = dir_of (shape S)"

lemma directory_client: "dr_client (directory S) u \<longleftrightarrow> (\<exists>c. map_find u (sv_ctrls S) = Some c \<and> live (hp_ctrls S) c)"
  by (auto simp: directory_def dir_of_def live_def split: option.split)

lemma directory_owner:
  "dr_owner (directory S) n =
    (case map_find n (sv_tcp_shares S) of
      None \<Rightarrow> None
    | Some a \<Rightarrow> (case hget (hp_shares S) a of None \<Rightarrow> None | Some s \<Rightarrow> map_option ct_uuid (hget (hp_ctrls S) (shr_ctrl s))))"
  by (auto simp: directory_def dir_of_def option.map_comp comp_def split: option.split)

lemma directory_shape: "shape T = shape S \<Longrightarrow> directory T = directory S"
  by (simp add: directory_def)

lemma directory_same:
  assumes "sv_ctrls T = sv_ctrls S" "sv_tcp_shares T = sv_tcp_shares S"
    and c: "\<And>c. map_option ct_uuid (hget (hp_ctrls T) c) = map_option ct_uuid (hget (hp_ctrls S) c)"
    and a: "\<And>a. map_option shr_ctrl (hget (hp_shares T) a) = map_option shr_ctrl (hget (hp_shares S) a)"
  shows "directory T = directory S"
proof (rule directory.equality)
  have live: "live (hp_ctrls T) d = live (hp_ctrls S) d" for d
    using c [of d] by (cases "hget (hp_ctrls S) d"; cases "hget (hp_ctrls T) d") (simp_all add: live_def)
  then show "dr_client (directory T) = dr_client (directory S)" by (simp add: fun_eq_iff directory_client assms(1))
  have "dr_owner (directory R) n = Option.bind (map_find n (sv_tcp_shares R))
      (\<lambda>a. Option.bind (map_option shr_ctrl (hget (hp_shares R) a)) (\<lambda>c. map_option ct_uuid (hget (hp_ctrls R) c)))" for R n
    by (simp add: directory_owner split: option.split)
  then show "dr_owner (directory T) = dr_owner (directory S)" by (simp add: fun_eq_iff assms)
qed simp

text \<open>A name belongs to somebody exactly when its share is alive.\<close>

lemma owned_live:
  assumes "server_inv X S"
  shows "dr_owner (directory S) n = None \<longleftrightarrow> \<not> (\<exists>a. map_find n (sv_tcp_shares S) = Some a \<and> live (hp_shares S) a)"
proof (cases "map_find n (sv_tcp_shares S)")
  case (Some a)
  then show ?thesis
  proof (cases "hget (hp_shares S) a")
    case (Some s)
    then obtain ct where "hget (hp_ctrls S) (shr_ctrl s) = Some ct" using server_inv_share [OF assms] by blast
    with Some \<open>map_find n (sv_tcp_shares S) = Some a\<close> show ?thesis by (simp add: directory_owner live_def)
  qed (simp add: directory_owner live_def)
qed (simp add: directory_owner)

section \<open>The operations\<close>

text \<open>The registration of shares under the controller of the client \<open>u\<close>.\<close>

lemma directory_register_share:
  assumes inv: "server_inv {} S" and c: "hget (hp_ctrls S) c = Some ct" and reg: "register_share c it S = (r, T)"
  shows "(r = None \<longleftrightarrow> dr_owner (directory S) (ts_id it) = None) \<and>
    directory T = (if r = None then (directory S)\<lparr>dr_owner := (dr_owner (directory S))(ts_id it \<mapsto> ct_uuid ct)\<rparr> else directory S)"
proof (cases r)
  case (Some e)
  then show ?thesis using register_share_error [of c it S e T] reg owned_live [OF inv] by auto
next
  case None
  let ?a = "hp_next S"
  obtain m where T: "T = S\<lparr>hp_next := Suc ?a, hp_shares := hnew ?a (share_new c (ts_id it) (ts_port it)) (hp_shares S),
      hp_ctrls := hupd c (\<lambda>ct. ct\<lparr>ct_shares := map_emplace (ts_id it) ?a (ct_shares ct)\<rparr>) (hp_ctrls S), sv_tcp_shares := m\<rparr>"
    and m: "map_find (ts_id it) m = Some ?a" "\<And>i. i \<noteq> ts_id it \<Longrightarrow> map_find i m = map_find i (sv_tcp_shares S)"
    and dead: "\<forall>a. map_find (ts_id it) (sv_tcp_shares S) = Some a \<longrightarrow> \<not> live (hp_shares S) a"
    using register_share_new [of c it S T] reg None server_inv_sets(2) [OF inv] by blast
  have fresh: "b \<noteq> ?a" if "map_find n (sv_tcp_shares S) = Some b" for n b
    using server_inv_sets(5) [OF inv map_find_set [OF that]] by simp
  have uuid: "map_option ct_uuid (hget (hp_ctrls T) d) = map_option ct_uuid (hget (hp_ctrls S) d)" for d
    by (auto simp: T option.map_comp comp_def)
  have "dr_owner (directory T) n = ((dr_owner (directory S))(ts_id it \<mapsto> ct_uuid ct)) n" for n
  proof (cases "n = ts_id it")
    case True
    have "hget (hp_shares T) ?a = Some (share_new c (ts_id it) (ts_port it))" "shr_ctrl (share_new c (ts_id it) (ts_port it)) = c"
      "map_find n (sv_tcp_shares T) = Some ?a" "map_option ct_uuid (hget (hp_ctrls T) c) = Some (ct_uuid ct)"
      using m(1) True c uuid by (simp_all add: T share_new_def)
    then show ?thesis using True by (simp add: directory_owner)
  next
    case False
    then have "map_find n (sv_tcp_shares T) = map_find n (sv_tcp_shares S)" using m(2) by (simp add: T)
    moreover have "hget (hp_shares T) b = hget (hp_shares S) b" if "map_find n (sv_tcp_shares S) = Some b" for b
      using fresh [OF that] by (simp add: T)
    ultimately show ?thesis using False uuid by (auto simp: directory_owner split: option.split)
  qed
  moreover have "dr_client (directory T) = dr_client (directory S)"
  proof -
    have "sv_ctrls T = sv_ctrls S" by (simp add: T)
    moreover have "live (hp_ctrls T) d = live (hp_ctrls S) d" for d
      using uuid [of d] by (cases "hget (hp_ctrls S) d"; cases "hget (hp_ctrls T) d") (simp_all add: live_def)
    ultimately show ?thesis by (simp add: fun_eq_iff directory_client)
  qed
  ultimately show ?thesis
    using None dead owned_live [OF inv, of "ts_id it"] by (simp add: directory.equality fun_eq_iff)
qed

lemma directory_register_shares:
  "server_inv {} S \<Longrightarrow> ctrl_fresh S c \<Longrightarrow> hget (hp_ctrls S) c = Some ct \<Longrightarrow> register_shares c its S = (r, T) \<Longrightarrow>
    directory T = (directory S)\<lparr>dr_owner := enlist (ct_uuid ct) (map ts_id its) (dr_owner (directory S))\<rparr>"
proof (induction its arbitrary: S ct)
  case (Cons it its)
  obtain x U where U: "register_share c it S = (x, U)" by fastforce
  note d = directory_register_share [OF Cons.prems(1,3) U]
  show ?case
  proof (cases x)
    case (Some e)
    then show ?thesis using U Cons.prems(4) d by auto
  next
    case None
    obtain ss where ss: "hget (hp_ctrls U) c = Some (ct\<lparr>ct_shares := ss\<rparr>)"
      using register_share_keeps [OF Cons.prems(1) U] Cons.prems(3) by blast
    have "server_inv {} U" "ctrl_fresh U c"
      using server_inv_register_share [OF Cons.prems(1,2)] U None by auto
    moreover have "register_shares c its U = (r, T)" using Cons.prems(4) U None by simp
    ultimately have "directory T =
        (directory U)\<lparr>dr_owner := enlist (ct_uuid ct) (map ts_id its) (dr_owner (directory U))\<rparr>"
      using Cons.IH [OF _ _ ss] by simp
    then show ?thesis using d None by simp
  qed
qed simp

text \<open>The hello of a client.\<close>

lemma directory_hello_client:
  assumes inv: "server_inv {} S" and k: "hget (hp_conns S) k = Some cn"
    and h: "hello_client J wm now k hello S = (r, T)"
  shows "directory T = dir_join (ch_client_uuid hello) (map ts_id (ch_tcp_shares hello)) (directory S)"
proof -
  let ?c = "hp_next S" and ?u = "ch_client_uuid hello" and ?S = "hello_start k cn hello S"
  have old: "d \<noteq> ?c" if "map_find v (sv_ctrls S) = Some d" for v d
    using server_inv_sets(4) [OF inv map_find_set [OF that]] by simp
  have held: "shr_ctrl s \<noteq> ?c" if s: "hget (hp_shares S) a = Some s" for a s
    using server_inv_share [OF inv s] server_inv_ctrl [OF inv] by fastforce
  have keep: "directory ?S = directory S"
  proof (rule directory.equality)
    show "dr_client (directory ?S) = dr_client (directory S)"
      using old by (auto simp: fun_eq_iff directory_client hello_start_def upd_conn_def live_def)
    show "dr_owner (directory ?S) = dr_owner (directory S)"
      using held by (auto simp: fun_eq_iff directory_owner hello_start_def upd_conn_def split: option.split)
  qed simp
  obtain x U where U: "register_ctrl ?c ?u ?S = (x, U)" by fastforce
  show ?thesis
  proof (cases x)
    case (Some e)
    then have "dr_client (directory ?S) ?u"
      using U by (auto simp: register_ctrl_def directory_client split: option.splits if_splits)
    moreover have "T = ?S" using Some U h k register_ctrl_error [of ?c ?u ?S e U]
      by (simp add: hello_client_def hello_start_def Let_def)
    ultimately show ?thesis using keep by (simp add: dir_join_def)
  next
    case None
    then have free: "\<forall>c. map_find ?u (sv_ctrls S) = Some c \<longrightarrow> \<not> live (hp_ctrls S) c"
      using U old by (auto simp: register_ctrl_def hello_start_def upd_conn_def live_def split: option.splits if_splits)
    have i: "server_inv {} U" "ctrl_fresh U ?c" "hget (hp_ctrls U) ?c = Some (ctrl_new (cn_sock cn) ?u)"
      using hello_started [OF inv free, of k cn] U None by auto
    have n: "\<not> dr_client (directory S) ?u" using free by (auto simp: directory_client)
    have "directory U = (directory S)\<lparr>dr_client := (dr_client (directory S))(?u := True)\<rparr>"
    proof -
      obtain m where m: "U = ?S\<lparr>sv_ctrls := m\<rparr>" "map_find ?u m = Some ?c" "\<And>v. v \<noteq> ?u \<Longrightarrow> map_find v m = map_find v (sv_ctrls S)"
        using U None server_inv_sets(1) [OF inv]
        by (auto simp: register_ctrl_def hello_start_def upd_conn_def find_emplace find_assign split: option.splits if_splits)
      have "dr_owner (directory U) = dr_owner (directory ?S)" by (simp add: fun_eq_iff directory_owner m(1) split: option.split)
      moreover have "dr_client (directory U) v = (v = ?u \<or> dr_client (directory ?S) v)" for v
      proof (cases "v = ?u")
        case True
        then show ?thesis using m(2) by (simp add: directory_client m(1) hello_start_def upd_conn_def live_def)
      next
        case False
        have "sv_ctrls ?S = sv_ctrls S" by (simp add: hello_start_def upd_conn_def)
        then show ?thesis using False m(3) [OF False] by (simp add: directory_client m(1))
      qed
      ultimately show ?thesis unfolding keep by (simp add: directory.equality fun_eq_iff)
    qed
    moreover obtain y V where V: "register_shares ?c (ch_tcp_shares hello) U = (y, V)" by fastforce
    moreover have "directory T = directory V"
      using h k U V None by (cases y) (auto simp: hello_client_def hello_start_def Let_def shape_upd_conn shape_upd_ctrl
          intro!: directory_shape)
    ultimately show ?thesis
      using directory_register_shares [OF i V] n by (simp add: dir_join_def ctrl_new_def)
  qed
qed

text \<open>The hello of a worker names a share and leaves the directory alone.\<close>

lemma directory_hello_worker:
  assumes inv: "server_inv {} S" and h: "hello_worker now k hello S = (r, T)"
  shows "directory T = directory S"
  by (rule directory_same)
    (use h in \<open>auto simp: hello_worker_def Let_def upd_share_def upd_conn_def option.map_comp comp_def
      split: option.splits if_splits\<close>)

section \<open>The events\<close>

text \<open>What a client asks for by an event: a hello that the server understands.\<close>

fun asked :: "json_lib \<Rightarrow> server_event \<Rightarrow> client_hello option" where
  "asked J (sev_hello k r) =
     (case ebind r (unmarshal_msg J [T_client_hello, T_worker_hello]) of Inr (M_client_hello h) \<Rightarrow> Some h | _ \<Rightarrow> None)"
| "asked J _ = None"

definition dir_act :: "client_hello option \<Rightarrow> directory \<Rightarrow> directory" where
  "dir_act h d = (case h of None \<Rightarrow> d | Some h \<Rightarrow> dir_join (ch_client_uuid h) (map ts_id (ch_tcp_shares h)) d)"

lemma directory_conn_on_hello:
  assumes inv: "server_inv {} S" and k: "hget (hp_conns S) k = Some cn"
  shows "directory (conn_on_hello J wm now k r S) = dir_act (asked J (sev_hello k r)) (directory S)"
proof -
  let ?S = "upd_conn k (\<lambda>cn. cn\<lparr>cn_recv := False\<rparr>) S"
  have S: "server_inv {} ?S" "directory ?S = directory S"
    using inv by (simp_all add: shape_upd_conn directory_shape [OF shape_upd_conn])
  obtain cn' where k': "hget (hp_conns ?S) k = Some cn'" using k by (simp add: upd_conn_def)
  show ?thesis
  proof (cases "ebind r (unmarshal_msg J [T_client_hello, T_worker_hello])")
    case (Inl e)
    then have "shape (conn_on_hello J wm now k r S) = shape ?S" by (simp add: conn_on_hello_def)
    from directory_shape [OF this] show ?thesis using S(2) Inl by (simp add: dir_act_def)
  next
    case (Inr m)
    obtain x T where T: "hello_msg J wm now k m ?S = (x, T)" by fastforce
    have "shape (conn_on_hello J wm now k r S) = shape T"
      using Inr T by (cases x) (simp_all add: conn_on_hello_def shape_upd_conn)
    then have "directory (conn_on_hello J wm now k r S) = directory T" by (rule directory_shape)
    moreover have "directory T = dir_act (asked J (sev_hello k r)) (directory ?S)"
    proof (cases m)
      case (M_client_hello h)
      then show ?thesis using Inr T directory_hello_client [OF S(1) k'] by (simp add: dir_act_def)
    next
      case (M_worker_hello h)
      then show ?thesis using Inr T directory_hello_worker [OF S(1)] by (simp add: dir_act_def)
    qed (use Inr T in \<open>simp_all add: dir_act_def\<close>)
    ultimately show ?thesis using S(2) by simp
  qed
qed

lemma directory_act:
  assumes inv: "server_inv {} S" and act: "server_act J wm now ev S = Some T"
  shows "directory T = dir_act (asked J ev) (directory S)"
proof (cases ev)
  case (sev_hello k r)
  then show ?thesis using act directory_conn_on_hello [OF inv] by (auto split: option.splits if_splits)
next
  case (sev_accept r)
  then have "T = serve_accepted now r S" using act by (simp split: if_splits)
  moreover have "directory (handle_socket now S) = directory S"
    by (rule directory_same) (simp_all add: handle_socket_def cleanup_sockets_def upd_conn_def Let_def)
  ultimately show ?thesis
    by (cases r) (auto simp: sev_accept dir_act_def serve_accepted_def intro!: directory_shape)
qed (use act in \<open>auto simp: dir_act_def shape_upd_share shape_ctrl_step split: option.splits if_splits
      intro!: directory_shape intro: shape_set_worker w_share_step\<close>)

text \<open>Destruction removes entries, and none whose share still has its forwarder.\<close>

lemma directory_collect: "dir_part (directory (collect S)) (directory S)"
proof -
  have c: "hget (hp_ctrls S) c = Some ct" if "hget (hp_ctrls (collect S)) c = Some ct" for c ct
    using that by (auto simp: collect_def collect_conns_def collect_ctrls_def collect_shares_def collect_workers_def Let_def
        hget_keep split: option.splits if_splits)
  have s: "\<exists>s'. hget (hp_shares S) a = Some s' \<and> shr_ctrl s' = shr_ctrl s" if "hget (hp_shares (collect S)) a = Some s" for a s
    using that by (auto simp: collect_def collect_conns_def collect_ctrls_def collect_shares_def
        hget_collect_workers_shares hget_keep split: option.splits if_splits)
  have same: "sv_ctrls (collect S) = sv_ctrls S" "sv_tcp_shares (collect S) = sv_tcp_shares S"
    by (simp_all add: collect_def collect_conns_def collect_ctrls_def collect_shares_def collect_workers_def Let_def)
  have owner: "dr_owner (directory S) n = Some u" if own: "dr_owner (directory (collect S)) n = Some u" for n u
  proof -
    obtain a t ct where "map_find n (sv_tcp_shares S) = Some a" "hget (hp_shares (collect S)) a = Some t"
      "hget (hp_ctrls (collect S)) (shr_ctrl t) = Some ct" "ct_uuid ct = u"
      using own by (auto simp: directory_owner same split: option.splits)
    then show ?thesis using s [of a t] c by (auto simp: directory_owner)
  qed
  have "dr_client (directory S) u" if "dr_client (directory (collect S)) u" for u
    using that c by (auto simp: directory_client same live_def)
  then show ?thesis using owner unfolding dir_part_def map_le_def by (metis domD)
qed

text \<open>A share that still has its forwarder keeps its name.\<close>

lemma directory_kept:
  assumes "map_find n (sv_tcp_shares S) = Some a" "hget (hp_shares S) a = Some s" "shr_fwd s \<noteq> fwd_gone"
  shows "dr_owner (directory (collect S)) n = dr_owner (directory S) n"
proof -
  obtain s' where s': "hget (hp_shares (collect S)) a = Some s'" "shr_ctrl s' = shr_ctrl s"
    using collect_keeps_share [OF assms(2,3)] by blast
  have same: "sv_tcp_shares (collect S) = sv_tcp_shares S"
    by (simp add: collect_def collect_conns_def collect_ctrls_def collect_shares_def collect_workers_def Let_def)
  show ?thesis
  proof (cases "hget (hp_ctrls S) (shr_ctrl s)")
    case None
    then have "dr_owner (directory S) n = None" using assms by (simp add: directory_owner)
    moreover have "dr_owner (directory S) n = Some u" if "dr_owner (directory (collect S)) n = Some u" for u
      using directory_collect [of S] that by (auto simp: dir_part_def map_le_def dest: bspec [OF _ domI])
    ultimately show ?thesis by (cases "dr_owner (directory (collect S)) n") auto
  next
    case (Some ct)
    then show ?thesis using collect_keeps_ctrl [OF assms(2,3) Some] s' assms by (simp add: directory_owner same)
  qed
qed

section \<open>Runs\<close>

text \<open>The runs of a directory: hellos join it, in their order, and in between some of it may go.\<close>

definition dir_empty :: directory where
  "dir_empty = \<lparr>dr_client = (\<lambda>_. False), dr_owner = (\<lambda>_. None)\<rparr>"

inductive dir_run :: "client_hello list \<Rightarrow> directory \<Rightarrow> bool" where
  dir_start: "dir_run [] dir_empty"
| dir_joined: "dir_run hs d \<Longrightarrow> dir_run (hs @ [h]) (dir_act (Some h) d)"
| dir_gone: "dir_run hs d \<Longrightarrow> dir_part d' d \<Longrightarrow> dir_run hs d'"

lemma enlist_gives:
  "enlist u ns own n = Some v \<Longrightarrow> own n = Some v \<or> v = u \<and> n \<in> set ns"
proof (induction ns arbitrary: own)
  case (Cons m ns)
  show ?case
  proof (cases "own m = None")
    case True
    then have "enlist u ns (own(m \<mapsto> u)) n = Some v" using Cons.prems by simp
    from Cons.IH [OF this] show ?thesis by (cases "n = m") auto
  next
    case False
    then show ?thesis using Cons.prems by (auto split: if_splits)
  qed
qed simp

lemma dir_run_asked:
  "dir_run hs d \<Longrightarrow> dr_owner d n = Some u \<Longrightarrow> \<exists>h\<in>set hs. ch_client_uuid h = u \<and> n \<in> ts_id ` set (ch_tcp_shares h)"
proof (induction rule: dir_run.induct)
  case (dir_joined hs d h)
  then show ?case by (auto simp: dir_act_def dir_join_def split: if_splits dest!: enlist_gives)
next
  case (dir_gone hs d d')
  then show ?case by (auto simp: dir_part_def map_le_def) (metis domI)
qed (simp add: dir_empty_def)

text \<open>The hellos of a run of the server, in order.\<close>

fun asked_in :: "json_lib \<Rightarrow> (nat \<times> server_event) list \<Rightarrow> client_hello list" where
  "asked_in J [] = []"
| "asked_in J ((now, ev) # evs) = (case asked J ev of None \<Rightarrow> asked_in J evs | Some h \<Rightarrow> h # asked_in J evs)"

lemma directory_steps:
  "server_steps J wm evs S = Some S' \<Longrightarrow> server_inv {} S \<Longrightarrow> dir_run hs (directory S) \<Longrightarrow>
    dir_run (hs @ asked_in J evs) (directory S')"
proof (induction evs arbitrary: S hs)
  case (Cons p evs)
  obtain now ev where p: "p = (now, ev)" by fastforce
  obtain T where T: "server_act J wm now ev S = Some T" "server_steps J wm evs (collect T) = Some S'"
    using Cons.prems(1) by (auto simp: p server_step_def split: option.splits)
  have inv: "server_inv {} (collect T)" using nearly_inv_collect server_act_inv [OF Cons.prems(2) T(1)] by blast
  have "dir_run (hs @ asked_in J [p]) (directory T)"
    using directory_act [OF Cons.prems(2) T(1)] Cons.prems(3) dir_joined
    by (auto simp: p dir_act_def split: option.split)
  then have "dir_run (hs @ asked_in J [p]) (directory (collect T))" using dir_gone directory_collect by blast
  from Cons.IH [OF T(2) inv this] show ?case by (simp add: p split: option.splits)
qed simp

text \<open>A name belongs only to a client that asked for it.\<close>

theorem names_belong_to_who_asked:
  assumes "server_steps J wm evs (server_run server_new) = Some S" "dr_owner (directory S) n = Some u"
  shows "\<exists>h\<in>set (asked_in J evs). ch_client_uuid h = u \<and> n \<in> ts_id ` set (ch_tcp_shares h)"
proof -
  have "directory (server_run server_new) = dir_empty"
    by (rule directory.equality) (simp_all add: fun_eq_iff directory_client directory_owner dir_empty_def server_run_def server_new_def)
  then have "dir_run ([] @ asked_in J evs) (directory S)"
    using directory_steps [OF assms(1) server_inv_new, of "[]"] dir_start by simp
  with dir_run_asked [OF _ assms(2)] show ?thesis by simp
qed

section \<open>Properties\<close>

text \<open>
  Property C4 (refinement): the server implements a directory.  In every reachable state, every event acts
  on the directory of clients and share names as specified: the hello of a client whose uuid
  is not in use joins it and is given the names it asks for, one by one up to the first that
  is taken, and no other event changes who owns what.  The destruction of objects
  afterwards only frees names, and none whose share still has its forwarder; so no name is ever
  taken over from a client that holds it.
\<close>

theorem server_implements_directory:
  assumes "server_reachable J wm S" "server_act J wm now ev S = Some T"
  shows "directory T = dir_act (asked J ev) (directory S) \<and> dir_part (directory (collect T)) (directory T) \<and>
    (\<forall>n a s. map_find n (sv_tcp_shares T) = Some a \<and> hget (hp_shares T) a = Some s \<and> shr_fwd s \<noteq> fwd_gone \<longrightarrow>
      dr_owner (directory (collect T)) n = dr_owner (directory T) n)"
  using directory_act [OF server_reachable_inv [OF assms(1)] assms(2)] directory_collect directory_kept by blast

text \<open>A client asks for a free name and then for one that another client holds.\<close>

theorem server_implements_directory_witness:
  "\<exists>T. server_act plain_json ''hi'' 4 (sev_hello 3 (Inr (msg_json (M_client_hello greedy_hello)))) one_client_state = Some T \<and>
    dr_owner (directory T) ''web'' = Some ''B'' \<and> dr_owner (directory T) ''ssh'' = Some ''A''"
proof -
  have asks: "asked plain_json (sev_hello 3 (Inr (msg_json (M_client_hello greedy_hello)))) = Some greedy_hello"
    by (simp add: unmarshal_msg_json)
  obtain T where T: "server_act plain_json ''hi'' 4 (sev_hello 3 (Inr (msg_json (M_client_hello greedy_hello)))) one_client_state = Some T"
    using one_client_free by simp
  have "\<not> dr_client (directory one_client_state) ''B''" "dr_owner (directory one_client_state) ''web'' = None"
    "dr_owner (directory one_client_state) ''ssh'' = Some ''A''"
    using one_client_free by (simp_all add: directory_client directory_owner one_client_state_def hget_def share_new_def map_find_def)
  moreover have "directory T = dir_act (Some greedy_hello) (directory one_client_state)"
    using server_implements_directory [OF one_client_reachable T] unfolding asks by blast
  ultimately show ?thesis using T by (simp add: dir_act_def dir_join_def greedy_hello_def)
qed

end
