(* ===== verification/Server_Stop.thy ===== *)
theory Server_Stop
  imports Server_Inv
begin

text \<open>
  How far a stop reaches (the \<open>try_stop\<close> functions of \<open>include/zrp/server.hpp\<close>): from the
  server to its controllers and connections, from a controller to its shares, from a share
  to its workers.
\<close>

section \<open>What a stop reaches\<close>

definition ctrl_halted :: "server \<Rightarrow> nat \<Rightarrow> bool" where
  "ctrl_halted S c \<longleftrightarrow> (\<forall>ct. hget (hp_ctrls S) c = Some ct \<longrightarrow>
    ct_stopping ct \<and> ct_sock ct = sock_closed \<and> wq_closed (ct_to_send ct))"

definition share_halted :: "server \<Rightarrow> nat \<Rightarrow> bool" where
  "share_halted S a \<longleftrightarrow> (\<forall>s. hget (hp_shares S) a = Some s \<longrightarrow> shr_closing s \<and> wq_closed (shr_wq s))"

definition worker_halted :: "server \<Rightarrow> nat \<Rightarrow> bool" where
  "worker_halted S w \<longleftrightarrow> (\<forall>wk. hget (hp_workers S) w = Some wk \<longrightarrow> w_stopping wk \<and>
    (\<not> w_visited wk \<longrightarrow> w_sock wk = sock_closed \<and> wq_closed (w_to_send wk)))"

definition conn_halted :: "server \<Rightarrow> nat \<Rightarrow> bool" where
  "conn_halted S k \<longleftrightarrow> (\<forall>cn. hget (hp_conns S) k = Some cn \<longrightarrow> cn_stopping cn)"

text \<open>\<open>S'\<close> comes from \<open>S\<close> by stopping things.\<close>

definition calmer :: "server \<Rightarrow> server \<Rightarrow> bool" where
  "calmer S S' \<longleftrightarrow> shape S' = shape S \<and> sv_stopping S' = sv_stopping S \<and>
    (\<forall>c. ctrl_halted S c \<longrightarrow> ctrl_halted S' c) \<and> (\<forall>a. share_halted S a \<longrightarrow> share_halted S' a) \<and>
    (\<forall>w. worker_halted S w \<longrightarrow> worker_halted S' w) \<and> (\<forall>k. conn_halted S k \<longrightarrow> conn_halted S' k) \<and>
    (\<forall>a. map_option shr_workers (hget (hp_shares S') a) = map_option shr_workers (hget (hp_shares S) a))"

lemma calmer_refl [simp]: "calmer S S"
  by (simp add: calmer_def)

lemma calmer_trans: "calmer S T \<Longrightarrow> calmer T U \<Longrightarrow> calmer S U"
  by (simp add: calmer_def)

lemma calmer_fold:
  assumes "\<And>x S. calmer S (f x S)" "\<And>x S. P x (f x S)" "\<And>x S S'. calmer S S' \<Longrightarrow> P x S \<Longrightarrow> P x S'"
  shows "calmer S (fold f xs S) \<and> (\<forall>x\<in>set xs. P x (fold f xs S))"
proof (induction xs arbitrary: S)
  case (Cons x xs)
  have "P x (fold f xs (f x S))" using assms(3) [OF conjunct1 [OF Cons.IH] assms(2)] .
  then show ?case using Cons.IH calmer_trans [OF assms(1) conjunct1 [OF Cons.IH]] by auto
qed simp

lemma worker_try_stop_halts:
  "w_stopping (worker_try_stop w)" "w_visited (worker_try_stop w) = w_visited w"
  "\<not> w_visited w \<Longrightarrow> w_sock (worker_try_stop w) = sock_closed \<and> wq_closed (w_to_send (worker_try_stop w))"
  by (simp_all add: worker_try_stop_def worker_ops Let_def)

lemma calmer_worker: "calmer S (upd_worker w worker_try_stop S) \<and> worker_halted (upd_worker w worker_try_stop S) w"
proof -
  have "shape (upd_worker w worker_try_stop S) = shape S" by (simp add: shape_upd_worker)
  then show ?thesis
    by (auto simp: calmer_def upd_worker_def ctrl_halted_def share_halted_def
        worker_halted_def conn_halted_def worker_try_stop_halts)
qed

lemma calmer_halted:
  "calmer S S' \<Longrightarrow> worker_halted S w \<Longrightarrow> worker_halted S' w"
  "calmer S S' \<Longrightarrow> conn_halted S k \<Longrightarrow> conn_halted S' k"
  by (simp_all add: calmer_def)

lemma not_live_halted:
  "\<not> live (hp_workers S) w \<Longrightarrow> worker_halted S w"
  "\<not> live (hp_conns S) k \<Longrightarrow> conn_halted S k"
  by (simp_all add: worker_halted_def conn_halted_def live_def)

lemma calmer_stop_workers:
  "calmer S (stop_workers ws S) \<and> (\<forall>x\<in>set ws. worker_halted (stop_workers ws S) (snd x))"
  unfolding stop_workers_def
  by (rule calmer_fold [where P = "\<lambda>x S. worker_halted S (snd x)"])
    (auto simp: calmer_worker not_live_halted intro: calmer_halted)

lemma calmer_share:
  "calmer S (upd_share a share_close S) \<and> share_halted (upd_share a share_close S) a"
proof -
  have "shape (upd_share a share_close S) = shape S" by (simp add: shape_upd_share)
  moreover have "wq_closed (shr_wq (share_close s)) \<and> shr_workers (share_close s) = shr_workers s" for s
    by (simp add: share_close_def share_post_def Let_def)
  ultimately show ?thesis
    by (auto simp: calmer_def upd_share_def ctrl_halted_def share_halted_def worker_halted_def
        conn_halted_def option.map_comp comp_def)
qed

text \<open>A share whose listed workers are stopped too.\<close>

definition share_stopped :: "server \<Rightarrow> nat \<Rightarrow> bool" where
  "share_stopped S a \<longleftrightarrow> share_halted S a \<and>
    (\<forall>s. hget (hp_shares S) a = Some s \<longrightarrow> (\<forall>x\<in>set (shr_workers s). worker_halted S (snd x)))"

lemma share_stopped_calmer: "calmer S S' \<Longrightarrow> share_stopped S a \<Longrightarrow> share_stopped S' a"
proof -
  assume c: "calmer S S'" and s: "share_stopped S a"
  have "\<forall>x\<in>set (shr_workers s'). worker_halted S' (snd x)" if "hget (hp_shares S') a = Some s'" for s'
  proof -
    have "map_option shr_workers (hget (hp_shares S) a) = Some (shr_workers s')"
      using c that unfolding calmer_def by (metis option.map(2))
    then obtain z where "hget (hp_shares S) a = Some z" "shr_workers z = shr_workers s'" by auto
    then have "\<forall>x\<in>set (shr_workers s'). worker_halted S (snd x)"
      using s unfolding share_stopped_def by metis
    then show ?thesis using calmer_halted(1) [OF c] by blast
  qed
  then show ?thesis using c s unfolding calmer_def share_stopped_def by blast
qed

lemma share_try_stop_stops: "calmer S (share_try_stop a S) \<and> share_stopped (share_try_stop a S) a"
proof (cases "hget (hp_shares S) a")
  case None
  then show ?thesis by (simp add: share_try_stop_def share_stopped_def share_halted_def)
next
  case (Some s)
  let ?T = "upd_share a share_close S"
  note t = calmer_share [of S a] and w = calmer_stop_workers [of ?T "shr_workers s"]
  have c: "calmer S (share_try_stop a S)"
    using Some calmer_trans [OF conjunct1 [OF t] conjunct1 [OF w]] by (simp add: share_try_stop_def)
  have "share_halted (share_try_stop a S) a"
    using Some t w unfolding calmer_def by (simp add: share_try_stop_def)
  moreover have "shr_workers s' = shr_workers s" if "hget (hp_shares (share_try_stop a S)) a = Some s'" for s'
    using c Some that unfolding calmer_def by (metis option.inject option.map(2))
  ultimately show ?thesis using c w Some by (auto simp: share_stopped_def share_try_stop_def)
qed

lemma share_not_live: "\<not> live (hp_shares S) a \<Longrightarrow> share_stopped S a"
  by (simp add: share_stopped_def share_halted_def live_def)

lemma stop_shares_stops: "calmer S (stop_shares ss S) \<and> (\<forall>x\<in>set ss. share_stopped (stop_shares ss S) (snd x))"
  unfolding stop_shares_def
  by (rule calmer_fold [where P = "\<lambda>x S. share_stopped S (snd x)"])
    (auto simp: share_try_stop_stops share_not_live share_stopped_calmer)

lemma calmer_ctrl: "calmer S (upd_ctrl c ctrl_close S) \<and> ctrl_halted (upd_ctrl c ctrl_close S) c"
proof -
  have "shape (upd_ctrl c ctrl_close S) = shape S" by (simp add: shape_upd_ctrl)
  moreover have "wq_closed (ct_to_send (ctrl_close ct))" for ct
    by (simp add: ctrl_close_def ctrl_post_def Let_def)
  ultimately show ?thesis
    by (auto simp: calmer_def upd_ctrl_def ctrl_halted_def share_halted_def worker_halted_def conn_halted_def)
qed

definition ctrl_stopped :: "server \<Rightarrow> nat \<Rightarrow> bool" where
  "ctrl_stopped S c \<longleftrightarrow> ctrl_halted S c \<and>
    (\<forall>ct. hget (hp_ctrls S) c = Some ct \<longrightarrow> (\<forall>x\<in>set (ct_shares ct). share_stopped S (snd x)))"

lemma shape_ct_shares:
  "shape S' = shape S \<Longrightarrow> hget (hp_ctrls S') c = Some ct' \<Longrightarrow>
    \<exists>ct. hget (hp_ctrls S) c = Some ct \<and> ct_shares ct = ct_shares ct' \<and> ct_uuid ct = ct_uuid ct'"
proof -
  assume "shape S' = shape S" "hget (hp_ctrls S') c = Some ct'"
  moreover from this have "sp_ctrl (shape S) c = Some (ct_uuid ct', ct_shares ct')"
    by (metis option.map(2) shape_simps(5))
  ultimately show ?thesis by auto
qed

lemma ctrl_stopped_calmer: "calmer S S' \<Longrightarrow> ctrl_stopped S c \<Longrightarrow> ctrl_stopped S' c"
  using share_stopped_calmer [of S S'] shape_ct_shares [of S' S c]
  unfolding ctrl_stopped_def calmer_def by metis

lemma ctrl_try_stop_stops: "calmer S (ctrl_try_stop c S) \<and> ctrl_stopped (ctrl_try_stop c S) c"
proof (cases "hget (hp_ctrls S) c")
  case None
  then show ?thesis by (simp add: ctrl_try_stop_def ctrl_stopped_def ctrl_halted_def)
next
  case (Some ct)
  let ?T = "upd_ctrl c ctrl_close S"
  note t = calmer_ctrl [of S c] and w = stop_shares_stops [of ?T "ct_shares ct"]
  have c: "calmer S (ctrl_try_stop c S)"
    using Some calmer_trans [OF conjunct1 [OF t] conjunct1 [OF w]] by (simp add: ctrl_try_stop_def)
  have "ctrl_halted (ctrl_try_stop c S) c"
    using Some t w unfolding calmer_def by (simp add: ctrl_try_stop_def)
  moreover have "ct_shares ct' = ct_shares ct" if "hget (hp_ctrls (ctrl_try_stop c S)) c = Some ct'" for ct'
    using shape_ct_shares [of "ctrl_try_stop c S" S c ct'] Some that by auto
  ultimately show ?thesis using c w Some by (auto simp: ctrl_stopped_def ctrl_try_stop_def)
qed

lemma conn_halted_upd:
  "(\<And>cn. cn_stopping (f cn)) \<Longrightarrow> l = k \<or> conn_halted S l \<Longrightarrow> conn_halted (upd_conn k f S) l"
  by (auto simp: conn_halted_def upd_conn_def)

lemma calmer_conn: "calmer S (conn_try_stop k S) \<and> conn_halted (conn_try_stop k S) k"
proof -
  let ?f = "\<lambda>cn. if cn_stopping cn then cn
    else (let cn = cn\<lparr>cn_stopping := True\<rparr> in
       if \<not> cn_finished cn \<and> cn_sock cn \<noteq> sock_moved then cn\<lparr>cn_sock := sock_closed\<rparr> else cn)"
  have f: "conn_try_stop k S = upd_conn k ?f S" by (simp add: conn_try_stop_def)
  have s: "cn_stopping (?f cn)" for cn by (simp add: Let_def)
  have c: "conn_halted (conn_try_stop k S) l" if "l = k \<or> conn_halted S l" for l
    unfolding f by (rule conn_halted_upd [OF s that])
  have "shape (conn_try_stop k S) = shape S" by simp
  then show ?thesis using c unfolding calmer_def
    by (simp add: ctrl_halted_def share_halted_def worker_halted_def conn_try_stop_def upd_conn_def)
qed

lemma stopped_accepting:
  "ctrl_stopped (S\<lparr>sv_accepting := b\<rparr>) c = ctrl_stopped S c"
  "conn_halted (S\<lparr>sv_accepting := b\<rparr>) k = conn_halted S k"
  by (simp_all add: ctrl_stopped_def ctrl_halted_def share_stopped_def share_halted_def worker_halted_def
      conn_halted_def)

lemma dead_stopped: "\<not> live (hp_ctrls S) c \<Longrightarrow> ctrl_stopped S c"
  by (simp add: ctrl_stopped_def ctrl_halted_def live_def)

lemma stop_ctrls_stops:
  "calmer S (fold (\<lambda>(i :: string, c) S. if live (hp_ctrls S) c then ctrl_try_stop c S else S) xs S) \<and>
    (\<forall>x\<in>set xs. ctrl_stopped
      (fold (\<lambda>(i, c) S. if live (hp_ctrls S) c then ctrl_try_stop c S else S) xs S) (snd x))"
  by (rule calmer_fold [where P = "\<lambda>x S. ctrl_stopped S (snd x)"])
    (auto simp: ctrl_try_stop_stops dead_stopped ctrl_stopped_calmer)

lemma stop_conns_stops:
  "calmer S (fold (\<lambda>k S. if live (hp_conns S) k then conn_try_stop k S else S) xs S) \<and>
    (\<forall>k\<in>set xs. conn_halted (fold (\<lambda>k S. if live (hp_conns S) k then conn_try_stop k S else S) xs S) k)"
  by (rule calmer_fold [where P = "\<lambda>k S. conn_halted S k"])
    (auto simp: calmer_conn not_live_halted intro: calmer_halted)

lemma server_try_stop_stops:
  "shape (server_try_stop S) = shape S \<and> (\<forall>x\<in>set (sv_ctrls S). ctrl_stopped (server_try_stop S) (snd x)) \<and>
    (\<forall>k\<in>set (sv_sockets S). conn_halted (server_try_stop S) k) \<and>
    sv_stopping (server_try_stop S) \<and> \<not> sv_accepting (server_try_stop S)"
proof -
  let ?T = "S\<lparr>sv_stopping := True\<rparr>"
  define S1 where "S1 = fold (\<lambda>(i, c) S. if live (hp_ctrls S) c then ctrl_try_stop c S else S) (sv_ctrls ?T) ?T"
  define S2 where "S2 = fold (\<lambda>k S. if live (hp_conns S) k then conn_try_stop k S else S) (sv_sockets S1) S1"
  have 1: "calmer ?T S1 \<and> (\<forall>x\<in>set (sv_ctrls ?T). ctrl_stopped S1 (snd x))"
    unfolding S1_def by (rule stop_ctrls_stops)
  have 2: "calmer S1 S2 \<and> (\<forall>k\<in>set (sv_sockets S1). conn_halted S2 k)"
    unfolding S2_def by (rule stop_conns_stops)
  have e: "server_try_stop S = S2\<lparr>sv_accepting := False\<rparr>"
    unfolding server_try_stop_def Let_def S2_def S1_def by (rule refl)
  have "shape S1 = shape S" using 1 unfolding calmer_def shape_server_flags by blast
  then have "sp_sockets (shape S1) = sp_sockets (shape S)" by (rule arg_cong)
  then have k: "sv_sockets S1 = sv_sockets S" by (simp only: shape_simps)
  have c: "ctrl_stopped S2 (snd x)" if "x \<in> set (sv_ctrls S)" for x
    using 1 ctrl_stopped_calmer [OF conjunct1 [OF 2]] that by simp
  have "conn_halted S2 x" if "x \<in> set (sv_sockets S)" for x
    using 2 that k by simp
  then have "\<forall>k\<in>set (sv_sockets S). conn_halted (server_try_stop S) k"
    and "\<forall>x\<in>set (sv_ctrls S). ctrl_stopped (server_try_stop S) (snd x)"
    using c unfolding e stopped_accepting by blast+
  moreover have "sv_stopping S2" using 1 2 unfolding calmer_def by simp
  ultimately show ?thesis using shape_server_try_stop [of S] by (simp add: e)
qed

section \<open>Properties\<close>

text \<open>
  Property C27 (safety): stopping the server reaches everything it has.  From any state the
  server can reach, after \<open>try_stop\<close> every live connection and every live controller is
  stopping, every controller's socket and queue are closed, every live share is
  closing with its queue closed, and every worker that its share lists is stopped, its
  socket and queue closed unless it was being visited.
\<close>

theorem server_stop_reaches_everything:
  assumes "server_reachable J wm S"
  shows "(\<forall>k cn. hget (hp_conns (server_try_stop S)) k = Some cn \<longrightarrow> cn_stopping cn) \<and>
    (\<forall>c ct. hget (hp_ctrls (server_try_stop S)) c = Some ct \<longrightarrow>
      ct_stopping ct \<and> ct_sock ct = sock_closed \<and> wq_closed (ct_to_send ct)) \<and>
    (\<forall>a s. hget (hp_shares (server_try_stop S)) a = Some s \<longrightarrow>
      shr_closing s \<and> wq_closed (shr_wq s) \<and>
      (\<forall>(i, w)\<in>set (shr_workers s). \<forall>wk. hget (hp_workers (server_try_stop S)) w = Some wk \<longrightarrow>
        w_stopping wk \<and> (\<not> w_visited wk \<longrightarrow> w_sock wk = sock_closed \<and> wq_closed (w_to_send wk)))) \<and>
    sv_stopping (server_try_stop S) \<and> \<not> sv_accepting (server_try_stop S)"
proof -
  let ?S = "server_try_stop S"
  have inv: "server_inv {} S" by (rule server_reachable_inv [OF assms])
  have shape: "shape ?S = shape S" by simp
  have inv': "server_inv {} ?S" using inv shape by simp
  have ctrls: "sv_ctrls ?S = sv_ctrls S" "sv_sockets ?S = sv_sockets S"
    using arg_cong [OF shape, of sp_ctrls] arg_cong [OF shape, of sp_sockets] by (simp_all only: shape_simps)
  have stop: "\<And>x. x \<in> set (sv_ctrls S) \<Longrightarrow> ctrl_stopped ?S (snd x)"
    and conns: "\<And>k. k \<in> set (sv_sockets S) \<Longrightarrow> conn_halted ?S k"
    using server_try_stop_stops [of S] by blast+
  have c: "ctrl_stopped ?S c" if ct: "hget (hp_ctrls ?S) c = Some ct" for c ct
  proof -
    have "map_find (ct_uuid ct) (sv_ctrls S) = Some c" using server_inv_ctrl [OF inv' ct] ctrls by simp
    then show ?thesis using stop [OF map_find_set] by simp
  qed
  have s: "share_stopped ?S a" if s: "hget (hp_shares ?S) a = Some s" for a s
  proof -
    obtain ct where ct: "hget (hp_ctrls ?S) (shr_ctrl s) = Some ct" "map_find (shr_id s) (ct_shares ct) = Some a"
      using server_inv_share [OF inv' s] by blast
    then show ?thesis using c [OF ct(1)] map_find_set [OF ct(2)] unfolding ctrl_stopped_def by fastforce
  qed
  have k: "cn_stopping cn" if cn: "hget (hp_conns ?S) k = Some cn" for k cn
  proof -
    have "k \<in> set (sv_sockets S)" using server_inv_sets(7) [OF inv', of k] cn ctrls by (simp add: live_def)
    then show ?thesis using conns cn unfolding conn_halted_def by blast
  qed
  have flags: "sv_stopping ?S \<and> \<not> sv_accepting ?S" using server_try_stop_stops [of S] by blast
  have w: "\<forall>(i, w)\<in>set (shr_workers s). \<forall>wk. hget (hp_workers ?S) w = Some wk \<longrightarrow>
        w_stopping wk \<and> (\<not> w_visited wk \<longrightarrow> w_sock wk = sock_closed \<and> wq_closed (w_to_send wk))"
    if "hget (hp_shares ?S) a = Some s" for a s
    using s [OF that] that unfolding share_stopped_def worker_halted_def by fastforce
  have c': "ct_stopping ct \<and> ct_sock ct = sock_closed \<and> wq_closed (ct_to_send ct)"
    if "hget (hp_ctrls ?S) c = Some ct" for c ct
    using c [OF that] that unfolding ctrl_stopped_def ctrl_halted_def by blast
  have s': "shr_closing s \<and> wq_closed (shr_wq s)" if "hget (hp_shares ?S) a = Some s" for a s
    using s [OF that] that unfolding share_stopped_def share_halted_def by blast
  show ?thesis by (intro conjI allI impI) (use c' s' k flags w in blast)+
qed

theorem server_stop_reaches_everything_witness:
  "\<exists>s ct. hget (hp_shares (server_try_stop one_client_state)) 2 = Some s \<and> shr_closing s \<and>
    hget (hp_ctrls (server_try_stop one_client_state)) 1 = Some ct \<and> ct_sock ct = sock_closed"
proof -
  have "\<exists>s ct. hget (hp_shares (server_try_stop one_client_state)) 2 = Some s \<and>
      hget (hp_ctrls (server_try_stop one_client_state)) 1 = Some ct"
    by (simp add: one_client_state_def server_try_stop_def server_eval)
  then show ?thesis using server_stop_reaches_everything [OF one_client_reachable] by blast
qed

definition twin_workers :: "(nat \<times> server_event) list" where
  "twin_workers = one_client @
    [(4, sev_hello 3 (Inr (msg_json (M_worker_hello \<lparr>wh_tcp_share_id = ''ssh'', wh_worker_id = 7\<rparr>)))),
     (5, sev_accept (Inr ())),
     (6, sev_hello 5 (Inr (msg_json (M_worker_hello \<lparr>wh_tcp_share_id = ''ssh'', wh_worker_id = 7\<rparr>)))),
     (7, sev_arrive 2 0), (7, sev_arrive 2 0), (8, sev_stop)]"

text \<open>
  A worker whose id its share knows already is out of reach of a stop.
  Two workers that say hello with the same id are both offered to users, but the share
  lists only the first: after a stop of the server the second is neither stopping
  nor closed.
\<close>

theorem twin_worker_survives_stop:
  "\<exists>S first second. server_steps plain_json ''hi'' twin_workers (server_run server_new) = Some S \<and>
    sv_stopping S \<and> hget (hp_workers S) 4 = Some first \<and> w_stopping first \<and>
    hget (hp_workers S) 6 = Some second \<and> \<not> w_stopping second \<and> w_sock second = sock_open"
  by (simp add: twin_workers_def server_steps_append one_client_run)
    (simp add: one_client_state_def server_eval Let_def server_try_stop_def got_worker_def cleanup_workers_def
      worker_run_def worker_new_def worker_ops worker_try_stop_def)

definition early_stop :: "(nat \<times> server_event) list" where
  "early_stop = [(0, sev_accept (Inr ())), (1, sev_hello 0 (Inr (msg_json ssh_hello))),
    (1, sev_conn_timer 0 (Inl (system_error operation_aborted))),
    (2, sev_ctrl 1 (cev_read (Inl (system_error end_of_file)))),
    (2, sev_ctrl 1 (cev_write (Inl (system_error not_connected)))),
    (3, sev_fwd_start 2 (Inr ())), (4, sev_share_closure 2 0), (5, sev_accept (Inr ()))]"

text \<open>
  A share whose controller stops before its forwarder was created
  outlives the stop.  \<open>try_stop\<close> finds no forwarder to tell, the forwarder then starts and
  accepts users, the share is never destroyed, and its id is refused to the next
  client that asks for it.
\<close>

theorem late_forwarder_outlives_stop:
  "\<exists>S s T. server_steps plain_json ''hi'' early_stop (server_run server_new) = Some S \<and>
    hget (hp_shares S) 2 = Some s \<and> shr_closing s \<and> shr_fwd s = fwd_running \<and> \<not> shr_fwd_stop s \<and>
    hello_client plain_json ''hi'' 6 3 \<lparr>ch_version = 0, ch_client_uuid = ''B'',
      ch_tcp_shares = [\<lparr>ts_id = ''ssh'', ts_port = 22\<rparr>]\<rparr> S = (Some (duplicate_tcp_share ''ssh''), T)"
  by (simp add: early_stop_def server_eval ssh_hello_def Let_def ctrl_on_write_def share_run_closure_def
      run_close_def)

end
