(* ===== verification/Client_Worker.thy ===== *)
theory Client_Worker
  imports Messages Lifecycle
begin

text \<open>
  The client's end of a worker connection (\<open>tcp_share_worker\<close> of \<open>include/zrp/client.hpp\<close>):
  two coroutines over one socket.  \<open>send_and_recv_msgs\<close> says hello, reads, and on a visit
  confirms and provides the socket to the queue of its share; \<open>ping_actor\<close> sends a ping
  when twenty seconds have passed since the last read began.

  As on the server's side, a coroutine is the point where it is suspended, an event is what
  one resumption does, sockets and timers answer what the environment chooses, an operation
  is aborted only if the program cancelled it, and the wait for a timer ends as \<open>wait_may_end\<close> says.  The queue belongs to the share:
  the worker's part of \<open>provide\<close> ends with the suspension, and \<open>Client\<close> resumes it.  A ghost
  trace records what the worker does that its peer or its share can see.
\<close>

section \<open>State\<close>

datatype ccoro = cc_main | cc_ping

datatype cmain_pc = cm_hello | cm_reading | cm_confirming | cm_providing | cm_done
datatype cping_pc = pg_waiting | pg_sending | pg_done

datatype action = a_send message | a_recv message | a_provide bool | a_close

text \<open>
  \<open>cw_ping\<close> is the expiry of \<open>ping_timer_\<close>, \<open>None\<close> for \<open>time_point::max()\<close>; \<open>cw_ping_cancelled\<close> is whether
  the wait of \<open>ping_actor\<close> was cancelled, which every change of the expiry does, and
  \<open>cw_cancelled\<close> the coroutines whose pending socket operation was.
\<close>

record cworker =
  cw_sock :: socket
  cw_share :: nat
  cw_share_id :: string
  cw_id :: int
  cw_visited :: bool
  cw_stopping :: bool
  cw_ping :: "nat option"
  cw_ping_cancelled :: bool
  cw_main :: cmain_pc
  cw_ping_pc :: cping_pc
  cw_cancelled :: "ccoro set"
  cw_trace :: "action list"

section \<open>Operations\<close>

definition cworker_new :: "nat \<Rightarrow> string \<Rightarrow> int \<Rightarrow> cworker" where
  "cworker_new share share_id worker_id =
    \<lparr>cw_sock = sock_open, cw_share = share, cw_share_id = share_id, cw_id = worker_id,
     cw_visited = False, cw_stopping = False, cw_ping = None, cw_ping_cancelled = False,
     cw_main = cm_done, cw_ping_pc = pg_done, cw_cancelled = {}, cw_trace = []\<rparr>"

definition cworker_act :: "action \<Rightarrow> cworker \<Rightarrow> cworker" where
  "cworker_act a w = w\<lparr>cw_trace := cw_trace w @ [a]\<rparr>"

text \<open>The operations on the socket that are in flight; \<open>close()\<close> and \<open>cancel()\<close> abort them.\<close>

definition cworker_in_flight :: "cworker \<Rightarrow> ccoro set" where
  "cworker_in_flight w =
    (if cw_main w = cm_hello \<or> cw_main w = cm_reading \<or> cw_main w = cm_confirming then {cc_main} else {}) \<union>
    (if cw_ping_pc w = pg_sending then {cc_ping} else {})"

text \<open>\<open>s_.close()\<close> does nothing to a socket that was moved out.\<close>

definition cworker_close_socket :: "cworker \<Rightarrow> cworker" where
  "cworker_close_socket w =
    (if cw_sock w = sock_open
     then cworker_act a_close (w\<lparr>cw_cancelled := cworker_in_flight w, cw_sock := sock_closed\<rparr>)
     else w)"

definition cworker_try_stop :: "cworker \<Rightarrow> cworker" where
  "cworker_try_stop w = (cworker_close_socket (w\<lparr>cw_stopping := True\<rparr>))\<lparr>cw_ping_cancelled := True\<rparr>"

definition cworker_handle_error :: "exn \<Rightarrow> cworker \<Rightarrow> cworker" where
  "cworker_handle_error e w = (if \<not> cw_stopping w then cworker_try_stop w else w)"

definition cworker_failed :: "exn \<Rightarrow> cworker \<Rightarrow> cworker" where
  "cworker_failed e w = (cworker_handle_error e w)\<lparr>cw_main := cm_done\<rparr>"

text \<open>\<open>send_msg(s_, marshal_msg(m))\<close> by \<open>send_and_recv_msgs\<close>, up to its suspension.\<close>

definition cworker_send :: "json_lib \<Rightarrow> message \<Rightarrow> cmain_pc \<Rightarrow> cworker \<Rightarrow> cworker" where
  "cworker_send J m pc w =
    (case marshal_msg J m of
      Inl e \<Rightarrow> cworker_failed e w
    | Inr jv \<Rightarrow> cworker_act (a_send m) (w\<lparr>cw_main := pc, cw_cancelled := cw_cancelled w - {cc_main}\<rparr>))"

definition cworker_set_ping_timer :: "nat \<Rightarrow> nat \<Rightarrow> cworker \<Rightarrow> cworker" where
  [simp]: "cworker_set_ping_timer after now w = w\<lparr>cw_ping := Some (now + after), cw_ping_cancelled := True\<rparr>"

text \<open>The head of the loop of \<open>send_and_recv_msgs\<close>.\<close>

definition cworker_loop :: "nat \<Rightarrow> cworker \<Rightarrow> cworker" where
  "cworker_loop now w =
    (if \<not> cw_visited w
     then (cworker_set_ping_timer 20 now w)\<lparr>cw_main := cm_reading, cw_cancelled := cw_cancelled w - {cc_main}\<rparr>
     else w\<lparr>cw_main := cm_done\<rparr>)"

text \<open>The \<open>int\<close> of the id as it is marshalled.\<close>

definition hello_of :: "cworker \<Rightarrow> worker_hello" where
  "hello_of w = \<lparr>wh_tcp_share_id = cw_share_id w, wh_worker_id = word_of_int (cw_id w)\<rparr>"

text \<open>The head of the loop of \<open>ping_actor\<close>: it waits for the timer.\<close>

definition cworker_ping_wait :: "cworker \<Rightarrow> cworker" where
  [simp]: "cworker_ping_wait w = w\<lparr>cw_ping_pc := pg_waiting, cw_ping_cancelled := False\<rparr>"

text \<open>\<open>run()\<close> spawns both coroutines, which run to their first suspension.\<close>

definition cworker_run :: "json_lib \<Rightarrow> cworker \<Rightarrow> cworker" where
  "cworker_run J w =
    cworker_ping_wait (cworker_send J (M_worker_hello (hello_of w)) cm_hello (w\<lparr>cw_ping := None\<rparr>))"

definition cworker_on_hello_written :: "nat \<Rightarrow> unit res \<Rightarrow> cworker \<Rightarrow> cworker" where
  "cworker_on_hello_written now r w =
    (case r of
      Inl e \<Rightarrow> cworker_failed e w
    | Inr _ \<Rightarrow> cworker_loop now w)"

text \<open>\<open>handle_msg(visit_tcp_share)\<close> up to its \<open>send_msg\<close>; \<open>c\<close> is what \<open>s_.cancel()\<close> did.\<close>

definition cworker_on_visit :: "json_lib \<Rightarrow> unit res \<Rightarrow> cworker \<Rightarrow> cworker" where
  "cworker_on_visit J c w =
    (let w = w\<lparr>cw_visited := True, cw_ping := None, cw_ping_cancelled := True\<rparr> in
     case c of
       Inl e \<Rightarrow> cworker_failed e w
     | Inr _ \<Rightarrow> cworker_send J M_visit_confirmed cm_confirming (w\<lparr>cw_cancelled := cworker_in_flight w - {cc_main}\<rparr>))"

definition cworker_on_read :: "json_lib \<Rightarrow> nat \<Rightarrow> json res \<Rightarrow> unit res \<Rightarrow> cworker \<Rightarrow> cworker" where
  "cworker_on_read J now r c w =
    (case ebind r (unmarshal_msg J [T_visit_tcp_share, T_pong]) of
      Inl e \<Rightarrow> cworker_failed e w
    | Inr (M_visit_tcp_share v) \<Rightarrow> cworker_on_visit J c (cworker_act (a_recv (M_visit_tcp_share v)) w)
    | Inr m \<Rightarrow> cworker_loop now (cworker_act (a_recv m) w))"

text \<open>After the confirmation was sent: \<open>share_->wq_.provide(move(s_))\<close>, up to its suspension.  The
  socket that is provided may be closed by then: the flag of the action.\<close>

definition cworker_on_confirmed :: "unit res \<Rightarrow> cworker \<Rightarrow> cworker" where
  "cworker_on_confirmed r w =
    (case r of
      Inl e \<Rightarrow> cworker_failed e w
    | Inr _ \<Rightarrow> cworker_act (a_provide (cw_sock w = sock_open)) (w\<lparr>cw_main := cm_providing, cw_sock := sock_moved\<rparr>))"

text \<open>The queue resumes \<open>provide\<close>.\<close>

definition cworker_on_provided :: "nat \<Rightarrow> unit res \<Rightarrow> cworker \<Rightarrow> cworker" where
  "cworker_on_provided now r w =
    (case r of
      Inl e \<Rightarrow> cworker_failed e w
    | Inr _ \<Rightarrow> cworker_loop now w)"

text \<open>\<open>ping_actor\<close> after its wait, and after its \<open>send_msg\<close>.\<close>

definition cworker_ping_check :: "json_lib \<Rightarrow> nat \<Rightarrow> cworker \<Rightarrow> cworker" where
  "cworker_ping_check J now w =
    (if cw_stopping w \<or> cw_visited w then w\<lparr>cw_ping_pc := pg_done\<rparr>
     else
       (case cw_ping w of
         Some expiry \<Rightarrow>
           if expiry \<le> now
           then
             (let w = w\<lparr>cw_ping := None\<rparr> in
              case marshal_msg J M_ping of
                Inl e \<Rightarrow> (cworker_handle_error e w)\<lparr>cw_ping_pc := pg_done\<rparr>
              | Inr jv \<Rightarrow> cworker_act (a_send M_ping)
                  (w\<lparr>cw_ping_pc := pg_sending, cw_cancelled := cw_cancelled w - {cc_ping}\<rparr>))
           else cworker_ping_wait w
       | None \<Rightarrow> cworker_ping_wait w))"

definition cworker_on_timer :: "json_lib \<Rightarrow> nat \<Rightarrow> unit res \<Rightarrow> cworker \<Rightarrow> cworker" where
  "cworker_on_timer J now r w =
    (case r of
      Inl e \<Rightarrow>
        if e \<noteq> system_error operation_aborted
        then (cworker_handle_error e w)\<lparr>cw_ping_pc := pg_done\<rparr>
        else cworker_ping_check J now w
    | Inr _ \<Rightarrow> cworker_ping_check J now w)"

definition cworker_on_ping_written :: "unit res \<Rightarrow> cworker \<Rightarrow> cworker" where
  "cworker_on_ping_written r w =
    (case r of
      Inl e \<Rightarrow> (cworker_handle_error e w)\<lparr>cw_ping_pc := pg_done\<rparr>
    | Inr _ \<Rightarrow> cworker_ping_wait w)"

section \<open>Steps\<close>

datatype cworker_event =
  cwe_hello_written "unit res"
| cwe_read "json res" "unit res"
| cwe_confirmed "unit res"
| cwe_provided "unit res"
| cwe_timer "unit res"
| cwe_ping_written "unit res"
| cwe_stop

text \<open>As \<open>may_end\<close> of the server's worker.\<close>

definition cmay_end :: "ccoro \<Rightarrow> 'a res \<Rightarrow> cworker \<Rightarrow> bool" where
  "cmay_end c r w \<longleftrightarrow> (r = Inl (system_error operation_aborted) \<longrightarrow> c \<in> cw_cancelled w) \<and>
    (\<not> isl r \<and> cw_sock w = sock_closed \<longrightarrow> c \<in> cw_cancelled w)"

text \<open>\<open>s_.cancel()\<close> succeeds on an open socket and throws on a closed one.\<close>

definition cancel_ok :: "cworker \<Rightarrow> unit res \<Rightarrow> bool" where
  "cancel_ok w c \<longleftrightarrow> (cw_sock w = sock_open \<longleftrightarrow> c = Inr ())"

fun cworker_step :: "json_lib \<Rightarrow> nat \<Rightarrow> cworker_event \<Rightarrow> cworker \<Rightarrow> cworker option" where
  "cworker_step J now (cwe_hello_written r) w =
     (if cw_main w = cm_hello \<and> cmay_end cc_main r w then Some (cworker_on_hello_written now r w) else None)"
| "cworker_step J now (cwe_read r c) w =
     (if cw_main w = cm_reading \<and> cmay_end cc_main r w \<and> cancel_ok w c
      then Some (cworker_on_read J now r c w) else None)"
| "cworker_step J now (cwe_confirmed r) w =
     (if cw_main w = cm_confirming \<and> cmay_end cc_main r w then Some (cworker_on_confirmed r w) else None)"
| "cworker_step J now (cwe_provided r) w =
     (if cw_main w = cm_providing then Some (cworker_on_provided now r w) else None)"
| "cworker_step J now (cwe_timer r) w =
     (if cw_ping_pc w = pg_waiting \<and> wait_may_end (cw_ping_cancelled w) (cw_ping w) r
      then Some (cworker_on_timer J now r w) else None)"
| "cworker_step J now (cwe_ping_written r) w =
     (if cw_ping_pc w = pg_sending \<and> cmay_end cc_ping r w then Some (cworker_on_ping_written r w) else None)"
| "cworker_step J now cwe_stop w = Some (cworker_try_stop w)"

fun cworker_steps :: "json_lib \<Rightarrow> (nat \<times> cworker_event) list \<Rightarrow> cworker \<Rightarrow> cworker option" where
  "cworker_steps J [] w = Some w"
| "cworker_steps J ((now, ev) # evs) w =
     (case cworker_step J now ev w of None \<Rightarrow> None | Some w' \<Rightarrow> cworker_steps J evs w')"

definition cworker_reachable :: "json_lib \<Rightarrow> cworker \<Rightarrow> bool" where
  "cworker_reachable J w \<longleftrightarrow>
    (\<exists>share share_id i evs. cworker_steps J evs (cworker_run J (cworker_new share share_id i)) = Some w)"

section \<open>Invariant\<close>

lemmas cworker_ops = cworker_act_def cworker_in_flight_def cworker_close_socket_def cworker_try_stop_def
  cworker_handle_error_def cworker_failed_def cworker_loop_def

lemma cworker_act_sel [simp]:
  "cw_main (cworker_act a w) = cw_main w" "cw_sock (cworker_act a w) = cw_sock w"
  "cw_visited (cworker_act a w) = cw_visited w" "cw_trace (cworker_act a w) = cw_trace w @ [a]"
  "cw_share (cworker_act a w) = cw_share w" "cw_id (cworker_act a w) = cw_id w"
  "cw_ping_pc (cworker_act a w) = cw_ping_pc w" "cw_stopping (cworker_act a w) = cw_stopping w"
  "cw_cancelled (cworker_act a w) = cw_cancelled w" "cw_ping (cworker_act a w) = cw_ping w"
  "cw_ping_cancelled (cworker_act a w) = cw_ping_cancelled w"
  by (simp_all add: cworker_act_def)

text \<open>The flags of a worker fit its coroutines.\<close>

definition cworker_inv :: "cworker \<Rightarrow> bool" where
  [zrp_inv]: "cworker_inv w \<longleftrightarrow>
    (cw_main w = cm_hello \<longrightarrow> cw_ping w = None \<and> cw_ping_pc w \<noteq> pg_sending) \<and>
    (cw_main w = cm_hello \<or> cw_main w = cm_reading \<longrightarrow> \<not> cw_visited w) \<and>
    (cw_main w = cm_confirming \<or> cw_main w = cm_providing \<longrightarrow> cw_visited w) \<and>
    (cw_sock w = sock_moved \<longleftrightarrow> cw_main w = cm_providing \<or> cw_main w = cm_done \<and> cw_sock w \<noteq> sock_closed) \<and>
    (cw_sock w = sock_moved \<longrightarrow> cw_visited w) \<and>
    (cw_sock w = sock_open \<longrightarrow> \<not> cw_stopping w) \<and>
    (cw_sock w = sock_closed \<longrightarrow> cw_stopping w) \<and>
    (cw_ping_pc w = pg_sending \<and> (cw_visited w \<or> cw_stopping w) \<longrightarrow> cc_ping \<in> cw_cancelled w) \<and>
    (cw_main w = cm_confirming \<and> cw_sock w = sock_closed \<longrightarrow> cc_main \<in> cw_cancelled w)"

lemma cworker_inv_run: "boost_json J \<Longrightarrow> cworker_inv (cworker_run J (cworker_new a sid i))"
  using marshal_total [of J "M_worker_hello (hello_of (cworker_new a sid i\<lparr>cw_ping := None\<rparr>))"]
  by (auto simp: cworker_inv_def cworker_run_def cworker_send_def cworker_new_def cworker_ops)

lemma cworker_failed_inv: "cworker_inv w \<Longrightarrow> cworker_inv (cworker_failed e w)"
  by (cases "cw_sock w") (auto simp: cworker_inv_def cworker_ops)

lemma cworker_act_inv [simp]: "cworker_inv (cworker_act a w) = cworker_inv w"
  by (simp add: cworker_inv_def cworker_act_def)

lemma cworker_stop_inv: "cworker_inv w \<Longrightarrow> cworker_inv (cworker_try_stop w)"
  by (cases "cw_sock w") (auto simp: cworker_inv_def cworker_ops)

lemma cworker_error_inv:
  "cworker_inv w \<Longrightarrow> cworker_inv ((cworker_handle_error e w)\<lparr>cw_ping_pc := pg_done\<rparr>)"
  by (cases "cw_sock w") (auto simp: cworker_inv_def cworker_ops)

lemma cworker_loop_inv:
  "cworker_inv w \<Longrightarrow> cw_main w = cm_hello \<or> cw_main w = cm_reading \<or> cw_main w = cm_providing \<Longrightarrow>
    cworker_inv (cworker_loop now w)"
  by (cases "cw_sock w") (auto simp: cworker_inv_def cworker_loop_def)

lemma cworker_visit_inv:
  assumes "boost_json J" "cworker_inv w" "cw_main w = cm_reading" "cancel_ok w c"
  shows "cworker_inv (cworker_on_visit J c w)"
proof -
  obtain m where m: "marshal_msg J M_visit_confirmed = Inr m" using marshal_total [OF assms(1)] by blast
  show ?thesis
    using assms(2-4) m
    by (cases c; cases "cw_sock w")
      (auto simp: cworker_inv_def cworker_on_visit_def cworker_send_def cworker_ops cancel_ok_def Let_def)
qed

lemma cworker_timer_inv:
  assumes "boost_json J" "cworker_inv w" "cw_ping_pc w = pg_waiting"
  shows "cworker_inv (cworker_on_timer J now r w)"
proof -
  obtain m where m: "marshal_msg J M_ping = Inr m" using marshal_total [OF assms(1)] by blast
  have "cworker_inv (cworker_ping_check J now w)"
    using assms(2,3) m
    by (cases "cw_sock w"; cases "cw_ping w")
      (auto simp: cworker_inv_def cworker_ping_check_def cworker_act_def Let_def)
  then show ?thesis
    using cworker_error_inv [OF assms(2)] by (auto simp: cworker_on_timer_def split: sum.split)
qed

lemma cworker_inv_ping_cancelled [simp]: "cworker_inv (w\<lparr>cw_ping_cancelled := b\<rparr>) = cworker_inv w"
  by (simp add: cworker_inv_def)

lemma cworker_step_inv:
  assumes "boost_json J" "cworker_inv w" "cworker_step J now ev w = Some w'"
  shows "cworker_inv w'"
proof (cases ev)
  case (cwe_hello_written r)
  then show ?thesis using assms
    by (cases r) (auto simp: cworker_on_hello_written_def cworker_failed_inv cworker_loop_inv split: if_splits)
next
  case (cwe_read r c)
  then show ?thesis using assms
    by (auto simp: cworker_on_read_def cworker_failed_inv intro!: cworker_visit_inv cworker_loop_inv
        simp: cancel_ok_def split: if_splits sum.splits message.splits)
next
  case (cwe_confirmed r)
  then have w': "w' = cworker_on_confirmed r w" and pc: "cw_main w = cm_confirming"
    using assms(3) by (auto split: if_splits)
  show ?thesis
  proof (cases r)
    case (Inl e)
    then show ?thesis using assms(2) by (simp add: w' cworker_on_confirmed_def cworker_failed_inv)
  next
    case (Inr u)
    then show ?thesis using assms(2) pc
      by (cases "cw_sock w") (auto simp: w' cworker_on_confirmed_def cworker_inv_def)
  qed
next
  case (cwe_provided r)
  then show ?thesis using assms
    by (cases r) (auto simp: cworker_on_provided_def cworker_failed_inv cworker_loop_inv split: if_splits)
next
  case (cwe_timer r)
  then show ?thesis using assms cworker_timer_inv by (auto split: if_splits)
next
  case (cwe_ping_written r)
  have "cworker_inv (w\<lparr>cw_ping_pc := pg_waiting, cw_ping_cancelled := False\<rparr>)" using assms(2) by (auto simp: cworker_inv_def)
  then show ?thesis using assms cwe_ping_written cworker_error_inv [OF assms(2)]
    by (auto simp: cworker_on_ping_written_def split: if_splits sum.splits)
next
  case cwe_stop
  then have "w' = cworker_try_stop w" using assms(3) by simp
  then show ?thesis using cworker_stop_inv [OF assms(2)] by simp
qed

lemma cworker_steps_inv:
  "cworker_steps J evs w = Some w' \<Longrightarrow> boost_json J \<Longrightarrow> cworker_inv w \<Longrightarrow> cworker_inv w'"
proof (induction evs arbitrary: w)
  case (Cons a evs)
  then show ?case by (cases a) (auto simp del: cworker_step.simps split: option.splits dest: cworker_step_inv)
qed simp

lemma cworker_reachable_inv: "boost_json J \<Longrightarrow> cworker_reachable J w \<Longrightarrow> cworker_inv w"
  unfolding cworker_reachable_def using cworker_steps_inv cworker_inv_run by blast

interpretation cworker_stop: stoppable cworker_try_stop cworker_handle_error cw_stopping "\<lambda>_. False"
  by unfold_locales (auto simp: cworker_ops)

section \<open>The protocol of a worker connection\<close>

text \<open>
  What a client may do on a worker connection, as the server expects it: greet once, then
  ping and take pongs, take one visit, confirm it, give the connection away.  It may
  close the connection at any point before it gives it away.  After the close it may still come
  upon what was received before, and give a dead connection away.
\<close>

datatype phase = ph_new | ph_idle | ph_visited | ph_confirmed | ph_provided | ph_closed bool | ph_dead

inductive proto_step :: "phase \<Rightarrow> action \<Rightarrow> phase \<Rightarrow> bool" where
  "proto_step ph_new (a_send (M_worker_hello h)) ph_idle"
| "proto_step ph_idle (a_send M_ping) ph_idle"
| "proto_step ph_idle (a_recv M_pong) ph_idle"
| "proto_step ph_idle (a_recv (M_visit_tcp_share v)) ph_visited"
| "proto_step ph_visited (a_send M_visit_confirmed) ph_confirmed"
| "proto_step ph_confirmed (a_provide True) ph_provided"
| "proto_step ph_idle a_close (ph_closed False)"
| "proto_step ph_confirmed a_close (ph_closed True)"
| "proto_step (ph_closed False) (a_recv M_pong) (ph_closed False)"
| "proto_step (ph_closed False) (a_recv (M_visit_tcp_share v)) ph_dead"
| "proto_step (ph_closed True) (a_provide False) ph_dead"

inductive_simps proto_step_simps [simp]:
  "proto_step ph_new a q" "proto_step ph_idle a q" "proto_step ph_visited a q" "proto_step ph_confirmed a q"
  "proto_step ph_provided a q" "proto_step (ph_closed b) a q" "proto_step ph_dead a q"

inductive proto_run :: "action list \<Rightarrow> phase \<Rightarrow> bool" where
  proto_nil: "proto_run [] ph_new"
| proto_snoc: "proto_run as p \<Longrightarrow> proto_step p a q \<Longrightarrow> proto_run (as @ [a]) q"

text \<open>The phase that a worker is in.\<close>

definition phase_of :: "cworker \<Rightarrow> phase" where
  "phase_of w =
    (case cw_main w of
      cm_hello \<Rightarrow> if cw_sock w = sock_open then ph_idle else ph_closed False
    | cm_reading \<Rightarrow> if cw_sock w = sock_open then ph_idle else ph_closed False
    | cm_confirming \<Rightarrow> if cw_sock w = sock_open then ph_confirmed else ph_closed True
    | _ \<Rightarrow> ph_provided)"

text \<open>
  The relation between a worker and the protocol.  What happened after the last suspension
  of the main coroutine does not matter any more: nothing more is sent, received or provided.
\<close>

definition follows :: "cworker \<Rightarrow> bool" where
  "follows w \<longleftrightarrow>
    (if cw_main w = cm_providing \<or> cw_main w = cm_done
     then \<exists>p. proto_run (cw_trace w) p
     else proto_run (cw_trace w) (phase_of w))"

lemma follows_settled:
  "cw_main w = cm_providing \<or> cw_main w = cm_done \<Longrightarrow> follows w \<longleftrightarrow> (\<exists>p. proto_run (cw_trace w) p)"
  by (simp add: follows_def)

lemma follows_busy:
  "cw_main w = cm_hello \<or> cw_main w = cm_reading \<or> cw_main w = cm_confirming \<Longrightarrow>
    follows w \<longleftrightarrow> proto_run (cw_trace w) (phase_of w)"
  by (auto simp: follows_def)

lemma follows_run: "boost_json J \<Longrightarrow> follows (cworker_run J (cworker_new a sid i))"
  using marshal_total [of J "M_worker_hello (hello_of (cworker_new a sid i\<lparr>cw_ping := None\<rparr>))"]
    proto_snoc [OF proto_nil, of "a_send (M_worker_hello h)" ph_idle for h]
  by (auto simp: follows_def phase_of_def cworker_run_def cworker_send_def cworker_new_def cworker_act_def)

lemma follows_pc:
  "follows (w\<lparr>cw_ping_pc := x\<rparr>) = follows w" "follows (w\<lparr>cw_ping_cancelled := b\<rparr>) = follows w"
  by (simp_all add: follows_def phase_of_def)

text \<open>Closing the socket is a step of the protocol wherever it happens.\<close>

lemma follows_stop:
  assumes "cworker_inv w" "follows w"
  shows "follows (cworker_try_stop w) \<and> follows (cworker_failed e w) \<and> follows (cworker_handle_error e w)"
proof -
  have open': "follows (cworker_close_socket (w\<lparr>cw_stopping := b\<rparr>))
      \<and> (\<exists>p. proto_run (cw_trace (cworker_close_socket (w\<lparr>cw_stopping := b\<rparr>))) p)" for b
  proof (cases "cw_sock w = sock_open")
    case True
    then have busy: "cw_main w = cm_hello \<or> cw_main w = cm_reading \<or> cw_main w = cm_confirming"
      using assms(1) by (cases "cw_main w") (auto simp: cworker_inv_def)
    then have "proto_run (cw_trace w @ [a_close]) (ph_closed (cw_main w = cm_confirming))"
      using assms(2) True by (intro proto_snoc [of _ "phase_of w"]) (auto simp: follows_busy phase_of_def)
    then show ?thesis using True busy
      by (auto simp: cworker_close_socket_def cworker_in_flight_def follows_def phase_of_def)
  next
    case False
    then show ?thesis using assms(2)
      by (auto simp: cworker_close_socket_def follows_def phase_of_def split: if_splits)
  qed
  have "\<exists>p. proto_run (cw_trace w) p" using assms(2) by (auto simp: follows_def split: if_splits)
  then show ?thesis
    using open' [of True] assms(2)
    by (auto simp: cworker_try_stop_def cworker_failed_def cworker_handle_error_def follows_settled follows_pc)
qed

lemma follows_loop:
  assumes "cworker_inv w" "proto_run (cw_trace w) (phase_of w) \<or> cw_main w = cm_providing \<and> follows w"
    and "cw_main w \<noteq> cm_confirming" "cw_main w \<noteq> cm_done"
  shows "follows (cworker_loop now w)"
  using assms by (cases "cw_main w")
    (auto simp: cworker_loop_def follows_def phase_of_def cworker_inv_def split: if_splits)

lemma follows_timer:
  assumes "boost_json J" "cworker_inv w" "follows w"
  shows "follows (cworker_on_timer J now r w)"
proof -
  obtain m where m: "marshal_msg J M_ping = Inr m" using marshal_total [OF assms(1)] by blast
  have "follows (cworker_ping_check J now w)"
  proof (cases "\<exists>x. cw_ping w = Some x \<and> x \<le> now \<and> \<not> cw_stopping w \<and> \<not> cw_visited w")
    case True
    then have idle: "cw_main w = cm_reading" "cw_sock w = sock_open"
      using assms(2) by (cases "cw_main w"; cases "cw_sock w"; auto simp: cworker_inv_def)+
    then have "proto_run (cw_trace w @ [a_send M_ping]) ph_idle"
      using assms(3) by (intro proto_snoc [of _ "phase_of w"]) (auto simp: follows_busy phase_of_def)
    then show ?thesis using True idle m
      by (auto simp: cworker_ping_check_def follows_def phase_of_def Let_def)
  next
    case False
    then have "cworker_ping_check J now w = cworker_ping_wait w \<or> cworker_ping_check J now w = w\<lparr>cw_ping_pc := pg_done\<rparr>"
      by (auto simp: cworker_ping_check_def split: option.split)
    then show ?thesis using assms(3) by (auto simp: follows_pc)
  qed
  then show ?thesis
    using follows_stop [OF assms(2,3)] by (auto simp: cworker_on_timer_def follows_pc split: sum.split)
qed

lemma follows_read:
  assumes "boost_json J" "cworker_inv w" "follows w" "cw_main w = cm_reading" "cancel_ok w c"
  shows "follows (cworker_on_read J now r c w)"
proof (cases "ebind r (unmarshal_msg J [T_visit_tcp_share, T_pong])")
  case (Inl e)
  then show ?thesis using follows_stop [OF assms(2,3)] by (simp add: cworker_on_read_def)
next
  case (Inr msg)
  have run: "proto_run (cw_trace w) (phase_of w)" using assms(3,4) by (simp add: follows_busy)
  have ph: "phase_of w = (if cw_sock w = sock_open then ph_idle else ph_closed False)"
    using assms(4) by (simp add: phase_of_def)
  have "type_of msg \<in> {T_visit_tcp_share, T_pong}"
    using Inr by (auto simp: ebind_Inr_iff dest: unmarshal_type)
  then consider v where "msg = M_visit_tcp_share v" | "msg = M_pong" by (cases msg) auto
  then show ?thesis
  proof cases
    case (1 v)
    let ?a = "a_recv (M_visit_tcp_share v)"
    show ?thesis
    proof (cases c)
      case (Inl e)
      then have "cw_sock w \<noteq> sock_open" "cw_stopping w"
        using assms(2,4,5) by (cases "cw_sock w"; auto simp: cancel_ok_def cworker_inv_def)+
      then show ?thesis
        using proto_snoc [OF run, of ?a ph_dead] ph Inl Inr 1
        by (auto simp: cworker_on_read_def cworker_on_visit_def cworker_failed_def cworker_handle_error_def
            Let_def follows_def \<open>ebind r _ = _\<close>)
    next
      case c: (Inr u)
      obtain m where m: "marshal_msg J M_visit_confirmed = Inr m" using marshal_total [OF assms(1)] by blast
      have "cw_sock w = sock_open" using assms(5) c by (simp add: cancel_ok_def)
      then have "proto_run ((cw_trace w @ [?a]) @ [a_send M_visit_confirmed]) ph_confirmed"
        using run ph by (intro proto_snoc [of _ ph_visited] proto_snoc [of _ "phase_of w"]) auto
      then show ?thesis
        using \<open>cw_sock w = sock_open\<close> c Inr 1 m
        by (simp add: cworker_on_read_def cworker_on_visit_def cworker_send_def Let_def follows_def phase_of_def)
    qed
  next
    case 2
    have "proto_run (cw_trace w @ [a_recv M_pong]) (phase_of w)"
      by (rule proto_snoc [OF run]) (simp add: ph)
    then show ?thesis
      using Inr 2 assms(2,4) follows_loop [of "cworker_act (a_recv M_pong) w"]
      by (simp add: cworker_on_read_def phase_of_def)
  qed
qed

lemma follows_step:
  assumes "boost_json J" "cworker_inv w" "follows w" "cworker_step J now ev w = Some w'"
  shows "follows w'"
proof (cases ev)
  case (cwe_hello_written r)
  then show ?thesis using assms follows_stop [OF assms(2,3)] follows_loop [OF assms(2)]
    by (cases r) (auto simp: cworker_on_hello_written_def follows_busy split: if_splits)
next
  case (cwe_read r c)
  then show ?thesis using assms follows_read by (auto split: if_splits)
next
  case (cwe_confirmed r)
  then have pc: "cw_main w = cm_confirming" using assms(4) by (auto split: if_splits)
  then have run: "proto_run (cw_trace w) (phase_of w)" using assms(3) by (simp add: follows_busy)
  have "cw_sock w \<noteq> sock_moved" using assms(2) pc by (auto simp: cworker_inv_def)
  then have "proto_run (cw_trace w @ [a_provide (cw_sock w = sock_open)])
      (if cw_sock w = sock_open then ph_provided else ph_dead)"
    using pc by (intro proto_snoc [OF run]) (auto simp: phase_of_def)
  then show ?thesis using assms(4) cwe_confirmed follows_stop [OF assms(2,3)] pc
    by (cases r) (auto simp: cworker_on_confirmed_def follows_def split: if_splits)
next
  case (cwe_provided r)
  then have pc: "cw_main w = cm_providing" using assms(4) by (auto split: if_splits)
  then show ?thesis using assms cwe_provided follows_stop [OF assms(2,3)] follows_loop [OF assms(2)]
    by (cases r) (auto simp: cworker_on_provided_def split: if_splits)
next
  case (cwe_timer r)
  then show ?thesis using assms follows_timer by (auto split: if_splits)
next
  case (cwe_ping_written r)
  then show ?thesis using assms follows_stop [OF assms(2,3)]
    by (cases r) (auto simp: cworker_on_ping_written_def follows_pc split: if_splits)
next
  case cwe_stop
  then show ?thesis using assms follows_stop [OF assms(2,3)] by auto
qed

lemma follows_steps:
  "cworker_steps J evs w = Some w' \<Longrightarrow> boost_json J \<Longrightarrow> cworker_inv w \<Longrightarrow> follows w \<Longrightarrow> follows w'"
proof (induction evs arbitrary: w)
  case (Cons a evs)
  then show ?case
    by (cases a) (auto simp del: cworker_step.simps split: option.splits dest: cworker_step_inv follows_step)
qed simp

lemma cworker_reachable_follows: "boost_json J \<Longrightarrow> cworker_reachable J w \<Longrightarrow> follows w"
  unfolding cworker_reachable_def using follows_steps cworker_inv_run follows_run by blast

section \<open>Properties\<close>

text \<open>
  Property C6 (refinement): the client's end of a worker connection implements the protocol.
  Whatever its peer, its timer and its share do, what the worker does on the connection is
  a run of \<open>proto_step\<close>: it greets once and first, pings only while it is idle, answers one
  visit with one confirmation, and gives the connection away at most once; while its main
  coroutine uses the socket the protocol is in the phase that the coroutine is in.
\<close>

theorem client_worker_follows_protocol:
  assumes "boost_json J" "cworker_reachable J w"
  shows "\<exists>p. proto_run (cw_trace w) p \<and>
    (cw_main w = cm_hello \<or> cw_main w = cm_reading \<or> cw_main w = cm_confirming \<longrightarrow> p = phase_of w)"
  using cworker_reachable_follows [OF assms] by (cases "cw_main w") (auto simp: follows_def)

lemma cworker_reachable_start: "cworker_reachable J (cworker_run J (cworker_new share sid i))"
  unfolding cworker_reachable_def by (metis cworker_steps.simps(1))

lemma cworker_steps_append:
  "cworker_steps J (as @ bs) w = Option.bind (cworker_steps J as w) (cworker_steps J bs)"
  by (induction as arbitrary: w) (auto split: option.splits)

lemma cworker_reachable_steps:
  "cworker_reachable J w \<Longrightarrow> cworker_steps J evs w = Some w' \<Longrightarrow> cworker_reachable J w'"
  unfolding cworker_reachable_def by (metis cworker_steps_append bind.bind_lunit)

text \<open>The runs of the witnesses, with the messages of the concrete library.\<close>

definition a_visit :: message where
  "a_visit = M_visit_tcp_share \<lparr>vt_epoch = 5, vt_peer = \<lparr>ep_ip = ''::1'', ep_port = 9\<rparr>\<rparr>"

definition idle_cworker :: cworker where
  "idle_cworker = \<lparr>cw_sock = sock_open, cw_share = 0, cw_share_id = ''ssh'', cw_id = 4, cw_visited = False,
     cw_stopping = False, cw_ping = Some 20, cw_ping_cancelled = True, cw_main = cm_reading,
     cw_ping_pc = pg_waiting, cw_cancelled = {},
     cw_trace = [a_send (M_worker_hello \<lparr>wh_tcp_share_id = ''ssh'', wh_worker_id = 4\<rparr>)]\<rparr>"

lemma unmarshal_a_visit: "unmarshal_msg plain_json [T_visit_tcp_share, T_pong] (msg_json a_visit) = Inr a_visit"
  by (simp add: unmarshal_msg_json a_visit_def)

lemmas cworker_eval = cworker_ops cworker_on_hello_written_def cworker_on_read_def cworker_on_visit_def
  cworker_on_confirmed_def cworker_on_provided_def cworker_on_timer_def cworker_ping_check_def
  cworker_on_ping_written_def cworker_send_def cmay_end_def cancel_ok_def marshal_msg_plain Let_def

lemma idle_cworker_run:
  "cworker_steps plain_json [(0, cwe_hello_written (Inr ()))] (cworker_run plain_json (cworker_new 0 ''ssh'' 4)) =
    Some idle_cworker"
  by (simp add: cworker_run_def cworker_new_def cworker_eval hello_of_def idle_cworker_def)

lemma idle_cworker_reachable: "cworker_reachable plain_json idle_cworker"
  using cworker_reachable_steps [OF cworker_reachable_start idle_cworker_run] .

theorem client_worker_follows_protocol_witness:
  "\<exists>w p. cworker_steps plain_json [(3, cwe_read (Inr (msg_json a_visit)) (Inr ())), (3, cwe_stop), (4, cwe_confirmed (Inr ()))]
      idle_cworker = Some w \<and> proto_run (cw_trace w) p \<and> last (cw_trace w) = a_provide False"
proof -
  obtain w where w: "cworker_steps plain_json [(3, cwe_read (Inr (msg_json a_visit)) (Inr ())), (3, cwe_stop), (4, cwe_confirmed (Inr ()))]
      idle_cworker = Some w" "last (cw_trace w) = a_provide False"
    using unmarshal_a_visit by (simp add: idle_cworker_def cworker_eval a_visit_def)
  with client_worker_follows_protocol [OF boost_json_plain cworker_reachable_steps [OF idle_cworker_reachable w(1)]]
  show ?thesis by blast
qed

text \<open>
  Property C32 (safety): the two coroutines of a worker never write at the same time.  In every
  reachable state at most one of the greeting, a ping and the confirmation is being
  written, but for a write that was already cancelled; so frames do not mix.  And a
  worker that is stopping has no usable socket.
\<close>

theorem client_writes_exclusive:
  assumes "boost_json J" "cworker_reachable J w"
  shows "\<not> ((cw_main w = cm_hello \<or> cw_main w = cm_confirming) \<and> cw_ping_pc w = pg_sending \<and>
      cc_ping \<notin> cw_cancelled w) \<and>
    (cw_stopping w \<longrightarrow> cw_sock w \<noteq> sock_open)"
  using cworker_reachable_inv [OF assms] by (auto simp: cworker_inv_def)

definition pinging_visited :: "(nat \<times> cworker_event) list" where
  "pinging_visited = [(20, cwe_timer (Inr ())), (21, cwe_read (Inr (msg_json a_visit)) (Inr ()))]"

lemma pinging_visited_run:
  "\<exists>w. cworker_steps plain_json pinging_visited idle_cworker = Some w \<and> cw_main w = cm_confirming \<and>
    cw_ping_pc w = pg_sending"
  using unmarshal_a_visit by (simp add: pinging_visited_def idle_cworker_def cworker_eval a_visit_def)

theorem client_writes_exclusive_witness:
  "\<exists>w. cworker_steps plain_json pinging_visited idle_cworker = Some w \<and> cw_main w = cm_confirming \<and>
    cw_ping_pc w = pg_sending \<and> cc_ping \<in> cw_cancelled w"
proof -
  obtain w where w: "cworker_steps plain_json pinging_visited idle_cworker = Some w" "cw_main w = cm_confirming"
    "cw_ping_pc w = pg_sending"
    using pinging_visited_run by blast
  with client_writes_exclusive [OF boost_json_plain cworker_reachable_steps [OF idle_cworker_reachable w(1)]]
  show ?thesis by auto
qed

text \<open>
  What a visit does to an idle worker: it is confirmed, and the open connection is provided
  to the share; the ping coroutine ends at the next end of its wait, and the main one when
  the connection is taken.
\<close>

lemma visit_provides:
  assumes "boost_json J" "cw_main w = cm_reading" "cw_sock w = sock_open" "\<not> cw_visited w"
    and "unmarshal_msg J [T_visit_tcp_share, T_pong] jv = Inr (M_visit_tcp_share v)"
  shows "\<exists>w'. cworker_steps J [(t, cwe_read (Inr jv) (Inr ())), (t', cwe_confirmed (Inr ()))] w = Some w' \<and>
    cw_main w' = cm_providing \<and> cw_sock w' = sock_moved \<and> cw_visited w' \<and> cw_ping_pc w' = cw_ping_pc w \<and> cw_ping_cancelled w' \<and>
    cw_trace w' = cw_trace w @ [a_recv (M_visit_tcp_share v), a_send M_visit_confirmed, a_provide True]"
proof -
  obtain m where "marshal_msg J M_visit_confirmed = Inr m" using marshal_total [OF assms(1)] by blast
  then show ?thesis using assms
    by (simp add: cworker_on_read_def cworker_on_visit_def cworker_send_def cmay_end_def cancel_ok_def Let_def
        cworker_on_confirmed_def cworker_act_def)
qed

lemma provided_ends:
  assumes "cw_main w = cm_providing" "cw_visited w" "cw_ping_pc w = pg_waiting" "cw_ping_cancelled w"
  shows "\<exists>w'. cworker_steps J [(t, cwe_provided (Inr ())), (t', cwe_timer (Inr ()))] w = Some w' \<and>
    cw_main w' = cm_done \<and> cw_ping_pc w' = pg_done \<and> cw_trace w' = cw_trace w"
  using assms by (simp add: cworker_on_provided_def cworker_loop_def cworker_on_timer_def cworker_ping_check_def)

text \<open>
  A visit can break on a ping.  When the visit comes while \<open>ping_actor\<close> is writing
  a ping, \<open>s_.cancel()\<close> aborts the write; \<open>ping_actor\<close> does not look at \<open>visited_\<close> before it
  handles the error, and stops the worker.  The confirmation may have been sent by then: the
  server has accepted the visit, and the connection that is provided to the share is closed.
\<close>

theorem visit_breaks_on_ping:
  "\<exists>w. cworker_steps plain_json (pinging_visited @
      [(21, cwe_ping_written (Inl (system_error operation_aborted))), (21, cwe_confirmed (Inr ()))]) idle_cworker = Some w \<and>
    cw_trace w = cw_trace idle_cworker @
      [a_send M_ping, a_recv a_visit, a_send M_visit_confirmed, a_close, a_provide False]"
  using unmarshal_a_visit by (simp add: pinging_visited_def idle_cworker_def cworker_eval a_visit_def)

text \<open>
  A ping that completes just too late keeps a worker.  When the write of the ping
  has succeeded before \<open>s_.cancel()\<close> of the visit but \<open>ping_actor\<close> is resumed after it, \<open>ping_actor\<close>
  does not look at \<open>visited_\<close> and waits again, for the timer that the visit has set to
  \<open>time_point::max()\<close> and will not cancel once more.  So the worker that has given its connection away
  is never destroyed, and its share goes on counting it.
\<close>

theorem late_ping_keeps_worker:
  "\<exists>w. cworker_steps plain_json (pinging_visited @
      [(21, cwe_ping_written (Inr ())), (21, cwe_confirmed (Inr ())), (21, cwe_provided (Inr ()))]) idle_cworker = Some w \<and>
    cw_main w = cm_done \<and> cw_sock w = sock_moved \<and> cw_visited w \<and> cw_ping_pc w = pg_waiting \<and> cw_ping w = None \<and>
    \<not> cw_ping_cancelled w"
  using unmarshal_a_visit
  by (simp add: pinging_visited_def idle_cworker_def cworker_eval a_visit_def cworker_on_provided_def)

end
