(* ===== verification/Pipe.thy ===== *)
theory Pipe
  imports Prelude Lifecycle
begin

text \<open>
  A pipe between the user's and the upstream socket (\<open>include/zrp/pipe.hpp\<close>): two
  coroutines \<open>half_pipe\<close>, each reading from one socket and writing to the other.  A step is
  the end of one socket operation; what the sockets answer is chosen by the environment,
  which never reads more than the buffer holds.  Each half has a ghost record of the bytes
  it has read and written.  Logging is left out.
\<close>

section \<open>State\<close>

definition pipe_buffer_size :: nat where
  "pipe_buffer_size = 8192"

datatype half_pc = half_reading | half_writing "byte list" | half_done

record half =
  hf_pc :: half_pc
  hf_read :: "byte list"
  hf_written :: "byte list"
  hf_shutdown :: bool

record pipe =
  pp_id :: int
  pp_lhs_open :: bool
  pp_rhs_open :: bool
  pp_stopping :: bool
  pp_forth :: half
  pp_back :: half

text \<open>\<open>half_pipe(lhs_s_, rhs_s_)\<close> and \<open>half_pipe(rhs_s_, lhs_s_)\<close>.\<close>

datatype way = forth | back_way

fun half_of :: "way \<Rightarrow> pipe \<Rightarrow> half" where
  "half_of forth p = pp_forth p"
| "half_of back_way p = pp_back p"

fun upd_half :: "way \<Rightarrow> (half \<Rightarrow> half) \<Rightarrow> pipe \<Rightarrow> pipe" where
  "upd_half forth f p = p\<lparr>pp_forth := f (pp_forth p)\<rparr>"
| "upd_half back_way f p = p\<lparr>pp_back := f (pp_back p)\<rparr>"

fun other_way :: "way \<Rightarrow> way" where
  "other_way forth = back_way"
| "other_way back_way = forth"

section \<open>Operations\<close>

definition half_idle :: half where
  "half_idle = \<lparr>hf_pc = half_done, hf_read = [], hf_written = [], hf_shutdown = False\<rparr>"

definition pipe_new :: "int \<Rightarrow> pipe" where
  "pipe_new i = \<lparr>pp_id = i, pp_lhs_open = True, pp_rhs_open = True, pp_stopping = False,
     pp_forth = half_idle, pp_back = half_idle\<rparr>"

definition pipe_try_stop :: "pipe \<Rightarrow> pipe" where
  "pipe_try_stop p =
    (let p = p\<lparr>pp_stopping := True\<rparr>;
         p = (if pp_lhs_open p then p\<lparr>pp_lhs_open := False\<rparr> else p)
     in if pp_rhs_open p then p\<lparr>pp_rhs_open := False\<rparr> else p)"

definition pipe_handle_error :: "exn \<Rightarrow> pipe \<Rightarrow> pipe" where
  "pipe_handle_error e p = (if \<not> pp_stopping p then pipe_try_stop p else p)"

definition pipe_run :: "pipe \<Rightarrow> pipe" where
  "pipe_run p = upd_half back_way (\<lambda>h. h\<lparr>hf_pc := half_reading\<rparr>)
    (upd_half forth (\<lambda>h. h\<lparr>hf_pc := half_reading\<rparr>) p)"

text \<open>The errors that end a direction of the stream and not the pipe.\<close>

fun orderly_end :: "exn \<Rightarrow> bool" where
  "orderly_end (system_error ec) \<longleftrightarrow> ec = not_connected \<or> ec = end_of_file \<or> ec = connection_reset"
| "orderly_end _ \<longleftrightarrow> False"

text \<open>Both \<open>catch\<close> clauses: \<open>shutdown_send\<close> on the socket that is written, or
  \<open>handle_error\<close>; then the coroutine ends.\<close>

definition half_failed :: "way \<Rightarrow> exn \<Rightarrow> pipe \<Rightarrow> pipe" where
  "half_failed d e p =
    upd_half d (\<lambda>h. h\<lparr>hf_pc := half_done\<rparr>)
      (if orderly_end e then upd_half d (\<lambda>h. h\<lparr>hf_shutdown := True\<rparr>) p
       else pipe_handle_error e p)"

definition half_on_read :: "way \<Rightarrow> byte list res \<Rightarrow> pipe \<Rightarrow> pipe" where
  "half_on_read d r p =
    (case r of
      Inl e \<Rightarrow> half_failed d e p
    | Inr bs \<Rightarrow> upd_half d (\<lambda>h. h\<lparr>hf_pc := half_writing bs, hf_read := hf_read h @ bs\<rparr>) p)"

text \<open>\<open>async_write\<close> succeeds when it has written all, or fails after \<open>n\<close> bytes.\<close>

definition half_on_write :: "way \<Rightarrow> byte list \<Rightarrow> (nat \<times> exn) option \<Rightarrow> pipe \<Rightarrow> pipe" where
  "half_on_write d bs r p =
    (case r of
      None \<Rightarrow> upd_half d (\<lambda>h. h\<lparr>hf_pc := half_reading, hf_written := hf_written h @ bs\<rparr>) p
    | Some (n, e) \<Rightarrow>
        half_failed d e (upd_half d (\<lambda>h. h\<lparr>hf_written := hf_written h @ take n bs\<rparr>) p))"

datatype pipe_event =
  pev_read way "byte list res"
| pev_write way "(nat \<times> exn) option"
| pev_stop

fun pipe_step :: "pipe_event \<Rightarrow> pipe \<Rightarrow> pipe option" where
  "pipe_step (pev_read d r) p =
     (if hf_pc (half_of d p) = half_reading \<and>
         (case r of Inr bs \<Rightarrow> 0 < length bs \<and> length bs \<le> pipe_buffer_size | Inl e \<Rightarrow> True)
      then Some (half_on_read d r p) else None)"
| "pipe_step (pev_write d r) p =
     (case hf_pc (half_of d p) of
       half_writing bs \<Rightarrow>
         if (case r of Some (n, e) \<Rightarrow> n \<le> length bs | None \<Rightarrow> True) then Some (half_on_write d bs r p)
         else None
     | _ \<Rightarrow> None)"
| "pipe_step pev_stop p = Some (pipe_try_stop p)"

fun pipe_steps :: "pipe_event list \<Rightarrow> pipe \<Rightarrow> pipe option" where
  "pipe_steps [] p = Some p"
| "pipe_steps (ev # evs) p = (case pipe_step ev p of None \<Rightarrow> None | Some p' \<Rightarrow> pipe_steps evs p')"

section \<open>Lemmas\<close>

lemma half_of_upd [simp]:
  "half_of d (upd_half d' f p) = (if d = d' then f (half_of d p) else half_of d p)"
  by (cases d; cases d') auto

lemma half_of_stop [simp]: "half_of d (pipe_try_stop p) = half_of d p"
  by (cases d) (simp_all add: pipe_try_stop_def Let_def)

lemma half_of_error [simp]: "half_of d (pipe_handle_error e p) = half_of d p"
  by (simp add: pipe_handle_error_def)

lemma stopping_upd [simp]:
  "pp_stopping (upd_half d f p) = pp_stopping p" "pp_lhs_open (upd_half d f p) = pp_lhs_open p"
  "pp_rhs_open (upd_half d f p) = pp_rhs_open p" "pp_id (upd_half d f p) = pp_id p"
  by (cases d; simp)+

lemma pipe_try_stop_closes [simp]:
  "pp_stopping (pipe_try_stop p)" "\<not> pp_lhs_open (pipe_try_stop p)" "\<not> pp_rhs_open (pipe_try_stop p)"
  by (simp_all add: pipe_try_stop_def Let_def)

interpretation pipe_stop: stoppable pipe_try_stop pipe_handle_error pp_stopping "\<lambda>_. False"
  by unfold_locales (auto simp: pipe_handle_error_def)

text \<open>What is on its way, and what holds of a direction at every moment.\<close>

definition in_flight :: "half \<Rightarrow> byte list" where
  "in_flight h = (case hf_pc h of half_writing bs \<Rightarrow> bs | _ \<Rightarrow> [])"

definition half_inv :: "half \<Rightarrow> bool" where
  [zrp_inv]: "half_inv h \<longleftrightarrow>
    (hf_pc h \<noteq> half_done \<longrightarrow> hf_read h = hf_written h @ in_flight h \<and> \<not> hf_shutdown h) \<and>
    (\<exists>lost. hf_read h = hf_written h @ lost \<and> length lost \<le> pipe_buffer_size)"

definition pipe_inv :: "pipe \<Rightarrow> bool" where
  [zrp_inv]: "pipe_inv p \<longleftrightarrow> half_inv (pp_forth p) \<and> half_inv (pp_back p) \<and>
    (pp_stopping p \<longleftrightarrow> \<not> pp_lhs_open p) \<and> (pp_stopping p \<longleftrightarrow> \<not> pp_rhs_open p)"

lemma pipe_inv_half: "pipe_inv p \<longleftrightarrow> (\<forall>d. half_inv (half_of d p)) \<and>
    (pp_stopping p \<longleftrightarrow> \<not> pp_lhs_open p) \<and> (pp_stopping p \<longleftrightarrow> \<not> pp_rhs_open p)"
  by (metis half_of.simps pipe_inv_def way.exhaust)

lemma pipe_step_inv:
  assumes inv: "pipe_inv p" and step: "pipe_step ev p = Some p'"
  shows "pipe_inv p'"
proof (cases ev)
  case (pev_read d r)
  have pc: "hf_pc (half_of d p) = half_reading" using step pev_read by (auto split: if_splits)
  have h: "half_inv (half_of d p)" using inv by (simp add: pipe_inv_half)
  show ?thesis
  proof (cases r)
    case (Inl e)
    then show ?thesis
      using step pev_read inv pc h
      by (auto simp: half_on_read_def half_failed_def pipe_inv_half pipe_handle_error_def half_inv_def
          in_flight_def split: if_splits)
  next
    case (Inr bs)
    then show ?thesis
      using step pev_read inv pc h
      by (auto simp: half_on_read_def pipe_inv_half half_inv_def in_flight_def split: if_splits)
  qed
next
  case (pev_write d r)
  obtain bs where pc: "hf_pc (half_of d p) = half_writing bs"
    using step pev_write by (auto split: half_pc.splits)
  have h: "half_inv (half_of d p)" using inv by (simp add: pipe_inv_half)
  then have read: "hf_read (half_of d p) = hf_written (half_of d p) @ bs" "length bs \<le> pipe_buffer_size"
    "\<not> hf_shutdown (half_of d p)"
    using pc by (auto simp: half_inv_def in_flight_def)
  show ?thesis
  proof (cases r)
    case None
    then show ?thesis
      using step pev_write inv pc read
      by (auto simp: half_on_write_def pipe_inv_half half_inv_def in_flight_def split: if_splits)
  next
    case (Some ne)
    obtain n e where ne: "ne = (n, e)" by (cases ne)
    have "bs = take n bs @ drop n bs" "length (drop n bs) \<le> pipe_buffer_size" using read(2) by simp_all
    then have "\<exists>lost. hf_read (half_of d p) = (hf_written (half_of d p) @ take n bs) @ lost \<and>
        length lost \<le> pipe_buffer_size"
      using read(1) by (metis append_assoc)
    then show ?thesis
      using step pev_write inv pc read Some ne
      by (auto simp: half_on_write_def half_failed_def pipe_inv_half pipe_handle_error_def half_inv_def
          in_flight_def split: if_splits)
  qed
next
  case pev_stop
  then show ?thesis using step inv by (auto simp: pipe_inv_half)
qed

lemma pipe_steps_inv: "pipe_steps evs p = Some p' \<Longrightarrow> pipe_inv p \<Longrightarrow> pipe_inv p'"
  by (induction evs arbitrary: p) (auto split: option.splits dest: pipe_step_inv)

lemma pipe_run_inv: "pipe_inv (pipe_run (pipe_new i))"
  by (simp add: pipe_inv_def pipe_run_def pipe_new_def half_idle_def half_inv_def in_flight_def)

lemma pipe_steps_append:
  "pipe_steps (as @ bs) p = Option.bind (pipe_steps as p) (pipe_steps bs)"
  by (induction as arbitrary: p) (auto split: option.splits)

section \<open>Properties\<close>

text \<open>
  A pipe is faithful to both streams.  At every moment of every
  run, what was written in a direction is what was read in it, in order, with nothing
  added and nothing missing but the bytes of the one write that is under way or that
  failed, never more than the buffer.
\<close>

theorem pipe_carries_stream:
  assumes "pipe_steps evs (pipe_run (pipe_new i)) = Some p"
  shows "\<exists>rest. hf_read (half_of d p) = hf_written (half_of d p) @ rest \<and> length rest \<le> pipe_buffer_size \<and>
    (hf_pc (half_of d p) \<noteq> half_done \<longrightarrow> rest = in_flight (half_of d p))"
proof -
  have "half_inv (half_of d p)" using pipe_steps_inv [OF assms pipe_run_inv] by (simp add: pipe_inv_half)
  then show ?thesis by (cases "hf_pc (half_of d p) = half_done") (auto simp: half_inv_def)
qed

text \<open>The run of the witnesses: two bytes go forth, one comes back, then the user ends.\<close>

definition short_talk :: "pipe_event list" where
  "short_talk = [pev_read forth (Inr [1, 2]), pev_write forth None, pev_read back_way (Inr [7])]"

lemma short_talk_run:
  "pipe_steps short_talk (pipe_run (pipe_new 0)) = Some \<lparr>pp_id = 0, pp_lhs_open = True, pp_rhs_open = True,
     pp_stopping = False,
     pp_forth = \<lparr>hf_pc = half_reading, hf_read = [1, 2], hf_written = [1, 2], hf_shutdown = False\<rparr>,
     pp_back = \<lparr>hf_pc = half_writing [7], hf_read = [7], hf_written = [], hf_shutdown = False\<rparr>\<rparr>"
  by (simp add: short_talk_def pipe_run_def pipe_new_def half_idle_def half_on_read_def half_on_write_def
      pipe_buffer_size_def)

theorem pipe_carries_stream_witness:
  "\<exists>p. pipe_steps short_talk (pipe_run (pipe_new 0)) = Some p \<and>
    hf_read (half_of back_way p) = hf_written (half_of back_way p) @ [7]"
  using pipe_carries_stream [OF short_talk_run, of back_way] short_talk_run by (auto simp: in_flight_def)

text \<open>
  Property C40 (error): how a pipe ends.  When an operation of a running pipe fails, its
  direction ends.  If the error is an orderly end of the stream, the peer is told by
  shutting down the writing side, both sockets stay open and the other direction goes on
  as before; a read that ends so has lost nothing.  Any other error closes both sockets
  at once, and no error that follows reopens them or stops the pipe again.
\<close>

theorem pipe_error_ends_direction:
  assumes "pipe_steps evs (pipe_run (pipe_new i)) = Some p" "\<not> pp_stopping p"
    and "ev = pev_read d (Inl e) \<or> ev = pev_write d (Some (n, e))" "pipe_step ev p = Some p'"
  shows "hf_pc (half_of d p') = half_done \<and> half_of (other_way d) p' = half_of (other_way d) p \<and>
    (orderly_end e \<longrightarrow> hf_shutdown (half_of d p') \<and> pp_lhs_open p' \<and> pp_rhs_open p' \<and>
      (ev = pev_read d (Inl e) \<longrightarrow> hf_written (half_of d p') = hf_read (half_of d p'))) \<and>
    (\<not> orderly_end e \<longrightarrow> pp_stopping p' \<and> \<not> pp_lhs_open p' \<and> \<not> pp_rhs_open p' \<and>
      pipe_stop.handle_errors es p' = p')"
proof -
  have inv: "pipe_inv p" by (rule pipe_steps_inv [OF assms(1) pipe_run_inv])
  then have open': "pp_lhs_open p" "pp_rhs_open p" using assms(2) by (auto simp: pipe_inv_def)
  have other: "other_way d \<noteq> d" by (cases d) auto
  obtain q where p': "p' = half_failed d e q" and q: "half_of (other_way d) q = half_of (other_way d) p"
    "pp_stopping q = pp_stopping p" "pp_lhs_open q" "pp_rhs_open q" "hf_pc (half_of d q) \<noteq> half_done"
    and lossless: "ev = pev_read d (Inl e) \<Longrightarrow> hf_written (half_of d q) = hf_read (half_of d q)"
  proof (cases "ev = pev_read d (Inl e)")
    case True
    then have pc: "hf_pc (half_of d p) = half_reading" and "p' = half_failed d e p"
      using assms(4) by (auto simp: half_on_read_def split: if_splits)
    moreover have "half_inv (half_of d p)" using inv by (simp add: pipe_inv_half)
    ultimately show ?thesis
      using that [of p] open' by (auto simp: half_inv_def in_flight_def)
  next
    case False
    then obtain bs where "hf_pc (half_of d p) = half_writing bs"
        "p' = half_failed d e (upd_half d (\<lambda>h. h\<lparr>hf_written := hf_written h @ take n bs\<rparr>) p)"
      using assms(3,4) by (auto simp: half_on_write_def split: half_pc.splits if_splits)
    then show ?thesis
      using that [of "upd_half d (\<lambda>h. h\<lparr>hf_written := hf_written h @ take n bs\<rparr>) p"] open' other False by auto
  qed
  show ?thesis
    using q lossless other assms(2) pipe_stop.handle_errors_quiet [of p' es]
    by (auto simp: p' half_failed_def pipe_handle_error_def)
qed

theorem pipe_error_ends_direction_witness:
  "\<exists>p. pipe_steps (short_talk @ [pev_read forth (Inl (system_error end_of_file))]) (pipe_run (pipe_new 0)) = Some p \<and>
    hf_shutdown (pp_forth p) \<and> pp_lhs_open p \<and> hf_pc (pp_back p) = half_writing [7]"
proof -
  let ?p = "\<lparr>pp_id = 0, pp_lhs_open = True, pp_rhs_open = True, pp_stopping = False,
     pp_forth = \<lparr>hf_pc = half_reading, hf_read = [1, 2], hf_written = [1, 2], hf_shutdown = False\<rparr>,
     pp_back = \<lparr>hf_pc = half_writing [7], hf_read = [7], hf_written = [], hf_shutdown = False\<rparr>\<rparr>"
  obtain p' where p': "pipe_step (pev_read forth (Inl (system_error end_of_file))) ?p = Some p'" by simp
  show ?thesis
    using pipe_error_ends_direction [OF short_talk_run _ disjI1 [OF refl] p'] p'
    by (simp add: pipe_steps_append short_talk_run)
qed

end
