(* ===== verification/Forwarder.thy ===== *)
theory Forwarder
  imports Pipe Std_Map
begin

text \<open>
  The forwarder between the users of a share and its upstream
  (\<open>include/zrp/forwarder.hpp\<close>): it accepts sockets downstream, gets one upstream for each,
  and registers a pipe for the two on a strand.  The coroutines are \<open>forward\<close>, one
  \<open>handle_socket\<close> per user, named by a number, and \<open>try_stop\<close>; the strand runs what is posted to it in order.
  A pipe is alive while its \<open>handle_socket\<close> has not run it, and then until both its
  halves are done.  Ids are mathematical integers: the \<open>int\<close> of the code is the same up to
  the 2147483648th pipe.
\<close>

section \<open>State\<close>

datatype strand_task = st_register nat | st_stop

record forwarder =
  fw_pipes :: "(int, nat) smap"
  fw_next_pipe_id :: int
  fw_stopping :: bool
  fw_downstream_open :: bool
  fw_forwarding :: bool
  fw_waiting :: "nat list"
  fw_strand :: "strand_task list"
  fw_starting :: "nat list"
  fw_heap :: "pipe heap"
  fw_addr :: nat

section \<open>Operations\<close>

text \<open>\<open>rebind_ioc\<close> asks a socket for its local endpoint, which throws on a closed one.\<close>

definition rebind_ioc :: "bool \<Rightarrow> 's \<Rightarrow> 's + exn" where
  [simp]: "rebind_ioc usable s = (if usable then Inl s else Inr bad_descriptor)"

definition forwarder_new :: forwarder where
  "forwarder_new = \<lparr>fw_pipes = [], fw_next_pipe_id = 0, fw_stopping = False, fw_downstream_open = True,
     fw_forwarding = False, fw_waiting = [], fw_strand = [], fw_starting = [], fw_heap = [], fw_addr = 0\<rparr>"

definition forwarder_run :: "forwarder \<Rightarrow> forwarder" where
  "forwarder_run f = f\<lparr>fw_forwarding := True\<rparr>"

text \<open>
  \<open>try_stop\<close> up to the post to the strand.  Only a downstream that is \<open>IsTryStoppable\<close>,
  which is the acceptor of the server's share, is stopped.
\<close>

definition forwarder_try_stop :: "bool \<Rightarrow> forwarder \<Rightarrow> forwarder" where
  "forwarder_try_stop stoppable_downstream f =
    (let f = f\<lparr>fw_stopping := True\<rparr>;
         f = (if stoppable_downstream then f\<lparr>fw_downstream_open := False\<rparr> else f)
     in f\<lparr>fw_strand := fw_strand f @ [st_stop]\<rparr>)"

definition forwarder_handle_error :: "bool \<Rightarrow> exn \<Rightarrow> forwarder \<Rightarrow> forwarder" where
  "forwarder_handle_error sd e f = (if \<not> fw_stopping f then forwarder_try_stop sd f else f)"

text \<open>\<open>forward\<close> after \<open>dow_.get_socket\<close>: spawn \<open>handle_socket\<close>, or stop and rethrow.\<close>

definition forward_accepted :: "bool \<Rightarrow> nat + exn \<Rightarrow> forwarder \<Rightarrow> forwarder" where
  "forward_accepted sd r f =
    (case r of
      Inl user \<Rightarrow> f\<lparr>fw_waiting := fw_waiting f @ [user]\<rparr>
    | Inr e \<Rightarrow> (forwarder_handle_error sd e f)\<lparr>fw_forwarding := False\<rparr>)"

text \<open>\<open>handle_socket\<close> after \<open>ups_.get_socket\<close>; an error only closes the user's socket.\<close>

definition handle_upstream :: "nat \<Rightarrow> unit res \<Rightarrow> forwarder \<Rightarrow> forwarder" where
  "handle_upstream i r f =
    (let user = fw_waiting f ! i; f = f\<lparr>fw_waiting := remove_nth i (fw_waiting f)\<rparr> in
     case r of
       Inl e \<Rightarrow> f
     | Inr _ \<Rightarrow> f\<lparr>fw_strand := fw_strand f @ [st_register user]\<rparr>)"

definition register_pipe :: "forwarder \<Rightarrow> forwarder" where
  "register_pipe f =
    (let i = fw_next_pipe_id f; a = fw_addr f in
     f\<lparr>fw_next_pipe_id := i + 1, fw_addr := Suc a, fw_heap := hnew a (pipe_new i) (fw_heap f),
       fw_pipes := map_emplace i a (fw_pipes f), fw_starting := fw_starting f @ [a]\<rparr>)"

definition stop_pipes :: "forwarder \<Rightarrow> forwarder" where
  "stop_pipes f = f\<lparr>fw_heap :=
    fold (\<lambda>(i, a) h. if live h a then hupd a pipe_try_stop h else h) (fw_pipes f) (fw_heap f)\<rparr>"

fun run_strand :: "strand_task \<Rightarrow> forwarder \<Rightarrow> forwarder" where
  "run_strand (st_register user) f = register_pipe f"
| "run_strand st_stop f = stop_pipes f"

text \<open>\<open>p->run()\<close> at the end of \<open>handle_socket\<close>.\<close>

definition start_pipe :: "nat \<Rightarrow> forwarder \<Rightarrow> forwarder" where
  "start_pipe i f =
    f\<lparr>fw_heap := hupd (fw_starting f ! i) pipe_run (fw_heap f),
      fw_starting := remove_nth i (fw_starting f)\<rparr>"

definition pipe_held :: "forwarder \<Rightarrow> nat \<Rightarrow> pipe \<Rightarrow> bool" where
  "pipe_held f a p \<longleftrightarrow> a \<in> set (fw_starting f) \<or> hf_pc (pp_forth p) \<noteq> half_done \<or> hf_pc (pp_back p) \<noteq> half_done"

definition drop_pipes :: "forwarder \<Rightarrow> forwarder" where
  "drop_pipes f = f\<lparr>fw_heap := hkeep (pipe_held f) (fw_heap f)\<rparr>"

datatype fwd_event =
  fev_accept "nat + exn"
| fev_upstream nat "unit res"
| fev_strand
| fev_start nat
| fev_pipe nat pipe_event
| fev_stop

definition is_stop :: "pipe_event \<Rightarrow> bool" where
  "is_stop ev \<longleftrightarrow> (case ev of pev_stop \<Rightarrow> True | _ \<Rightarrow> False)"

fun fwd_act :: "bool \<Rightarrow> fwd_event \<Rightarrow> forwarder \<Rightarrow> forwarder option" where
  "fwd_act sd (fev_accept r) f =
     (if fw_forwarding f \<and> ((\<exists>user. r = Inl user) \<longrightarrow> fw_downstream_open f)
      then Some (forward_accepted sd r f) else None)"
| "fwd_act sd (fev_upstream i r) f =
     (if i < length (fw_waiting f) then Some (handle_upstream i r f) else None)"
| "fwd_act sd fev_strand f =
     (case fw_strand f of t # ts \<Rightarrow> Some (run_strand t (f\<lparr>fw_strand := ts\<rparr>)) | [] \<Rightarrow> None)"
| "fwd_act sd (fev_start i) f =
     (if i < length (fw_starting f) then Some (start_pipe i f) else None)"
| "fwd_act sd (fev_pipe a ev) f =
     (case hget (fw_heap f) a of
       Some p \<Rightarrow>
         if is_stop ev then None
         else map_option (\<lambda>p'. f\<lparr>fw_heap := hupd a (\<lambda>_. p') (fw_heap f)\<rparr>) (pipe_step ev p)
     | None \<Rightarrow> None)"
| "fwd_act sd fev_stop f = Some (forwarder_try_stop sd f)"

definition fwd_step :: "bool \<Rightarrow> fwd_event \<Rightarrow> forwarder \<Rightarrow> forwarder option" where
  "fwd_step sd ev f = map_option drop_pipes (fwd_act sd ev f)"

fun fwd_steps :: "bool \<Rightarrow> fwd_event list \<Rightarrow> forwarder \<Rightarrow> forwarder option" where
  "fwd_steps sd [] f = Some f"
| "fwd_steps sd (ev # evs) f = (case fwd_step sd ev f of None \<Rightarrow> None | Some f' \<Rightarrow> fwd_steps sd evs f')"

section \<open>Invariant\<close>

text \<open>
  The pipe with the id \<open>n\<close> is the one created \<open>n\<close>-th, at the address \<open>n\<close>, and the map has
  an entry for every pipe there ever was.
\<close>

definition fwd_inv :: "forwarder \<Rightarrow> bool" where
  [zrp_inv]: "fwd_inv f \<longleftrightarrow> map_ok (fw_pipes f) \<and> fw_next_pipe_id f = int (fw_addr f) \<and>
    (\<forall>i a. map_find i (fw_pipes f) = Some a \<longleftrightarrow> i = int a \<and> a < fw_addr f) \<and>
    (\<forall>a p. hget (fw_heap f) a = Some p \<longrightarrow> a < fw_addr f \<and> pp_id p = int a)"

lemma fwd_inv_heap:
  assumes "fwd_inv f"
    and "\<And>a p'. hget h a = Some p' \<Longrightarrow> \<exists>p. hget (fw_heap f) a = Some p \<and> pp_id p' = pp_id p"
  shows "fwd_inv (f\<lparr>fw_heap := h\<rparr>)"
  using assms unfolding fwd_inv_def by fastforce

lemma pp_id_ops [simp]:
  "pp_id (pipe_try_stop p) = pp_id p" "pp_id (pipe_run p) = pp_id p" "pp_id (pipe_new i) = i"
  by (simp_all add: pipe_try_stop_def pipe_run_def pipe_new_def Let_def)

lemma pp_id_step: "pipe_step ev p = Some p' \<Longrightarrow> pp_id p' = pp_id p"
proof (cases ev)
  case (pev_read d r)
  assume "pipe_step ev p = Some p'"
  then show ?thesis using pev_read
    by (auto simp: half_on_read_def half_failed_def pipe_handle_error_def split: if_splits sum.splits)
next
  case (pev_write d r)
  assume "pipe_step ev p = Some p'"
  then show ?thesis using pev_write
    by (auto simp: half_on_write_def half_failed_def pipe_handle_error_def
        split: if_splits half_pc.splits option.splits)
qed auto

lemma fwd_inv_other:
  "fwd_inv f \<Longrightarrow> fw_pipes f' = fw_pipes f \<Longrightarrow> fw_heap f' = fw_heap f \<Longrightarrow>
    fw_next_pipe_id f' = fw_next_pipe_id f \<Longrightarrow> fw_addr f' = fw_addr f \<Longrightarrow> fwd_inv f'"
  by (simp add: fwd_inv_def)

lemma fwd_inv_register:
  assumes "fwd_inv f"
  shows "fwd_inv (register_pipe f)"
proof -
  note i = assms [unfolded fwd_inv_def]
  have none: "map_find (int (fw_addr f)) (fw_pipes f) = None"
  proof (rule ccontr)
    assume "map_find (int (fw_addr f)) (fw_pipes f) \<noteq> None"
    then obtain a where "map_find (int (fw_addr f)) (fw_pipes f) = Some a" by blast
    then have "int (fw_addr f) = int a \<and> a < fw_addr f" using i by blast
    then show False by auto
  qed
  have "map_find j (map_emplace (fw_next_pipe_id f) (fw_addr f) (fw_pipes f)) = Some a \<longleftrightarrow>
      j = int a \<and> a < Suc (fw_addr f)" for j a
    using i none by (auto simp: find_emplace less_Suc_eq)
  then show ?thesis using i by (auto simp: fwd_inv_def register_pipe_def Let_def less_SucI)
qed

text \<open>The loop over \<open>pipes_\<close> in \<open>try_stop\<close>.\<close>

definition stop_heap :: "(int, nat) smap \<Rightarrow> pipe heap \<Rightarrow> pipe heap" where
  "stop_heap ps h = fold (\<lambda>(i, a) h. if live h a then hupd a pipe_try_stop h else h) ps h"

lemma pipe_try_stop_idem: "pipe_try_stop (pipe_try_stop p) = pipe_try_stop p"
  by (simp add: pipe_try_stop_def Let_def)

lemma hget_stop_heap:
  "hget (stop_heap ps h) a =
    (if a \<in> snd ` set ps then map_option pipe_try_stop (hget h a) else hget h a)"
proof (induction ps arbitrary: h)
  case (Cons x ps)
  obtain i b where x: "x = (i, b)" by (cases x)
  show ?case
    using Cons.IH [of "if live h b then hupd b pipe_try_stop h else h"] x
    by (cases "hget h b"; cases "hget h a")
      (auto simp: stop_heap_def live_def pipe_try_stop_idem)
qed (simp add: stop_heap_def)

lemma stop_pipes_heap: "stop_pipes f = f\<lparr>fw_heap := stop_heap (fw_pipes f) (fw_heap f)\<rparr>"
  by (simp add: stop_pipes_def stop_heap_def)

lemma fwd_act_inv:
  assumes inv: "fwd_inv f" and act: "fwd_act sd ev f = Some f'"
  shows "fwd_inv f'"
proof (cases ev)
  case (fev_accept r)
  then show ?thesis using act inv
    by (auto simp: forward_accepted_def forwarder_handle_error_def forwarder_try_stop_def Let_def
        intro: fwd_inv_other split: if_splits sum.splits)
next
  case (fev_upstream i r)
  then show ?thesis using act inv
    by (auto simp: handle_upstream_def Let_def intro: fwd_inv_other split: if_splits sum.splits)
next
  case fev_strand
  then obtain t ts where t: "f' = run_strand t (f\<lparr>fw_strand := ts\<rparr>)"
    using act by (auto split: list.splits)
  have i: "fwd_inv (f\<lparr>fw_strand := ts\<rparr>)" using inv by (rule fwd_inv_other) simp_all
  show ?thesis
  proof (cases t)
    case (st_register u)
    then show ?thesis using t fwd_inv_register [OF i] by simp
  next
    case st_stop
    then show ?thesis using t i
      by (auto simp: stop_pipes_heap hget_stop_heap split: if_splits intro!: fwd_inv_heap)
  qed
next
  case (fev_start i)
  have "fwd_inv (f\<lparr>fw_heap := hupd (fw_starting f ! i) pipe_run (fw_heap f)\<rparr>)"
    using inv by (rule fwd_inv_heap) (auto split: if_splits)
  then show ?thesis using act fev_start
    by (auto simp: start_pipe_def intro: fwd_inv_other split: if_splits)
next
  case (fev_pipe a ev')
  then show ?thesis using act inv
    by (auto intro!: fwd_inv_heap dest: pp_id_step split: option.splits if_splits)
next
  case fev_stop
  then show ?thesis using act inv
    by (auto simp: forwarder_try_stop_def Let_def intro: fwd_inv_other)
qed

lemma fwd_step_inv: "fwd_inv f \<Longrightarrow> fwd_step sd ev f = Some f' \<Longrightarrow> fwd_inv f'"
proof -
  assume f: "fwd_inv f" and "fwd_step sd ev f = Some f'"
  then obtain g where g: "fwd_act sd ev f = Some g" "f' = g\<lparr>fw_heap := hkeep (pipe_held g) (fw_heap g)\<rparr>"
    by (auto simp: fwd_step_def drop_pipes_def)
  have "\<exists>p. hget (fw_heap g) a = Some p \<and> pp_id p' = pp_id p"
    if "hget (hkeep (pipe_held g) (fw_heap g)) a = Some p'" for a p'
    using that by (simp add: hget_keep split: option.splits if_splits)
  then show ?thesis unfolding g(2) by (rule fwd_inv_heap [OF fwd_act_inv [OF f g(1)]])
qed

lemma fwd_steps_inv: "fwd_steps sd evs f = Some f' \<Longrightarrow> fwd_inv f \<Longrightarrow> fwd_inv f'"
  by (induction evs arbitrary: f) (auto split: option.splits dest: fwd_step_inv)

lemma fwd_inv_new: "fwd_inv (forwarder_run forwarder_new)"
  by (simp add: fwd_inv_def forwarder_run_def forwarder_new_def)

section \<open>Properties\<close>

text \<open>
  Pipe ids are given out in order and never twice.  In every state
  a forwarder can reach, its map has exactly the ids from 0 up to the next one, each
  pipe that is alive is listed under its own id, and the map is as long as the number
  of pipes there ever were: entries of pipes that have ended are never removed.
\<close>

theorem pipe_ids_exact:
  assumes "fwd_steps sd evs (forwarder_run forwarder_new) = Some f"
  shows "(\<forall>i. map_find i (fw_pipes f) \<noteq> None \<longleftrightarrow> 0 \<le> i \<and> i < fw_next_pipe_id f) \<and>
    (\<forall>a p. hget (fw_heap f) a = Some p \<longrightarrow> map_find (pp_id p) (fw_pipes f) = Some a) \<and>
    int (length (fw_pipes f)) = fw_next_pipe_id f"
proof -
  have inv: "fwd_inv f" by (rule fwd_steps_inv [OF assms fwd_inv_new])
  note i = inv [unfolded fwd_inv_def]
  have dom: "map_find k (fw_pipes f) \<noteq> None \<longleftrightarrow> 0 \<le> k \<and> k < fw_next_pipe_id f" for k
  proof
    assume "0 \<le> k \<and> k < fw_next_pipe_id f"
    then have "k = int (nat k)" "nat k < fw_addr f" using i by auto
    then show "map_find k (fw_pipes f) \<noteq> None" using i by (metis option.distinct(1))
  qed (use i in auto)
  have "fst ` set (fw_pipes f) = {0..<fw_next_pipe_id f}"
    by (rule set_eqI) (use dom in \<open>simp add: map_find_None\<close>)
  moreover have "distinct (map fst (fw_pipes f))" using i map_ok_distinct by blast
  ultimately have "length (fw_pipes f) = nat (fw_next_pipe_id f)"
    by (metis card_atLeastLessThan_int diff_zero distinct_card length_map list.set_map)
  then show ?thesis using dom i by auto
qed

text \<open>The run of the witnesses: two users, one pipe running, the other registered.\<close>

definition two_users :: "fwd_event list" where
  "two_users = [fev_accept (Inl 0), fev_accept (Inl 1), fev_upstream 0 (Inr ()), fev_strand, fev_start 0,
     fev_upstream 0 (Inr ()), fev_strand]"

lemma two_users_run: "\<exists>f. fwd_steps True two_users (forwarder_run forwarder_new) = Some f \<and>
    hget (fw_heap f) 0 = Some (pipe_run (pipe_new 0)) \<and> hget (fw_heap f) 1 = Some (pipe_new 1) \<and>
    fw_pipes f = [(0, 0), (1, 1)] \<and> fw_strand f = [] \<and> fw_starting f = [1]"
  by (simp add: two_users_def forwarder_run_def forwarder_new_def fwd_step_def forward_accepted_def
      handle_upstream_def register_pipe_def start_pipe_def drop_pipes_def hkeep_def pipe_held_def hget_def
      hnew_def hupd_def pipe_run_def pipe_new_def half_idle_def Let_def)

theorem pipe_ids_exact_witness:
  "\<exists>f. fwd_steps True two_users (forwarder_run forwarder_new) = Some f \<and>
    map_find 1 (fw_pipes f) \<noteq> None \<and> int (length (fw_pipes f)) = fw_next_pipe_id f"
proof -
  obtain f where f: "fwd_steps True two_users (forwarder_run forwarder_new) = Some f"
    "hget (fw_heap f) 1 = Some (pipe_new 1)"
    using two_users_run by blast
  from pipe_ids_exact [OF f(1)] f show ?thesis by force
qed

text \<open>
  A stop reaches every pipe there is.  When the strand comes to the
  \<open>try_stop\<close> of the forwarder, every pipe that is alive, also one that was registered
  and not run yet, is stopping with both its sockets closed, and no other pipe is created.
\<close>

theorem forwarder_stop_reaches_pipes:
  assumes "fwd_steps sd evs (forwarder_run forwarder_new) = Some f" "fw_strand f = st_stop # ts"
    and "fwd_step sd fev_strand f = Some f'"
  shows "\<forall>a p. hget (fw_heap f') a = Some p \<longrightarrow>
    pp_stopping p \<and> \<not> pp_lhs_open p \<and> \<not> pp_rhs_open p \<and> live (fw_heap f) a"
proof (intro allI impI)
  fix a p
  assume p: "hget (fw_heap f') a = Some p"
  note i = fwd_steps_inv [OF assms(1) fwd_inv_new, unfolded fwd_inv_def]
  have "f' = drop_pipes (stop_pipes (f\<lparr>fw_strand := ts\<rparr>))"
    using assms(2,3) by (simp add: fwd_step_def)
  then have h: "hget (stop_heap (fw_pipes f) (fw_heap f)) a = Some p"
    using p by (auto simp: drop_pipes_def hget_keep stop_pipes_heap split: option.splits if_splits)
  then obtain q where q: "hget (fw_heap f) a = Some q" by (auto simp: hget_stop_heap split: if_splits)
  then have "map_find (int a) (fw_pipes f) = Some a" using i by auto
  then have "a \<in> snd ` set (fw_pipes f)" by (force dest: map_find_set)
  then have "p = pipe_try_stop q" using h q by (simp add: hget_stop_heap)
  then show "pp_stopping p \<and> \<not> pp_lhs_open p \<and> \<not> pp_rhs_open p \<and> live (fw_heap f) a"
    using q by (simp add: live_def)
qed

lemma fwd_steps_append:
  "fwd_steps sd (as @ bs) f = Option.bind (fwd_steps sd as f) (fwd_steps sd bs)"
  by (induction as arbitrary: f) (auto split: option.splits)

theorem forwarder_stop_reaches_pipes_witness:
  "\<exists>f f' p. fwd_steps True (two_users @ [fev_stop]) (forwarder_run forwarder_new) = Some f \<and>
    fwd_step True fev_strand f = Some f' \<and> hget (fw_heap f') 1 = Some p \<and> \<not> pp_rhs_open p"
proof -
  have "\<exists>f f' p. fwd_steps True (two_users @ [fev_stop]) (forwarder_run forwarder_new) = Some f \<and>
      fw_strand f = [st_stop] \<and> fwd_step True fev_strand f = Some f' \<and> hget (fw_heap f') 1 = Some p"
    by (simp add: two_users_def forwarder_run_def forwarder_new_def fwd_step_def forward_accepted_def
      handle_upstream_def register_pipe_def start_pipe_def drop_pipes_def hkeep_def pipe_held_def hget_def
      hnew_def hupd_def pipe_run_def pipe_new_def half_idle_def Let_def forwarder_try_stop_def stop_pipes_def
      live_def pipe_try_stop_def)
  then show ?thesis using forwarder_stop_reaches_pipes by metis
qed

text \<open>
  A pipe can escape the stop.  A user whose upstream socket comes
  after the strand has run the stop still gets a pipe: it is registered and run by the
  stopping forwarder, both its sockets stay open, and nothing is left that would stop it.
\<close>

theorem late_pipe_escapes_stop:
  "\<exists>f p. fwd_steps True [fev_accept (Inl 0), fev_stop, fev_strand,
      fev_accept (Inr (system_error operation_aborted)), fev_upstream 0 (Inr ()), fev_strand, fev_start 0]
      (forwarder_run forwarder_new) = Some f \<and>
    fw_stopping f \<and> \<not> fw_forwarding f \<and> fw_strand f = [] \<and>
    hget (fw_heap f) 0 = Some p \<and> \<not> pp_stopping p \<and> pp_lhs_open p \<and> pp_rhs_open p \<and>
    hf_pc (pp_forth p) = half_reading"
  by (simp add: forwarder_run_def forwarder_new_def fwd_step_def forward_accepted_def
      handle_upstream_def register_pipe_def start_pipe_def drop_pipes_def hkeep_def pipe_held_def hget_def
      hnew_def hupd_def pipe_run_def pipe_new_def half_idle_def Let_def forwarder_try_stop_def stop_pipes_def
      live_def forwarder_handle_error_def)

end
