(* ===== verification/Config.thy ===== *)
theory Config
  imports Json Std_Map
begin

text \<open>
  The configurations of client and server (\<open>include/zrp/config.hpp\<close>): the structures, their
  conversions to and from JSON with the default values, the example configurations, and
  the dump of an example (\<open>include/zrp/dump_config.hpp\<close>).
\<close>

section \<open>Structures\<close>

record tcp_share_cfg =
  sc_local_host :: string
  sc_local_port :: u16
  sc_remote_port :: u16

record client_config =
  cc_server_host :: string
  cc_server_port :: u16
  cc_tcp_shares :: "(string, tcp_share_cfg) smap"
  cc_forwarder_threads :: cint
  cc_worker_count_initial :: cint
  cc_worker_count_low :: cint
  cc_worker_count_more :: cint
  cc_access_log :: bool
  cc_rlimit_nofile :: cint

record server_config =
  sc_server_host :: string
  sc_server_port :: u16
  sc_sharing_host :: string
  sc_welcome :: string
  sc_forwarder_threads :: cint
  sc_access_log :: bool
  sc_rlimit_nofile :: cint

section \<open>Conversions\<close>

definition tcp_share_cfg_to_json :: "json_lib \<Rightarrow> tcp_share_cfg \<Rightarrow> json" where
  "tcp_share_cfg_to_json J c =
    of_init_list J
      [(''local_host'', of_str J (sc_local_host c)),
       (''local_port'', of_u16 J (sc_local_port c)),
       (''remote_port'', of_u16 J (sc_remote_port c))]"

definition tcp_share_cfg_of_json :: "json_lib \<Rightarrow> json \<Rightarrow> tcp_share_cfg res" where
  "tcp_share_cfg_of_json J jv =
    ebind (as_object J jv) (\<lambda>obj.
    ebind (json_extract_with_default J (to_str J) obj ''local_host'' ''127.0.0.1'') (\<lambda>h.
    ebind (json_extract J (to_u16 J) obj ''local_port'') (\<lambda>l.
    ebind (json_extract J (to_u16 J) obj ''remote_port'') (\<lambda>r.
    Inr \<lparr>sc_local_host = h, sc_local_port = l, sc_remote_port = r\<rparr>))))"

text \<open>The conversions of \<open>map<string, T>\<close>: entry by entry, in the order of the container.\<close>

definition smap_to_json :: "json_lib \<Rightarrow> ('a \<Rightarrow> json) \<Rightarrow> (string, 'a) smap \<Rightarrow> json" where
  "smap_to_json J conv m = of_entries J (map (\<lambda>(k, v). (k, conv v)) m)"

definition smap_of_json :: "json_lib \<Rightarrow> (json \<Rightarrow> 'a res) \<Rightarrow> json \<Rightarrow> (string, 'a) smap res" where
  "smap_of_json J conv jv =
    ebind (to_entries J jv) (\<lambda>kvs.
    ebind (emap (\<lambda>(k, v). ebind (conv v) (\<lambda>x. Inr (k, x))) kvs) (\<lambda>es.
    Inr (fold (\<lambda>(k, x) m. map_emplace k x m) es [])))"

definition client_config_to_json :: "json_lib \<Rightarrow> client_config \<Rightarrow> json" where
  "client_config_to_json J c =
    of_init_list J
      [(''server_host'', of_str J (cc_server_host c)),
       (''server_port'', of_u16 J (cc_server_port c)),
       (''tcp_shares'', smap_to_json J (tcp_share_cfg_to_json J) (cc_tcp_shares c)),
       (''forwarder_threads'', of_int J (cc_forwarder_threads c)),
       (''worker_count_initial'', of_int J (cc_worker_count_initial c)),
       (''worker_count_low'', of_int J (cc_worker_count_low c)),
       (''worker_count_more'', of_int J (cc_worker_count_more c)),
       (''access_log'', of_bool J (cc_access_log c)),
       (''rlimit_nofile'', of_int J (cc_rlimit_nofile c))]"

definition client_config_of_json :: "json_lib \<Rightarrow> json \<Rightarrow> client_config res" where
  "client_config_of_json J jv =
    ebind (as_object J jv) (\<lambda>obj.
    ebind (json_extract J (to_str J) obj ''server_host'') (\<lambda>h.
    ebind (json_extract_with_default J (to_u16 J) obj ''server_port'' 11433) (\<lambda>p.
    ebind (json_extract_with_default J (smap_of_json J (tcp_share_cfg_of_json J)) obj ''tcp_shares'' []) (\<lambda>shs.
    ebind (json_extract_with_default J (to_int J) obj ''forwarder_threads'' (-1)) (\<lambda>ft.
    ebind (json_extract_with_default J (to_int J) obj ''worker_count_initial'' 16) (\<lambda>wi.
    ebind (json_extract_with_default J (to_int J) obj ''worker_count_low'' 8) (\<lambda>wl.
    ebind (json_extract_with_default J (to_int J) obj ''worker_count_more'' 16) (\<lambda>wm.
    ebind (json_extract_with_default J (to_bool J) obj ''access_log'' True) (\<lambda>al.
    ebind (json_extract_with_default J (to_int J) obj ''rlimit_nofile'' 65533) (\<lambda>rl.
    Inr \<lparr>cc_server_host = h, cc_server_port = p, cc_tcp_shares = shs, cc_forwarder_threads = ft,
         cc_worker_count_initial = wi, cc_worker_count_low = wl, cc_worker_count_more = wm,
         cc_access_log = al, cc_rlimit_nofile = rl\<rparr>))))))))))"

definition client_example_config :: "json_lib \<Rightarrow> json" where
  "client_example_config J =
    (let obj = obj_assign J [] ''server_host'' (JString ''192.168.0.33'');
         share_ssh = obj_assign J (obj_assign J [] ''local_port'' (JInt64 22)) ''remote_port'' (JInt64 9022);
         share_http = obj_assign J (obj_assign J [] ''local_port'' (JInt64 8080)) ''remote_port'' (JInt64 8080);
         shares = obj_assign J (obj_assign J [] ''ssh'' (JObject share_ssh)) ''http'' (JObject share_http)
     in JObject (obj_assign J obj ''tcp_shares'' (JObject shares)))"

definition server_config_to_json :: "json_lib \<Rightarrow> server_config \<Rightarrow> json" where
  "server_config_to_json J c =
    of_init_list J
      [(''server_host'', of_str J (sc_server_host c)),
       (''server_port'', of_u16 J (sc_server_port c)),
       (''sharing_host'', of_str J (sc_sharing_host c)),
       (''welcome'', of_str J (sc_welcome c)),
       (''forwarder_threads'', of_int J (sc_forwarder_threads c)),
       (''access_log'', of_bool J (sc_access_log c)),
       (''rlimit_nofile'', of_int J (sc_rlimit_nofile c))]"

definition server_config_of_json :: "json_lib \<Rightarrow> json \<Rightarrow> server_config res" where
  "server_config_of_json J jv =
    ebind (as_object J jv) (\<lambda>obj.
    ebind (json_extract J (to_str J) obj ''server_host'') (\<lambda>h.
    ebind (json_extract_with_default J (to_u16 J) obj ''server_port'' 11433) (\<lambda>p.
    ebind (json_extract_with_default J (to_str J) obj ''sharing_host'' ''0.0.0.0'') (\<lambda>sh.
    ebind (json_extract_with_default J (to_str J) obj ''welcome'' ''welcome to zrp server'') (\<lambda>w.
    ebind (json_extract_with_default J (to_int J) obj ''forwarder_threads'' (-1)) (\<lambda>ft.
    ebind (json_extract_with_default J (to_bool J) obj ''access_log'' True) (\<lambda>al.
    ebind (json_extract_with_default J (to_int J) obj ''rlimit_nofile'' 65533) (\<lambda>rl.
    Inr \<lparr>sc_server_host = h, sc_server_port = p, sc_sharing_host = sh, sc_welcome = w,
         sc_forwarder_threads = ft, sc_access_log = al, sc_rlimit_nofile = rl\<rparr>))))))))"

definition server_example_config :: "json_lib \<Rightarrow> json" where
  "server_example_config J =
    JObject (obj_assign J (obj_assign J [] ''server_host'' (JString ''0.0.0.0'')) ''server_port'' (JInt64 11433))"

text \<open>
  \<open>general_dump_config\<close>, for the conversions of the configuration type it is instantiated
  with; the result is what is printed.
\<close>

definition general_dump_config ::
  "fmt_lib \<Rightarrow> json_lib \<Rightarrow> bool \<Rightarrow> (json \<Rightarrow> 'c res) \<Rightarrow> ('c \<Rightarrow> json) \<Rightarrow> json \<Rightarrow> bool \<Rightarrow> printed res" where
  "general_dump_config F J col of_json to_json jv dump_full =
    (if dump_full
     then ebind (of_json jv) (\<lambda>cfg. Inr (pretty_print F J col (to_json cfg) []))
     else Inr (pretty_print F J col jv []))"

definition dump_client_example :: "fmt_lib \<Rightarrow> json_lib \<Rightarrow> bool \<Rightarrow> bool \<Rightarrow> printed res" where
  "dump_client_example F J col dump_full =
    general_dump_config F J col (client_config_of_json J) (client_config_to_json J) (client_example_config J) dump_full"

definition dump_server_example :: "fmt_lib \<Rightarrow> json_lib \<Rightarrow> bool \<Rightarrow> bool \<Rightarrow> printed res" where
  "dump_server_example F J col dump_full =
    general_dump_config F J col (server_config_of_json J) (server_config_to_json J) (server_example_config J) dump_full"

section \<open>Lemmas\<close>

lemma emplace_last:
  "\<forall>k'\<in>fst ` set m. k' < k \<Longrightarrow> map_emplace k v m = m @ [(k, v)]"
  by (induction k v m rule: map_emplace.induct) auto

lemma fold_emplace_sorted:
  "map_ok m \<Longrightarrow> \<forall>k\<in>fst ` set m. \<forall>k'\<in>fst ` set acc. k' < k \<Longrightarrow>
    fold (\<lambda>(k, x) m. map_emplace k x m) m acc = acc @ m"
proof (induction m arbitrary: acc)
  case (Cons a m)
  obtain k v where a: "a = (k, v)" by (cases a)
  have "map_emplace k v acc = acc @ [(k, v)]" using Cons.prems a by (intro emplace_last) auto
  then show ?case
    using Cons.prems Cons.IH [of "acc @ [(k, v)]"] a by fastforce
qed simp

lemma fold_emplace_ok:
  "map_ok acc \<Longrightarrow> map_ok (fold (\<lambda>(k, x) m. map_emplace k x m) es acc)"
  by (induction es arbitrary: acc) auto

lemma emap_Inr_set:
  "emap f xs = Inr ys \<Longrightarrow> y \<in> set ys \<Longrightarrow> \<exists>x\<in>set xs. f x = Inr y"
  by (induction xs arbitrary: ys) (auto simp: ebind_Inr_iff)

lemma fold_emplace_set:
  "set (fold (\<lambda>(k, x) m. map_emplace k x m) es acc) \<subseteq> set acc \<union> set es"
proof (induction es arbitrary: acc)
  case (Cons a es)
  obtain k v where a: "a = (k, v)" by (cases a)
  have "set (map_emplace k v acc) \<subseteq> insert (k, v) (set acc)"
    by (induction k v acc rule: map_emplace.induct) auto
  then show ?case using Cons.IH [of "map_emplace k v acc"] a by auto
qed simp

lemmas config_defs = tcp_share_cfg_to_json_def tcp_share_cfg_of_json_def client_config_to_json_def
  client_config_of_json_def server_config_to_json_def server_config_of_json_def

lemma norm_object: "f = id \<or> f = norm \<Longrightarrow> f (JObject kvs) = JObject (map (\<lambda>(k, v). (k, f v)) kvs)"
  by auto

lemma to_int_carried:
  assumes "boost_json J" "f = id \<or> f = norm"
  shows "to_int J (f (JInt64 (scast i))) = Inr i"
  using assms by (auto simp: boost_json_simps)

lemma to_bool_carried:
  assumes "boost_json J" "f = id \<or> f = norm"
  shows "to_bool J (f (JBool b)) = Inr b"
  using assms by (auto simp: boost_json_simps)

lemma to_str_carried:
  assumes "boost_json J" "f = id \<or> f = norm"
  shows "to_str J (f (JString s)) = Inr s"
  using assms by (auto simp: boost_json_simps)

lemmas carried_back = to_u16_carried to_int_carried to_bool_carried to_str_carried

lemma tcp_share_cfg_back:
  assumes "boost_json J" "f = id \<or> f = norm"
  shows "tcp_share_cfg_of_json J (f (tcp_share_cfg_to_json J c)) = Inr c"
  using assms norm_object [OF assms(2)]
  by (simp add: config_defs boost_json_simps json_extract_at json_extract_with_default_at carried_back)

lemma smap_back:
  assumes "boost_json J" "f = id \<or> f = norm" "map_ok m" "\<And>x. of_json (f (to_json x)) = Inr x"
  shows "smap_of_json J of_json (f (smap_to_json J to_json m)) = Inr m"
proof -
  have "emap (\<lambda>(k, v). ebind (of_json v) (\<lambda>x. Inr (k, x))) (map ((\<lambda>(k, v). (k, f v)) \<circ> (\<lambda>(k, v). (k, to_json v))) m) = Inr m"
    by (rule emap_map) (auto simp: assms(4))
  then show ?thesis
    using assms(1,3) fold_emplace_sorted [of m "[]"]
    by (simp add: smap_of_json_def smap_to_json_def boost_json_simps norm_object [OF assms(2)])
qed

lemma config_back:
  assumes "boost_json J" "f = id \<or> f = norm" "map_ok (cc_tcp_shares c)"
  shows "client_config_of_json J (f (client_config_to_json J c)) = Inr c \<and>
    server_config_of_json J (f (server_config_to_json J s)) = Inr s"
  using assms norm_object [OF assms(2)]
    smap_back [OF assms(1,2,3) tcp_share_cfg_back [OF assms(1,2)]]
  by (simp add: client_config_to_json_def client_config_of_json_def server_config_to_json_def
      server_config_of_json_def boost_json_simps json_extract_at json_extract_with_default_at carried_back)

section \<open>Properties\<close>

text \<open>
  Property C26 (roundtrip): a configuration is read back as it was written, from the value
  itself and from the value that its text parses to.  This holds of every client
  configuration whose shares are a \<open>std::map\<close>, and of every server configuration.
\<close>

theorem config_round_trip:
  assumes "boost_json J" "f = id \<or> f = norm" "map_ok (cc_tcp_shares c)"
  shows "client_config_of_json J (f (client_config_to_json J c)) = Inr c \<and>
    server_config_of_json J (f (server_config_to_json J s)) = Inr s"
  by (rule config_back [OF assms])

text \<open>The example configurations as structures.\<close>

definition client_example :: client_config where
  "client_example = \<lparr>cc_server_host = ''192.168.0.33'', cc_server_port = 11433,
     cc_tcp_shares =
       [(''http'', \<lparr>sc_local_host = ''127.0.0.1'', sc_local_port = 8080, sc_remote_port = 8080\<rparr>),
        (''ssh'', \<lparr>sc_local_host = ''127.0.0.1'', sc_local_port = 22, sc_remote_port = 9022\<rparr>)],
     cc_forwarder_threads = -1, cc_worker_count_initial = 16, cc_worker_count_low = 8,
     cc_worker_count_more = 16, cc_access_log = True, cc_rlimit_nofile = 65533\<rparr>"

definition server_example :: server_config where
  "server_example = \<lparr>sc_server_host = ''0.0.0.0'', sc_server_port = 11433, sc_sharing_host = ''0.0.0.0'',
     sc_welcome = ''welcome to zrp server'', sc_forwarder_threads = -1, sc_access_log = True,
     sc_rlimit_nofile = 65533\<rparr>"

lemma client_example_ok: "map_ok (cc_tcp_shares client_example)"
  by (simp add: client_example_def)

theorem config_round_trip_witness:
  "client_config_of_json (std_json (\<lambda>_. []) (\<lambda>_. Inr JNull))
     (norm (client_config_to_json (std_json (\<lambda>_. []) (\<lambda>_. Inr JNull)) client_example)) = Inr client_example"
  using config_round_trip [OF boost_json_std, of norm client_example] client_example_ok by blast

text \<open>
  What a configuration file leaves out has its default.  A file that
  gives the client's \<open>server_host\<close>, and possibly members of other names, is read with
  every default in place, and so for the server; a file without \<open>server_host\<close> is refused.
\<close>

theorem config_defaults:
  assumes "boost_json J"
    and "\<forall>k\<in>{''server_port'', ''tcp_shares'', ''sharing_host'', ''welcome'', ''forwarder_threads'',
        ''worker_count_initial'', ''worker_count_low'', ''worker_count_more'', ''access_log'', ''rlimit_nofile''}.
      map_of kvs k = None"
  shows "(map_of kvs ''server_host'' = Some (JString h) \<longrightarrow>
      client_config_of_json J (JObject kvs) = Inr (client_example\<lparr>cc_server_host := h, cc_tcp_shares := []\<rparr>) \<and>
      server_config_of_json J (JObject kvs) = Inr (server_example\<lparr>sc_server_host := h\<rparr>)) \<and>
    (map_of kvs ''server_host'' = None \<longrightarrow>
      (\<exists>e. client_config_of_json J (JObject kvs) = Inl e) \<and> (\<exists>e. server_config_of_json J (JObject kvs) = Inl e))"
proof (intro conjI impI)
  assume "map_of kvs ''server_host'' = Some (JString h)"
  then show "client_config_of_json J (JObject kvs) = Inr (client_example\<lparr>cc_server_host := h, cc_tcp_shares := []\<rparr>)"
    "server_config_of_json J (JObject kvs) = Inr (server_example\<lparr>sc_server_host := h\<rparr>)"
    using assms
    by (simp_all add: client_config_of_json_def server_config_of_json_def client_example_def server_example_def
        boost_json_simps json_extract_at json_extract_with_default_at)
next
  assume "map_of kvs ''server_host'' = None"
  then have "\<exists>e. json_extract J (to_str J) kvs ''server_host'' = Inl e"
    by (rule json_extract_missing [OF assms(1)])
  then show "\<exists>e. client_config_of_json J (JObject kvs) = Inl e" "\<exists>e. server_config_of_json J (JObject kvs) = Inl e"
    using assms(1) by (auto simp: client_config_of_json_def server_config_of_json_def boost_json_simps)
qed

theorem config_defaults_witness:
  "client_config_of_json (std_json (\<lambda>_. []) (\<lambda>_. Inr JNull)) (JObject [(''server_host'', JString ''::1''), (''x'', JNull)]) =
    Inr (client_example\<lparr>cc_server_host := ''::1'', cc_tcp_shares := []\<rparr>) \<and>
   (\<exists>e. server_config_of_json (std_json (\<lambda>_. []) (\<lambda>_. Inr JNull)) (JObject [(''x'', JNull)]) = Inl e)"
proof (rule conjI)
  show "client_config_of_json (std_json (\<lambda>_. []) (\<lambda>_. Inr JNull)) (JObject [(''server_host'', JString ''::1''), (''x'', JNull)]) =
      Inr (client_example\<lparr>cc_server_host := ''::1'', cc_tcp_shares := []\<rparr>)"
    using config_defaults [OF boost_json_std, of "[(''server_host'', JString ''::1''), (''x'', JNull)]" "''::1''"]
    by simp
  show "\<exists>e. server_config_of_json (std_json (\<lambda>_. []) (\<lambda>_. Inr JNull)) (JObject [(''x'', JNull)]) = Inl e"
    using config_defaults [OF boost_json_std, of "[(''x'', JNull)]" "''::1''"] by simp
qed

lemma emap_all: "(\<And>x. x \<in> set xs \<Longrightarrow> f x = Inr (g x)) \<Longrightarrow> emap f xs = Inr (map g xs)"
  by (induction xs) auto

lemma smap_of_json_entries:
  assumes "boost_json J" "distinct (map fst kvs)" "map_ok m"
    and conv: "\<And>k v. map_of kvs k = Some v \<Longrightarrow> \<exists>x. map_find k m = Some x \<and> conv v = Inr x"
    and "\<And>k. map_of kvs k = None \<Longrightarrow> map_find k m = None"
  shows "smap_of_json J conv (JObject kvs) = Inr m"
proof -
  have "emap (\<lambda>(k, v). ebind (conv v) (\<lambda>x. Inr (k, x))) kvs = Inr (map (\<lambda>(k, v). (k, projr (conv v))) kvs)"
    using conv assms(2) by (intro emap_all) fastforce
  moreover have "map_option (\<lambda>v. projr (conv v)) (map_of kvs k) = map_find k m" for k
    using conv assms(5) by (cases "map_of kvs k") fastforce+
  then have "fold (\<lambda>(k, x) m. map_emplace k x m) (map (\<lambda>(k, v). (k, projr (conv v))) kvs) [] = m"
    using assms(3) by (intro map_ok_ext) (simp_all add: fold_emplace_ok find_fold_emplace map_of_map_snd)
  ultimately show ?thesis using assms(1) by (simp add: smap_of_json_def boost_json_simps)
qed

lemma examples_read:
  assumes J: "boost_json J"
  shows "client_config_of_json J (client_example_config J) = Inr client_example"
    and "server_config_of_json J (server_example_config J) = Inr server_example"
proof -
  note u16 = to_u16_port(2) [OF J, of 22] to_u16_port(2) [OF J, of 9022] to_u16_port(2) [OF J, of 8080]
    to_u16_port(2) [OF J, of 11433]
  show "server_config_of_json J (server_example_config J) = Inr server_example"
    using J u16
    by (simp add: server_config_of_json_def server_example_config_def server_example_def
        boost_json_simps json_extract_at json_extract_with_default_at)
  let ?ssh = "obj_assign J (obj_assign J [] ''local_port'' (JInt64 22)) ''remote_port'' (JInt64 9022)"
  let ?http = "obj_assign J (obj_assign J [] ''local_port'' (JInt64 8080)) ''remote_port'' (JInt64 8080)"
  have ssh: "tcp_share_cfg_of_json J (JObject ?ssh) =
      Inr \<lparr>sc_local_host = ''127.0.0.1'', sc_local_port = 22, sc_remote_port = 9022\<rparr>"
    and http: "tcp_share_cfg_of_json J (JObject ?http) =
      Inr \<lparr>sc_local_host = ''127.0.0.1'', sc_local_port = 8080, sc_remote_port = 8080\<rparr>"
    using J u16
    by (simp_all add: tcp_share_cfg_of_json_def boost_json_simps json_extract_at json_extract_with_default_at)
  have "smap_of_json J (tcp_share_cfg_of_json J)
      (JObject (obj_assign J (obj_assign J [] ''ssh'' (JObject ?ssh)) ''http'' (JObject ?http))) =
      Inr (cc_tcp_shares client_example)"
    by (rule smap_of_json_entries [OF J])
      (use J ssh http client_example_ok in \<open>auto simp: boost_json_simps client_example_def split: if_splits\<close>)
  then show "client_config_of_json J (client_example_config J) = Inr client_example"
    using J
    by (simp add: client_config_of_json_def client_example_config_def client_example_def
        boost_json_simps json_extract_at json_extract_with_default_at)
qed

text \<open>
  Property C36 (equivalence): \<open>dump_config\<close> and \<open>dump_config --full\<close> print the same configuration.
  The full dump never fails; what it prints has every member written out, and reads back
  as the same structure as what the short dump prints.
\<close>

theorem dumps_mean_the_same:
  assumes "boost_json J"
  shows "(\<exists>full. dump_client_example F J col True = Inr (pretty_print F J col full []) \<and>
      dump_client_example F J col False = Inr (pretty_print F J col (client_example_config J) []) \<and>
      client_config_of_json J full = client_config_of_json J (client_example_config J) \<and>
      client_config_of_json J full = Inr client_example) \<and>
    (\<exists>full. dump_server_example F J col True = Inr (pretty_print F J col full []) \<and>
      dump_server_example F J col False = Inr (pretty_print F J col (server_example_config J) []) \<and>
      server_config_of_json J full = server_config_of_json J (server_example_config J) \<and>
      server_config_of_json J full = Inr server_example)"
proof (intro conjI exI)
  show "dump_client_example F J col True = Inr (pretty_print F J col (client_config_to_json J client_example) [])"
    "dump_server_example F J col True = Inr (pretty_print F J col (server_config_to_json J server_example) [])"
    using examples_read [OF assms]
    by (simp_all add: dump_client_example_def dump_server_example_def general_dump_config_def)
qed (use examples_read [OF assms] config_back [OF assms, of id client_example server_example] client_example_ok in
  \<open>simp_all add: dump_client_example_def dump_server_example_def general_dump_config_def\<close>)

theorem dumps_mean_the_same_witness:
  "\<exists>full. dump_client_example \<lparr>fmt_u64 = (\<lambda>_. []), fmt_i64 = (\<lambda>_. []), fmt_double = (\<lambda>_. [])\<rparr>
        (std_json (\<lambda>_. []) (\<lambda>_. Inr JNull)) True True =
      Inr (pretty_print \<lparr>fmt_u64 = (\<lambda>_. []), fmt_i64 = (\<lambda>_. []), fmt_double = (\<lambda>_. [])\<rparr>
        (std_json (\<lambda>_. []) (\<lambda>_. Inr JNull)) True full []) \<and>
    client_config_of_json (std_json (\<lambda>_. []) (\<lambda>_. Inr JNull)) full = Inr client_example"
  using dumps_mean_the_same [OF boost_json_std] by blast

end
