(* ===== verification/Client.thy ===== *)
theory Client
  imports Client_Worker Waitqueue Forwarder Config
begin

text \<open>
  The client (\<open>include/zrp/client.hpp\<close>): the controller, its shares with their queue of
  visited connections and their forwarder, and the workers of \<open>Client_Worker\<close>, in one state.

  Shares and workers live in heaps, as on the server's side; \<open>collect\<close> destroys after
  every event what nobody holds.  There is one controller, whose members are part of the
  state; it exists as long as \<open>ctrl_alive\<close>.  The forwarder of a share is the one of
  \<open>Forwarder\<close>: its downstream is the queue, which is not \<open>IsTryStoppable\<close>, and its upstream a
  connection to the local service.  The configuration \<open>cfg\<close> is an argument.

  Every coroutine is kept where it is suspended.  What the forwarder's thread and the main
  thread do is interleaved event by event; races inside an event are not modelled.
\<close>

section \<open>Objects\<close>

text \<open>Who is suspended in the queue of a share: a worker that provides its connection, or
  \<open>downstream::get_socket\<close>.\<close>

datatype cguest = g_conn nat | g_forward

text \<open>A coroutine of \<open>chk_need_workers\<close>: not started, or connecting the next of the workers it
  still has to add.\<close>

datatype adder = ad_chk | ad_connecting nat

text \<open>
  A value of the queue is the worker it came from and whether the socket is usable.
  \<open>cs_fwd\<close> is \<open>None\<close> until \<open>run_forwarder\<close> starts; \<open>cs_fwd_stops\<close> counts the coroutines of
  \<open>post_try_stop\<close> that have not started, \<open>cs_fwd_exn\<close> is what \<open>forward\<close> threw.
\<close>

record cshare =
  cs_id :: string
  cs_port :: u16
  cs_wq :: "(cguest, nat \<times> bool) waitqueue"
  cs_workers :: "(int, nat) smap"
  cs_next_id :: int
  cs_nr :: int
  cs_closing :: bool
  cs_fwd :: "forwarder option"
  cs_fwd_stops :: nat
  cs_fwd_exn :: "exn option"
  cs_adders :: "adder list"
  cs_posted :: "(cguest, nat \<times> bool) wtask list"
  cs_ready :: "(cguest, nat \<times> bool) completion list"

text \<open>Where \<open>controller_socket_send_recv_msgs\<close> is suspended; while it adds workers: to which
  share, how many more, and the shares after that one.\<close>

datatype kc_pc =
  kc_connecting | kc_helloing | kc_greeted | kc_adding nat nat "nat list" | kc_reading | kc_done

text \<open>\<open>kc_ping\<close> and \<open>kc_ping_cancelled\<close> are the controller's \<open>ping_timer_\<close>, as those of a worker.\<close>

record client =
  kc_sock :: socket
  kc_shares :: "(string, nat) smap"
  kc_hello :: client_hello
  kc_stopping :: bool
  kc_ping :: "nat option"
  kc_ping_cancelled :: bool
  kc_main :: kc_pc
  kc_ping_pc :: cping_pc
  kc_sent :: "message list"
  cl_exit_code :: int
  cl_shares :: "cshare heap"
  cl_workers :: "cworker heap"
  cl_next :: nat

definition upd_cshare :: "nat \<Rightarrow> (cshare \<Rightarrow> cshare) \<Rightarrow> client \<Rightarrow> client" where
  "upd_cshare a f S = S\<lparr>cl_shares := hupd a f (cl_shares S)\<rparr>"

definition upd_cworker :: "nat \<Rightarrow> (cworker \<Rightarrow> cworker) \<Rightarrow> client \<Rightarrow> client" where
  "upd_cworker w f S = S\<lparr>cl_workers := hupd w f (cl_workers S)\<rparr>"

section \<open>The share\<close>

definition cshare_new :: "string \<Rightarrow> u16 \<Rightarrow> cshare" where
  "cshare_new share_id port =
    \<lparr>cs_id = share_id, cs_port = port, cs_wq = wq_new, cs_workers = [], cs_next_id = 0, cs_nr = 0,
     cs_closing = False, cs_fwd = None, cs_fwd_stops = 0, cs_fwd_exn = None, cs_adders = [],
     cs_posted = [], cs_ready = []\<rparr>"

definition cshare_post :: "(cguest, nat \<times> bool) wtask \<Rightarrow> cshare \<Rightarrow> cshare" where
  "cshare_post t s = s\<lparr>cs_posted := cs_posted s @ [t]\<rparr>"

text \<open>Whether the forwarder exists: its coroutines, its strand and its pipes hold it.\<close>

definition cfwd_alive :: "cshare \<Rightarrow> bool" where
  "cfwd_alive s \<longleftrightarrow>
    (case cs_fwd s of
      None \<Rightarrow> False
    | Some f \<Rightarrow> fw_forwarding f \<or> cs_fwd_exn s \<noteq> None \<or> cs_fwd_stops s > 0 \<or> fw_waiting f \<noteq> [] \<or>
        fw_strand f \<noteq> [] \<or> fw_starting f \<noteq> [] \<or> fw_heap f \<noteq> [])"

definition cshare_close :: "cshare \<Rightarrow> cshare" where
  "cshare_close s =
    (let s = s\<lparr>cs_closing := True\<rparr>;
         s = (if cfwd_alive s then s\<lparr>cs_fwd_stops := cs_fwd_stops s + 1\<rparr> else s)
     in cshare_post close_task (s\<lparr>cs_wq := (cs_wq s)\<lparr>wq_closed := True\<rparr>\<rparr>))"

definition stop_cworkers :: "(int, nat) smap \<Rightarrow> client \<Rightarrow> client" where
  "stop_cworkers ws S =
    fold (\<lambda>(i, w) S. if live (cl_workers S) w then upd_cworker w cworker_try_stop S else S) ws S"

definition cshare_try_stop :: "nat \<Rightarrow> client \<Rightarrow> client" where
  "cshare_try_stop a S =
    (case hget (cl_shares S) a of
      None \<Rightarrow> S
    | Some s \<Rightarrow> stop_cworkers (cs_workers s) (upd_cshare a cshare_close S))"

section \<open>The controller's stop\<close>

definition cctrl_try_stop :: "client \<Rightarrow> client" where
  "cctrl_try_stop S =
    (let S = S\<lparr>kc_stopping := True, kc_sock := sock_closed\<rparr>
     in (fold (\<lambda>(i, a) S. if live (cl_shares S) a then cshare_try_stop a S else S) (kc_shares S) S)
          \<lparr>kc_ping_cancelled := True\<rparr>)"

definition cctrl_handle_error :: "exn \<Rightarrow> client \<Rightarrow> client" where
  "cctrl_handle_error e S =
    (if \<not> kc_stopping S then cctrl_try_stop (S\<lparr>cl_exit_code := 1\<rparr>) else S)"

definition cctrl_failed :: "exn \<Rightarrow> client \<Rightarrow> client" where
  "cctrl_failed e S = (cctrl_handle_error e S)\<lparr>kc_main := kc_done\<rparr>"

text \<open>\<open>tcp_share::handle_error\<close> stops the whole client.\<close>

definition cshare_handle_error :: "exn \<Rightarrow> nat \<Rightarrow> client \<Rightarrow> client" where
  "cshare_handle_error e a S =
    (case hget (cl_shares S) a of
      None \<Rightarrow> S
    | Some s \<Rightarrow> if \<not> cs_closing s then cctrl_try_stop (S\<lparr>cl_exit_code := 1\<rparr>) else S)"

section \<open>Adding workers\<close>

definition cleanup_cworkers :: "nat \<Rightarrow> client \<Rightarrow> client" where
  "cleanup_cworkers a S =
    upd_cshare a (\<lambda>s. s\<lparr>cs_workers := map_erase_if (\<lambda>w. \<not> live (cl_workers S) w) (cs_workers s)\<rparr>) S"

text \<open>\<open>add_worker\<close> after \<open>get_socket\<close>: create, run, register.\<close>

definition add_cworker :: "json_lib \<Rightarrow> nat \<Rightarrow> client \<Rightarrow> client" where
  "add_cworker J a S =
    (case hget (cl_shares S) a of
      None \<Rightarrow> S
    | Some s \<Rightarrow>
        (let w = cl_next S;
             worker_id = cs_next_id s;
             wk = cworker_run J (cworker_new a (cs_id s) worker_id);
             S = S\<lparr>cl_next := Suc w, cl_workers := hnew w wk (cl_workers S)\<rparr>
         in upd_cshare a (\<lambda>s. s\<lparr>cs_next_id := worker_id + 1, cs_nr := cs_nr s + 1,
              cs_workers := map_emplace worker_id w (cs_workers s)\<rparr>) S))"

text \<open>The \<open>int\<close> of the configuration as the \<open>size_t\<close> parameter of \<open>add_workers\<close>.\<close>

definition worker_count :: "cint \<Rightarrow> nat" where
  "worker_count n = unat (scast n :: u64)"

definition chk_need_workers :: "client_config \<Rightarrow> cshare \<Rightarrow> cshare" where
  "chk_need_workers cfg s =
    (if cs_nr s < sint (cc_worker_count_low cfg) then s\<lparr>cs_adders := cs_adders s @ [ad_chk]\<rparr> else s)"

definition drop_adder :: "nat \<Rightarrow> nat \<Rightarrow> client \<Rightarrow> client" where
  "drop_adder a i = upd_cshare a (\<lambda>s. s\<lparr>cs_adders := remove_nth i (cs_adders s)\<rparr>)"

definition set_adder :: "nat \<Rightarrow> nat \<Rightarrow> nat \<Rightarrow> client \<Rightarrow> client" where
  "set_adder a i k = upd_cshare a (\<lambda>s. s\<lparr>cs_adders := (cs_adders s)[i := ad_connecting k]\<rparr>)"

text \<open>The loop of \<open>add_workers\<close> in such a coroutine, \<open>k\<close> rounds before its end.\<close>

definition adder_loop :: "nat \<Rightarrow> nat \<Rightarrow> nat \<Rightarrow> client \<Rightarrow> client" where
  "adder_loop a i k S = (if k = 0 then drop_adder a i S else set_adder a i k S)"

text \<open>One resumption of the coroutine; an exception of \<open>get_socket\<close> is lost with it.\<close>

definition adder_step ::
  "json_lib \<Rightarrow> client_config \<Rightarrow> unit res \<Rightarrow> nat \<Rightarrow> cshare \<Rightarrow> nat \<Rightarrow> client \<Rightarrow> client" where
  "adder_step J cfg r a s i S =
    (case cs_adders s ! i of
      ad_chk \<Rightarrow>
        if cs_closing s then drop_adder a i S
        else if cs_nr s < sint (cc_worker_count_low cfg)
        then adder_loop a i (worker_count (cc_worker_count_more cfg)) (cleanup_cworkers a S)
        else drop_adder a i S
    | ad_connecting k \<Rightarrow>
        (case r of
          Inl e \<Rightarrow> drop_adder a i S
        | Inr _ \<Rightarrow> adder_loop a i (k - 1) (add_cworker J a S)))"

section \<open>The controller\<close>

definition add_ctcp_share :: "string \<Rightarrow> u16 \<Rightarrow> client \<Rightarrow> client" where
  "add_ctcp_share share_id port S =
    (let a = cl_next S;
         S = S\<lparr>cl_next := Suc a, cl_shares := hnew a (cshare_new share_id port) (cl_shares S),
               kc_shares := map_emplace share_id a (kc_shares S)\<rparr>
     in S\<lparr>kc_hello := (kc_hello S)\<lparr>ch_tcp_shares := ch_tcp_shares (kc_hello S) @
            [\<lparr>ts_id = share_id, ts_port = port\<rparr>]\<rparr>\<rparr>)"

definition client_new :: "string \<Rightarrow> client" where
  "client_new client_uuid =
    \<lparr>kc_sock = sock_open, kc_shares = [],
     kc_hello = \<lparr>ch_version = 0, ch_client_uuid = client_uuid, ch_tcp_shares = []\<rparr>,
     kc_stopping = False, kc_ping = None, kc_ping_cancelled = False, kc_main = kc_done, kc_ping_pc = pg_done, kc_sent = [],
     cl_exit_code = 0, cl_shares = [], cl_workers = [], cl_next = 0\<rparr>"

definition client_init :: "client_config \<Rightarrow> client \<Rightarrow> client" where
  "client_init cfg S = fold (\<lambda>(k, sh) S. add_ctcp_share k (sc_remote_port sh) S) (cc_tcp_shares cfg) S"

text \<open>The head of the loop of \<open>ping_actor\<close>: it waits for the timer.\<close>

definition cctrl_ping_wait :: "client \<Rightarrow> client" where
  [simp]: "cctrl_ping_wait S = S\<lparr>kc_ping_pc := pg_waiting, kc_ping_cancelled := False\<rparr>"

definition client_run :: "client \<Rightarrow> client" where
  "client_run S = cctrl_ping_wait (S\<lparr>kc_ping := None, kc_main := kc_connecting\<rparr>)"

definition client_start :: "client_config \<Rightarrow> string \<Rightarrow> client" where
  "client_start cfg client_uuid = client_run (client_init cfg (client_new client_uuid))"

definition cctrl_set_ping_timer :: "nat \<Rightarrow> nat \<Rightarrow> client \<Rightarrow> client" where
  [simp]: "cctrl_set_ping_timer after now S = S\<lparr>kc_ping := Some (now + after), kc_ping_cancelled := True\<rparr>"

definition cctrl_loop :: "nat \<Rightarrow> client \<Rightarrow> client" where
  "cctrl_loop now S = (cctrl_set_ping_timer 20 now S)\<lparr>kc_main := kc_reading\<rparr>"

text \<open>The loop over the shares that adds the initial workers, from the given shares on.\<close>

fun cctrl_add :: "client_config \<Rightarrow> nat \<Rightarrow> nat list \<Rightarrow> client \<Rightarrow> client" where
  "cctrl_add cfg now [] S = cctrl_loop now S"
| "cctrl_add cfg now (a # as) S =
     (if live (cl_shares S) a
      then
        (let S = cleanup_cworkers a S; k = worker_count (cc_worker_count_initial cfg) in
         if k = 0 then cctrl_add cfg now as S else S\<lparr>kc_main := kc_adding a k as\<rparr>)
      else cctrl_add cfg now as S)"

definition cctrl_on_connected :: "json_lib \<Rightarrow> unit res \<Rightarrow> client \<Rightarrow> client" where
  "cctrl_on_connected J r S =
    (case ebind r (\<lambda>_. marshal_msg J (M_client_hello (kc_hello S))) of
      Inl e \<Rightarrow> cctrl_failed e S
    | Inr jv \<Rightarrow> S\<lparr>kc_main := kc_helloing, kc_sent := kc_sent S @ [M_client_hello (kc_hello S)]\<rparr>)"

definition cctrl_on_hello_written :: "unit res \<Rightarrow> client \<Rightarrow> client" where
  "cctrl_on_hello_written r S =
    (case r of
      Inl e \<Rightarrow> cctrl_failed e S
    | Inr _ \<Rightarrow> S\<lparr>kc_main := kc_greeted\<rparr>)"

definition cctrl_on_read :: "json_lib \<Rightarrow> client_config \<Rightarrow> nat \<Rightarrow> json res \<Rightarrow> client \<Rightarrow> client" where
  "cctrl_on_read J cfg now r S =
    (if kc_main S = kc_greeted
     then
       (case ebind r (unmarshal_msg J [T_server_hello]) of
         Inl e \<Rightarrow> cctrl_failed e S
       | Inr m \<Rightarrow> cctrl_add cfg now (map snd (kc_shares S)) S)
     else
       (case ebind r (unmarshal_msg J [T_pong]) of
         Inl e \<Rightarrow> cctrl_failed e S
       | Inr m \<Rightarrow> cctrl_loop now S))"

text \<open>\<open>get_socket\<close> of a worker that the controller adds.\<close>

definition cctrl_on_worker_connected :: "json_lib \<Rightarrow> client_config \<Rightarrow> nat \<Rightarrow> unit res \<Rightarrow> nat \<Rightarrow> nat \<Rightarrow> nat list \<Rightarrow> client \<Rightarrow> client" where
  "cctrl_on_worker_connected J cfg now r a k as S =
    (case r of
      Inl e \<Rightarrow> cctrl_failed e S
    | Inr _ \<Rightarrow>
        (let S = add_cworker J a S in
         if k - 1 = 0 then cctrl_add cfg now as S else S\<lparr>kc_main := kc_adding a (k - 1) as\<rparr>))"

text \<open>\<open>ping_actor\<close> after its wait.\<close>

definition cctrl_ping_check :: "json_lib \<Rightarrow> nat \<Rightarrow> client \<Rightarrow> client" where
  "cctrl_ping_check J now S =
    (if kc_stopping S then S\<lparr>kc_ping_pc := pg_done\<rparr>
     else
       (case kc_ping S of
         Some expiry \<Rightarrow>
           if expiry \<le> now
           then
             (let S = S\<lparr>kc_ping := None\<rparr> in
              case marshal_msg J M_ping of
                Inl e \<Rightarrow> (cctrl_handle_error e S)\<lparr>kc_ping_pc := pg_done\<rparr>
              | Inr jv \<Rightarrow> S\<lparr>kc_ping_pc := pg_sending, kc_sent := kc_sent S @ [M_ping]\<rparr>)
           else cctrl_ping_wait S
       | None \<Rightarrow> cctrl_ping_wait S))"

definition cctrl_on_timer :: "json_lib \<Rightarrow> nat \<Rightarrow> unit res \<Rightarrow> client \<Rightarrow> client" where
  "cctrl_on_timer J now r S =
    (case r of
      Inl e \<Rightarrow>
        if e \<noteq> system_error operation_aborted
        then (cctrl_handle_error e S)\<lparr>kc_ping_pc := pg_done\<rparr>
        else cctrl_ping_check J now S
    | Inr _ \<Rightarrow> cctrl_ping_check J now S)"

definition cctrl_on_ping_written :: "unit res \<Rightarrow> client \<Rightarrow> client" where
  "cctrl_on_ping_written r S =
    (case r of
      Inl e \<Rightarrow> (cctrl_handle_error e S)\<lparr>kc_ping_pc := pg_done\<rparr>
    | Inr _ \<Rightarrow> cctrl_ping_wait S)"

section \<open>The queue and the forwarder of a share\<close>

text \<open>\<open>run_forwarder\<close> up to the first \<open>wq_.wait\<close> of \<open>downstream::get_socket\<close>.\<close>

definition crun_forwarder :: "cshare \<Rightarrow> cshare" where
  "crun_forwarder s = cshare_post (wait_task g_forward) (s\<lparr>cs_fwd := Some (forwarder_run forwarder_new)\<rparr>)"

text \<open>\<open>forward\<close> with what \<open>get_socket\<close> and \<open>rebind_ioc\<close> made of the wait.\<close>

definition cforward :: "nat + exn \<Rightarrow> cshare \<Rightarrow> cshare" where
  "cforward r s =
    (let s = s\<lparr>cs_fwd := map_option (forward_accepted False r) (cs_fwd s)\<rparr> in
     case r of
       Inl user \<Rightarrow> cshare_post (wait_task g_forward) s
     | Inr e \<Rightarrow> s\<lparr>cs_fwd_exn := Some e\<rparr>)"

text \<open>The handler of a worker resumes its coroutine where it is suspended in \<open>provide\<close>.\<close>

definition resume_provide :: "nat \<Rightarrow> unit res \<Rightarrow> cworker \<Rightarrow> cworker" where
  "resume_provide now r wk = (if cw_main wk = cm_providing then cworker_on_provided now r wk else wk)"

text \<open>A completion of the queue: the wait of the forwarder, or the \<open>provide\<close> of a worker.\<close>

fun cshare_resume :: "client_config \<Rightarrow> nat \<Rightarrow> (cguest, nat \<times> bool) completion \<Rightarrow> nat \<Rightarrow> client \<Rightarrow> client" where
  "cshare_resume cfg now (wait_done h (w, usable)) a S =
     upd_cshare a (\<lambda>s. cforward (rebind_ioc usable w) (chk_need_workers cfg s)) S"
| "cshare_resume cfg now (wait_aborted h) a S =
     upd_cshare a (cforward (Inr (system_error operation_aborted))) S"
| "cshare_resume cfg now (provide_done (g_conn w)) a S = upd_cworker w (resume_provide now (Inr ())) S"
| "cshare_resume cfg now (provide_aborted (g_conn w)) a S =
     upd_cworker w (resume_provide now (Inl (system_error operation_aborted))) S"
| "cshare_resume cfg now _ a S = S"

definition cshare_run_closure :: "nat \<Rightarrow> cshare \<Rightarrow> cshare" where
  "cshare_run_closure i s =
    (let (q', cs) = run_task (cs_posted s ! i) (cs_wq s) in
     s\<lparr>cs_wq := q', cs_posted := remove_nth i (cs_posted s), cs_ready := cs_ready s @ cs\<rparr>)"

section \<open>Destruction\<close>

definition cworker_held :: "cworker \<Rightarrow> bool" where
  "cworker_held w \<longleftrightarrow> cw_main w \<noteq> cm_done \<or> cw_ping_pc w \<noteq> pg_done"

text \<open>The closure of \<open>wq_.close()\<close> keeps a bare pointer to the queue; it is taken to run before
  the share is destroyed.\<close>

definition cshare_held :: "client \<Rightarrow> nat \<Rightarrow> cshare \<Rightarrow> bool" where
  "cshare_held S a s \<longleftrightarrow> cs_fwd s = None \<or> cfwd_alive s \<or> cs_adders s \<noteq> [] \<or>
    cs_posted s \<noteq> [] \<or> cs_ready s \<noteq> [] \<or>
    (case kc_main S of kc_adding b k as \<Rightarrow> b = a | _ \<Rightarrow> False) \<or> list_ex (\<lambda>(w, wk). cw_share wk = a) (cl_workers S)"

definition collect_cworkers :: "client \<Rightarrow> client" where
  "collect_cworkers S =
    (let dead = filter (\<lambda>(w, wk). \<not> cworker_held wk) (cl_workers S) in
     S\<lparr>cl_workers := hkeep (\<lambda>w. cworker_held) (cl_workers S),
       cl_shares := map (\<lambda>(a, s). (a, s\<lparr>cs_nr := cs_nr s -
         int (length (filter (\<lambda>(w, wk). cw_share wk = a) dead))\<rparr>)) (cl_shares S)\<rparr>)"

definition collect_cshares :: "client \<Rightarrow> client" where
  "collect_cshares S = S\<lparr>cl_shares := hkeep (cshare_held S) (cl_shares S)\<rparr>"

definition ccollect :: "client \<Rightarrow> client" where
  "ccollect S = collect_cshares (collect_cworkers S)"

text \<open>\<open>ctrl_weak.lock()\<close> succeeds while a coroutine of the controller or a share is left.\<close>

definition ctrl_alive :: "client \<Rightarrow> bool" where
  "ctrl_alive S \<longleftrightarrow> kc_main S \<noteq> kc_done \<or> kc_ping_pc S \<noteq> pg_done \<or> cl_shares S \<noteq> []"

section \<open>Steps\<close>

datatype client_event =
  kev_connected "unit res"
| kev_hello_written "unit res"
| kev_read "json res"
| kev_worker_connected "unit res"
| kev_timer "unit res"
| kev_ping_written "unit res"
| kev_worker nat cworker_event
| kev_adder nat nat "unit res"
| kev_fwd_start nat
| kev_fwd nat fwd_event
| kev_fwd_stop nat
| kev_fwd_end nat
| kev_closure nat nat
| kev_resume nat nat
| kev_stop

text \<open>What a worker's coroutines do by themselves.\<close>

definition own_cevent :: "cworker_event \<Rightarrow> bool" where
  "own_cevent ev \<longleftrightarrow> (case ev of cwe_provided r \<Rightarrow> False | cwe_stop \<Rightarrow> False | _ \<Rightarrow> True)"

definition own_fevent :: "fwd_event \<Rightarrow> bool" where
  "own_fevent ev \<longleftrightarrow> (case ev of fev_accept r \<Rightarrow> False | fev_stop \<Rightarrow> False | _ \<Rightarrow> True)"

text \<open>A worker's step, and the closure of \<open>provide\<close> when it comes to that.\<close>

definition cworker_act_step :: "json_lib \<Rightarrow> nat \<Rightarrow> nat \<Rightarrow> cworker_event \<Rightarrow> cworker \<Rightarrow> client \<Rightarrow> client option" where
  "cworker_act_step J now w ev wk S =
    map_option (\<lambda>wk'.
      let S = upd_cworker w (\<lambda>_. wk') S in
      if ev = cwe_confirmed (Inr ())
      then upd_cshare (cw_share wk) (cshare_post (provide_task (g_conn w) (w, cw_sock wk = sock_open))) S
      else S) (cworker_step J now ev wk)"

fun client_act :: "json_lib \<Rightarrow> client_config \<Rightarrow> nat \<Rightarrow> client_event \<Rightarrow> client \<Rightarrow> client option" where
  "client_act J cfg now (kev_connected r) S =
     (if kc_main S = kc_connecting then Some (cctrl_on_connected J r S) else None)"
| "client_act J cfg now (kev_hello_written r) S =
     (if kc_main S = kc_helloing then Some (cctrl_on_hello_written r S) else None)"
| "client_act J cfg now (kev_read r) S =
     (if kc_main S = kc_greeted \<or> kc_main S = kc_reading then Some (cctrl_on_read J cfg now r S) else None)"
| "client_act J cfg now (kev_worker_connected r) S =
     (case kc_main S of
       kc_adding a k as \<Rightarrow> Some (cctrl_on_worker_connected J cfg now r a k as S)
     | _ \<Rightarrow> None)"
| "client_act J cfg now (kev_timer r) S =
     (if kc_ping_pc S = pg_waiting \<and> wait_may_end (kc_ping_cancelled S) (kc_ping S) r
      then Some (cctrl_on_timer J now r S) else None)"
| "client_act J cfg now (kev_ping_written r) S =
     (if kc_ping_pc S = pg_sending then Some (cctrl_on_ping_written r S) else None)"
| "client_act J cfg now (kev_worker w ev) S =
     (case hget (cl_workers S) w of
       Some wk \<Rightarrow> if own_cevent ev then cworker_act_step J now w ev wk S else None
     | None \<Rightarrow> None)"
| "client_act J cfg now (kev_adder a i r) S =
     (case hget (cl_shares S) a of
       Some s \<Rightarrow> if i < length (cs_adders s) then Some (adder_step J cfg r a s i S) else None
     | None \<Rightarrow> None)"
| "client_act J cfg now (kev_fwd_start a) S =
     (case hget (cl_shares S) a of
       Some s \<Rightarrow> if cs_fwd s = None then Some (upd_cshare a crun_forwarder S) else None
     | None \<Rightarrow> None)"
| "client_act J cfg now (kev_fwd a fev) S =
     (case hget (cl_shares S) a of
       Some s \<Rightarrow>
         if own_fevent fev
         then map_option (\<lambda>f. upd_cshare a (\<lambda>s. s\<lparr>cs_fwd := Some f\<rparr>) S)
                (Option.bind (cs_fwd s) (fwd_step False fev))
         else None
     | None \<Rightarrow> None)"
| "client_act J cfg now (kev_fwd_stop a) S =
     (case hget (cl_shares S) a of
       Some s \<Rightarrow>
         if cs_fwd_stops s > 0
         then map_option (\<lambda>f. upd_cshare a (\<lambda>s. s\<lparr>cs_fwd := Some f, cs_fwd_stops := cs_fwd_stops s - 1\<rparr>) S)
                (Option.bind (cs_fwd s) (fwd_step False fev_stop))
         else None
     | None \<Rightarrow> None)"
| "client_act J cfg now (kev_fwd_end a) S =
     (case hget (cl_shares S) a of
       Some s \<Rightarrow>
         (case cs_fwd_exn s of
           Some e \<Rightarrow> Some (upd_cshare a (\<lambda>s. s\<lparr>cs_fwd_exn := None\<rparr>) (cshare_handle_error e a S))
         | None \<Rightarrow> None)
     | None \<Rightarrow> None)"
| "client_act J cfg now (kev_closure a i) S =
     (case hget (cl_shares S) a of
       Some s \<Rightarrow> if i < length (cs_posted s) then Some (upd_cshare a (cshare_run_closure i) S) else None
     | None \<Rightarrow> None)"
| "client_act J cfg now (kev_resume a i) S =
     (case hget (cl_shares S) a of
       Some s \<Rightarrow>
         if i < length (cs_ready s)
         then Some (cshare_resume cfg now (cs_ready s ! i) a
                (upd_cshare a (\<lambda>s. s\<lparr>cs_ready := remove_nth i (cs_ready s)\<rparr>) S))
         else None
     | None \<Rightarrow> None)"
| "client_act J cfg now kev_stop S = Some (if ctrl_alive S then cctrl_try_stop S else S)"

definition client_step :: "json_lib \<Rightarrow> client_config \<Rightarrow> nat \<Rightarrow> client_event \<Rightarrow> client \<Rightarrow> client option" where
  "client_step J cfg now ev S = map_option ccollect (client_act J cfg now ev S)"

fun client_steps :: "json_lib \<Rightarrow> client_config \<Rightarrow> (nat \<times> client_event) list \<Rightarrow> client \<Rightarrow> client option" where
  "client_steps J cfg [] S = Some S"
| "client_steps J cfg ((now, ev) # evs) S =
     (case client_step J cfg now ev S of None \<Rightarrow> None | Some S' \<Rightarrow> client_steps J cfg evs S')"

definition client_reachable :: "json_lib \<Rightarrow> client_config \<Rightarrow> client \<Rightarrow> bool" where
  "client_reachable J cfg S \<longleftrightarrow>
    (\<exists>client_uuid evs. client_steps J cfg evs (client_start cfg client_uuid) = Some S)"

end
