(* ===== verification/Client_Inv.thy ===== *)
theory Client_Inv
  imports Client
begin

text \<open>
  The bookkeeping of the client's workers holds in every reachable state: the invariant, that
  every operation keeps it, and what a stop does to all objects.  Most operations do not touch
  what the invariant looks at, the \<open>skeleton\<close> of the state.
\<close>

section \<open>The skeleton\<close>

text \<open>Of a worker: its share and its id.  Of a share: its id, its list, the next id, the count.\<close>

definition wview :: "client \<Rightarrow> nat \<Rightarrow> (nat \<times> int) option" where
  "wview S w = map_option (\<lambda>wk. (cw_share wk, cw_id wk)) (hget (cl_workers S) w)"

definition sview :: "client \<Rightarrow> nat \<Rightarrow> (string \<times> (int, nat) smap \<times> int \<times> int) option" where
  "sview S a = map_option (\<lambda>s. (cs_id s, cs_workers s, cs_next_id s, cs_nr s)) (hget (cl_shares S) a)"

definition skeleton where
  "skeleton S = (cl_next S, kc_shares S, map fst (cl_workers S), map fst (cl_shares S), wview S, sview S)"

text \<open>
  Addresses are fresh; every worker is listed in its share under its id; every share has its
  workers counted, lists only ids it gave out, and is registered under its id.
\<close>

definition cshape ::
  "nat \<Rightarrow> (string, nat) smap \<Rightarrow> (nat \<Rightarrow> (nat \<times> int) option) \<Rightarrow> (nat \<Rightarrow> (string \<times> (int, nat) smap \<times> int \<times> int) option) \<Rightarrow> bool"
where
  [zrp_inv]: "cshape n kc W H \<longleftrightarrow>
    (\<forall>w. W w \<noteq> None \<longrightarrow> w < n) \<and> (\<forall>a. H a \<noteq> None \<longrightarrow> a < n) \<and>
    (\<forall>w a i. W w = Some (a, i) \<longrightarrow> (\<exists>sid wm nx nr. H a = Some (sid, wm, nx, nr) \<and> map_find i wm = Some w)) \<and>
    (\<forall>a sid wm nx nr. H a = Some (sid, wm, nx, nr) \<longrightarrow> map_ok wm \<and> 0 \<le> nx \<and> map_find sid kc = Some a \<and>
      nr = int (card {w. \<exists>i. W w = Some (a, i)}) \<and>
      (\<forall>i w. map_find i wm = Some w \<longrightarrow> 0 \<le> i \<and> i < nx \<and> w < n \<and> (\<forall>b j. W w = Some (b, j) \<longrightarrow> b = a \<and> j = i)))"

definition client_shape :: "client \<Rightarrow> bool" where
  "client_shape S \<longleftrightarrow> distinct (map fst (cl_workers S)) \<and> distinct (map fst (cl_shares S)) \<and>
    cshape (cl_next S) (kc_shares S) (wview S) (sview S)"

lemma skeleton_shape: "skeleton S' = skeleton S \<Longrightarrow> client_shape S' = client_shape S"
  by (simp add: client_shape_def skeleton_def)

section \<open>Operations that leave the skeleton\<close>

lemma skeleton_sel [simp]:
  "skeleton (S\<lparr>kc_sock := x1\<rparr>) = skeleton S" "skeleton (S\<lparr>kc_hello := x2\<rparr>) = skeleton S"
  "skeleton (S\<lparr>kc_stopping := x3\<rparr>) = skeleton S" "skeleton (S\<lparr>kc_ping := x4\<rparr>) = skeleton S"
  "skeleton (S\<lparr>kc_ping_cancelled := y4\<rparr>) = skeleton S"
  "skeleton (S\<lparr>kc_main := x5\<rparr>) = skeleton S" "skeleton (S\<lparr>kc_ping_pc := x6\<rparr>) = skeleton S"
  "skeleton (S\<lparr>kc_sent := x7\<rparr>) = skeleton S" "skeleton (S\<lparr>cl_exit_code := x8\<rparr>) = skeleton S"
  by (simp_all add: skeleton_def wview_def [abs_def] sview_def [abs_def])

lemma skeleton_upd_cworker:
  assumes "\<And>wk. hget (cl_workers S) w = Some wk \<Longrightarrow> cw_share (f wk) = cw_share wk \<and> cw_id (f wk) = cw_id wk"
  shows "skeleton (upd_cworker w f S) = skeleton S"
proof -
  have "wview (upd_cworker w f S) v = wview S v" for v
    using assms by (cases "hget (cl_workers S) w") (auto simp: wview_def upd_cworker_def)
  then have "wview (upd_cworker w f S) = wview S" by blast
  then show ?thesis by (simp add: skeleton_def upd_cworker_def sview_def [abs_def])
qed

lemma skeleton_upd_cshare:
  assumes "\<And>s. cs_id (f s) = cs_id s \<and> cs_workers (f s) = cs_workers s \<and> cs_next_id (f s) = cs_next_id s \<and> cs_nr (f s) = cs_nr s"
  shows "skeleton (upd_cshare a f S) = skeleton S"
proof -
  have "sview (upd_cshare a f S) b = sview S b" for b
    using assms by (cases "hget (cl_shares S) a") (auto simp: sview_def upd_cshare_def)
  then have "sview (upd_cshare a f S) = sview S" by blast
  then show ?thesis by (simp add: skeleton_def upd_cshare_def wview_def [abs_def])
qed

lemma cworker_ids_stop [simp]:
  "cw_share (cworker_try_stop w) = cw_share w" "cw_id (cworker_try_stop w) = cw_id w"
  "cw_share (cworker_failed e w) = cw_share w" "cw_id (cworker_failed e w) = cw_id w"
  "cw_share (cworker_handle_error e w) = cw_share w" "cw_id (cworker_handle_error e w) = cw_id w"
  "cw_share (cworker_loop now w) = cw_share w" "cw_id (cworker_loop now w) = cw_id w"
  by (simp_all add: cworker_ops)

lemma cworker_ids_send [simp]:
  "cw_share (cworker_send J m pc w) = cw_share w" "cw_id (cworker_send J m pc w) = cw_id w"
  by (simp_all add: cworker_send_def cworker_act_def split: sum.split)

lemma cworker_ids_step:
  assumes "cworker_step J now ev w = Some w'"
  shows "cw_share w' = cw_share w \<and> cw_id w' = cw_id w"
proof (cases ev)
  case (cwe_read r c)
  then show ?thesis using assms
    by (auto simp: cworker_on_read_def cworker_on_visit_def Let_def split: if_splits sum.splits message.splits)
next
  case (cwe_timer r)
  then show ?thesis using assms
    by (auto simp: cworker_on_timer_def cworker_ping_check_def Let_def split: if_splits sum.splits option.splits)
qed (use assms in \<open>auto simp: cworker_on_hello_written_def cworker_on_confirmed_def cworker_on_provided_def
  cworker_on_ping_written_def split: if_splits sum.splits\<close>)

lemma skeleton_provided: "skeleton (upd_cworker w (resume_provide now r) S) = skeleton S"
  by (rule skeleton_upd_cworker) (simp add: resume_provide_def cworker_on_provided_def split: sum.split)

lemma skeleton_close: "skeleton (upd_cshare a cshare_close S) = skeleton S"
  by (rule skeleton_upd_cshare) (simp add: cshare_close_def cshare_post_def Let_def)

lemma skeleton_stop_cworkers: "skeleton (stop_cworkers ws S) = skeleton S"
  by (induction ws arbitrary: S) (auto simp: stop_cworkers_def skeleton_upd_cworker)

lemma skeleton_cshare_try_stop: "skeleton (cshare_try_stop a S) = skeleton S"
  by (simp add: cshare_try_stop_def skeleton_stop_cworkers skeleton_close split: option.split)

lemma skeleton_stop_shares:
  "skeleton (fold (\<lambda>(i, a) S. if live (cl_shares S) a then cshare_try_stop a S else S) xs S) = skeleton S"
  by (induction xs arbitrary: S) (auto simp: skeleton_cshare_try_stop)

lemma skeleton_cctrl_stop [simp]:
  "skeleton (cctrl_try_stop S) = skeleton S" "skeleton (cctrl_handle_error e S) = skeleton S"
  "skeleton (cctrl_failed e S) = skeleton S" "skeleton (cshare_handle_error e a S) = skeleton S"
  by (simp_all add: cctrl_try_stop_def cctrl_handle_error_def cctrl_failed_def cshare_handle_error_def
      skeleton_stop_shares Let_def split: option.split)

lemma skeleton_cctrl_loop [simp]: "skeleton (cctrl_loop now S) = skeleton S"
  by (simp add: cctrl_loop_def)

lemma skeleton_adder [simp]:
  "skeleton (drop_adder a i S) = skeleton S" "skeleton (set_adder a i k S) = skeleton S"
  "skeleton (adder_loop a i k S) = skeleton S"
  by (simp_all add: drop_adder_def set_adder_def adder_loop_def skeleton_upd_cshare)

lemma skeleton_timer [simp]:
  "skeleton (cctrl_on_timer J now r S) = skeleton S" "skeleton (cctrl_on_ping_written r' S) = skeleton S"
  by (auto simp: cctrl_on_timer_def cctrl_ping_check_def cctrl_on_ping_written_def Let_def
      split: sum.split option.split)

lemma skeleton_resume: "skeleton (cshare_resume cfg now c a S) = skeleton S"
proof (cases "(cfg, now, c, a, S)" rule: cshare_resume.cases)
  case (1 cfg' now' h w usable a' S')
  then show ?thesis
    by (auto intro!: skeleton_upd_cshare simp: cforward_def chk_need_workers_def cshare_post_def Let_def
        split: if_splits)
next
  case (2 cfg' now' h a' S')
  then show ?thesis by (auto intro!: skeleton_upd_cshare simp: cforward_def cshare_post_def Let_def)
qed (auto simp: skeleton_provided)

lemma skeleton_run_closure: "skeleton (upd_cshare a (cshare_run_closure i) S) = skeleton S"
  by (rule skeleton_upd_cshare) (simp add: cshare_run_closure_def split: prod.split)

section \<open>Operations that change it\<close>

lemma shapeD:
  assumes "cshape n kc W H"
  shows "W w = Some x \<Longrightarrow> w < n" and "H a = Some y \<Longrightarrow> a < n"
    and "W w = Some (a, i) \<Longrightarrow> \<exists>sid wm nx nr. H a = Some (sid, wm, nx, nr) \<and> map_find i wm = Some w"
    and "H a = Some (sid, wm, nx, nr) \<Longrightarrow> map_ok wm \<and> 0 \<le> nx \<and> map_find sid kc = Some a \<and>
      nr = int (card {w. \<exists>i. W w = Some (a, i)})"
    and "H a = Some (sid, wm, nx, nr) \<Longrightarrow> map_find i wm = Some w \<Longrightarrow> 0 \<le> i \<and> i < nx \<and> w < n"
    and "H a = Some (sid, wm, nx, nr) \<Longrightarrow> map_find i wm = Some w \<Longrightarrow> W w = Some (b, j) \<Longrightarrow> b = a \<and> j = i"
  using assms unfolding cshape_def by blast+

lemma shapeI:
  assumes "\<And>w x. W w = Some x \<Longrightarrow> w < n" and "\<And>a y. H a = Some y \<Longrightarrow> a < n"
    and "\<And>w a i. W w = Some (a, i) \<Longrightarrow> \<exists>sid wm nx nr. H a = Some (sid, wm, nx, nr) \<and> map_find i wm = Some w"
    and "\<And>a sid wm nx nr. H a = Some (sid, wm, nx, nr) \<Longrightarrow> map_ok wm \<and> 0 \<le> nx \<and> map_find sid kc = Some a \<and>
      nr = int (card {w. \<exists>i. W w = Some (a, i)})"
    and "\<And>a sid wm nx nr i w. H a = Some (sid, wm, nx, nr) \<Longrightarrow> map_find i wm = Some w \<Longrightarrow> 0 \<le> i \<and> i < nx \<and> w < n"
    and "\<And>a sid wm nx nr i w b j. H a = Some (sid, wm, nx, nr) \<Longrightarrow> map_find i wm = Some w \<Longrightarrow> W w = Some (b, j) \<Longrightarrow>
      b = a \<and> j = i"
  shows "cshape n kc W H"
  unfolding cshape_def
proof (intro conjI allI impI)
  fix w assume "W w \<noteq> None"
  then show "w < n" using assms(1) by blast
next
  fix a assume "H a \<noteq> None"
  then show "a < n" using assms(2) by blast
next
  fix w a i assume "W w = Some (a, i)"
  then show "\<exists>sid wm nx nr. H a = Some (sid, wm, nx, nr) \<and> map_find i wm = Some w" by (rule assms(3))
next
  fix a sid wm nx nr assume h: "H a = Some (sid, wm, nx, nr)"
  show "map_ok wm" "0 \<le> nx" "map_find sid kc = Some a" "nr = int (card {w. \<exists>i. W w = Some (a, i)})"
    using assms(4) [OF h] by auto
  fix i w assume f: "map_find i wm = Some w"
  show "0 \<le> i" "i < nx" "w < n" using assms(5) [OF h f] by auto
  fix b j assume "W w = Some (b, j)"
  then show "b = a" "j = i" using assms(6) [OF h f] by auto
qed

lemma shape_fresh:
  assumes "cshape n kc W H"
  shows "W n = None" "H n = None"
  using shapeD(1) [OF assms, of n] shapeD(2) [OF assms, of n] by (cases "W n"; auto; cases "H n"; auto)+

lemma shape_new_worker:
  assumes sh: "cshape n kc W H" and a: "H a = Some (sid, wm, nx, nr)"
    and fin: "finite {w. \<exists>i. W w = Some (a, i)}"
  shows "cshape (Suc n) kc (W(n := Some (a, nx))) (H(a := Some (sid, map_emplace nx n wm, nx + 1, nr + 1)))"
proof -
  note n = shape_fresh [OF sh]
  note s = shapeD(4) [OF sh a]
  have free: "map_find nx wm = None" using shapeD(5) [OF sh a, of nx] by (cases "map_find nx wm") auto
  have find: "map_find i (map_emplace nx n wm) = (if i = nx then Some n else map_find i wm)" for i
    using free s by (simp add: find_emplace)
  have "{w. \<exists>i. (W(n := Some (a, nx))) w = Some (b, i)} =
      (if b = a then insert n {w. \<exists>i. W w = Some (a, i)} else {w. \<exists>i. W w = Some (b, i)})" for b
    using n by auto
  then have card: "card {w. \<exists>i. (W(n := Some (a, nx))) w = Some (b, i)} =
      card {w. \<exists>i. W w = Some (b, i)} + (if b = a then 1 else 0)" for b
    using fin n by (simp add: card_insert_if)
  show ?thesis
  proof (rule shapeI)
    fix w b i
    assume w: "(W(n := Some (a, nx))) w = Some (b, i)"
    show "\<exists>sid' wm' nx' nr'. (H(a := Some (sid, map_emplace nx n wm, nx + 1, nr + 1))) b = Some (sid', wm', nx', nr') \<and>
        map_find i wm' = Some w"
    proof (cases "w = n")
      case False
      then have "W w = Some (b, i)" using w by simp
      then obtain sid' wm' nx' nr' where h: "H b = Some (sid', wm', nx', nr')" "map_find i wm' = Some w"
        using shapeD(3) [OF sh] by blast
      have "i \<noteq> nx \<and> wm' = wm" if "b = a" using h a free that by auto
      then show ?thesis using h by (cases "b = a") (auto simp: find)
    qed (use w find in auto)
  next
    fix b sid' wm' nx' nr'
    assume h: "(H(a := Some (sid, map_emplace nx n wm, nx + 1, nr + 1))) b = Some (sid', wm', nx', nr')"
    show "map_ok wm' \<and> 0 \<le> nx' \<and> map_find sid' kc = Some b \<and>
        nr' = int (card {w. \<exists>i. (W(n := Some (a, nx))) w = Some (b, i)})"
      unfolding card using h s shapeD(4) [OF sh, of b] by (cases "b = a") auto
    fix i w
    assume f: "map_find i wm' = Some w"
    have which: "b = a \<and> i = nx \<and> w = n \<and> nx' = nx + 1 \<or>
        b = a \<and> map_find i wm = Some w \<and> nx' = nx + 1 \<and> w < n \<and> 0 \<le> i \<and> i < nx \<or>
        b \<noteq> a \<and> H b = Some (sid', wm', nx', nr') \<and> w < n \<and> 0 \<le> i \<and> i < nx'"
    proof (cases "b = a")
      case True
      then have "map_find i (map_emplace nx n wm) = Some w" "nx' = nx + 1" using h f by auto
      then show ?thesis
        using True shapeD(5) [OF sh a, of i w] by (cases "i = nx") (simp_all add: find)
    next
      case False
      then have "H b = Some (sid', wm', nx', nr')" using h by simp
      then show ?thesis using False shapeD(5) [OF sh _ f] by simp
    qed
    from which show "0 \<le> i \<and> i < nx' \<and> w < Suc n" using s by (elim disjE) simp_all
    fix c j
    assume w: "(W(n := Some (a, nx))) w = Some (c, j)"
    from which show "c = b \<and> j = i"
    proof (elim disjE conjE)
      assume "b = a" "map_find i wm = Some w" "w < n"
      then show ?thesis using w shapeD(6) [OF sh a, of i w c j] by simp
    next
      assume "H b = Some (sid', wm', nx', nr')" "w < n"
      then show ?thesis using w shapeD(6) [OF sh _ f, of b sid' nx' nr' c j] by simp
    qed (use w in simp)
  next
    fix w x assume "(W(n := Some (a, nx))) w = Some x"
    then show "w < Suc n" using shapeD(1) [OF sh, of w x] by (cases "w = n") auto
  next
    fix b y assume "(H(a := Some (sid, map_emplace nx n wm, nx + 1, nr + 1))) b = Some y"
    then show "b < Suc n" using shapeD(2) [OF sh, of b] a by (cases "b = a") fastforce+
  qed
qed

lemma shape_erase:
  assumes sh: "cshape n kc W H" and a: "H a = Some (sid, wm, nx, nr)" and P: "\<And>w. W w \<noteq> None \<Longrightarrow> \<not> P w"
  shows "cshape n kc W (H(a := Some (sid, map_erase_if P wm, nx, nr)))"
proof -
  note s = shapeD(4) [OF sh a]
  have find: "map_find i (map_erase_if P wm) = Some w \<longleftrightarrow> map_find i wm = Some w \<and> \<not> P w" for i w
    using s by (auto simp: find_erase_if split: option.splits)
  show ?thesis
  proof (rule shapeI)
    fix w b i
    assume w: "W w = Some (b, i)"
    then obtain sid' wm' nx' nr' where h: "H b = Some (sid', wm', nx', nr')" "map_find i wm' = Some w"
      using shapeD(3) [OF sh] by blast
    then show "\<exists>sid' wm' nx' nr'. (H(a := Some (sid, map_erase_if P wm, nx, nr))) b = Some (sid', wm', nx', nr') \<and>
        map_find i wm' = Some w"
      using a P [of w] w find [of i w] by (cases "b = a") auto
  next
    fix b sid' wm' nx' nr'
    assume h: "(H(a := Some (sid, map_erase_if P wm, nx, nr))) b = Some (sid', wm', nx', nr')"
    show "map_ok wm' \<and> 0 \<le> nx' \<and> map_find sid' kc = Some b \<and> nr' = int (card {w. \<exists>i. W w = Some (b, i)})"
      using h s shapeD(4) [OF sh, of b] by (cases "b = a") auto
    fix i w
    assume f: "map_find i wm' = Some w"
    show "0 \<le> i \<and> i < nx' \<and> w < n"
      using h f shapeD(5) [OF sh, of b _ _ _ _ i w] a by (cases "b = a") (auto simp: find)
    fix c j
    assume "W w = Some (c, j)"
    then show "c = b \<and> j = i"
      using h f shapeD(6) [OF sh, of b _ _ _ _ i w c j] a by (cases "b = a") (auto simp: find)
  next
    fix b y assume "(H(a := Some (sid, map_erase_if P wm, nx, nr))) b = Some y"
    then show "b < n" using shapeD(2) [OF sh] a by (cases "b = a") auto
  qed (rule shapeD(1) [OF sh])
qed

lemma shape_drop_workers:
  assumes "cshape n kc W H"
    and fin: "\<And>a. finite {w. \<exists>i. W w = Some (a, i)}"
    and W': "\<And>w. W' w = (if K w then W w else None)"
    and H': "\<And>a. H' a = map_option (\<lambda>(sid, wm, nx, nr). (sid, wm, nx, nr - int (card {w. \<not> K w \<and> (\<exists>i. W w = Some (a, i))}))) (H a)"
  shows "cshape n kc W' H'"
proof -
  have card: "card {w. \<exists>i. W w = Some (a, i)} =
      card {w. \<exists>i. W' w = Some (a, i)} + card {w. \<not> K w \<and> (\<exists>i. W w = Some (a, i))}" for a
  proof -
    have "{w. \<exists>i. W w = Some (a, i)} =
        {w. \<exists>i. W' w = Some (a, i)} \<union> {w. \<not> K w \<and> (\<exists>i. W w = Some (a, i))}"
      by (auto simp: W')
    moreover have "{w. \<exists>i. W' w = Some (a, i)} \<inter> {w. \<not> K w \<and> (\<exists>i. W w = Some (a, i))} = {}"
      by (auto simp: W')
    ultimately show ?thesis using fin [of a] by (simp add: card_Un_disjoint)
  qed
  show ?thesis
  proof (rule shapeI)
    fix a sid wm nx nr
    assume h: "H' a = Some (sid, wm, nx, nr)"
    then obtain nr0 where h0: "H a = Some (sid, wm, nx, nr0)"
      "nr = nr0 - int (card {w. \<not> K w \<and> (\<exists>i. W w = Some (a, i))})"
      by (auto simp: H')
    show "map_ok wm \<and> 0 \<le> nx \<and> map_find sid kc = Some a \<and> nr = int (card {w. \<exists>i. W' w = Some (a, i)})"
      using shapeD(4) [OF assms(1) h0(1)] card [of a] h0(2) by simp
    fix i w
    assume f: "map_find i wm = Some w"
    show "0 \<le> i \<and> i < nx \<and> w < n" by (rule shapeD(5) [OF assms(1) h0(1) f])
    fix b j
    assume "W' w = Some (b, j)"
    then show "b = a \<and> j = i"
      using shapeD(6) [OF assms(1) h0(1) f, of b j] by (auto simp: W' split: if_splits)
  next
    fix w a i
    assume "W' w = Some (a, i)"
    then have "W w = Some (a, i)" by (auto simp: W' split: if_splits)
    then obtain sid wm nx nr where "H a = Some (sid, wm, nx, nr)" "map_find i wm = Some w"
      using shapeD(3) [OF assms(1)] by blast
    then show "\<exists>sid wm nx nr. H' a = Some (sid, wm, nx, nr) \<and> map_find i wm = Some w" by (simp add: H')
  next
    fix w x assume "W' w = Some x"
    then show "w < n" using shapeD(1) [OF assms(1), of w x] by (auto simp: W' split: if_splits)
  next
    fix a y assume "H' a = Some y"
    then show "a < n" using shapeD(2) [OF assms(1)] by (auto simp: H')
  qed
qed

lemma shape_drop_shares:
  assumes sh: "cshape n kc W H" and "\<And>w a i. W w = Some (a, i) \<Longrightarrow> H' a = H a" "\<And>a. H' a = H a \<or> H' a = None"
  shows "cshape n kc W H'"
proof -
  have sub: "H' a = Some x \<Longrightarrow> H a = Some x" for a x using assms(3) [of a] by auto
  show ?thesis
  proof (rule shapeI)
    fix w a i
    assume "W w = Some (a, i)"
    then show "\<exists>sid wm nx nr. H' a = Some (sid, wm, nx, nr) \<and> map_find i wm = Some w"
      using shapeD(3) [OF sh] assms(2) [of w a i] by simp
  next
    fix a sid wm nx nr assume "H' a = Some (sid, wm, nx, nr)"
    then have h: "H a = Some (sid, wm, nx, nr)" by (rule sub)
    show "map_ok wm \<and> 0 \<le> nx \<and> map_find sid kc = Some a \<and> nr = int (card {w. \<exists>i. W w = Some (a, i)})"
      by (rule shapeD(4) [OF sh h])
    fix i w assume f: "map_find i wm = Some w"
    show "0 \<le> i \<and> i < nx \<and> w < n" by (rule shapeD(5) [OF sh h f])
    fix b j assume "W w = Some (b, j)"
    then show "b = a \<and> j = i" by (rule shapeD(6) [OF sh h f])
  qed (use shapeD(1,2) [OF sh] sub in auto)
qed

lemma shape_new_share:
  assumes sh: "cshape n kc W H" and "map_ok kc" "map_find sid kc = None"
  shows "cshape (Suc n) (map_emplace sid n kc) W (H(n := Some (sid, [], 0, 0)))"
proof -
  note n = shape_fresh [OF sh]
  have none: "W w \<noteq> Some (n, i)" for w i using shapeD(3) [OF sh, of w n i] n(2) by auto
  have kc: "map_find x (map_emplace sid n kc) = (if x = sid then Some n else map_find x kc)" for x
    using assms(2,3) by (simp add: find_emplace)
  show ?thesis
  proof (rule shapeI)
    fix w a i assume w: "W w = Some (a, i)"
    then show "\<exists>sid' wm nx nr. (H(n := Some (sid, [], 0, 0))) a = Some (sid', wm, nx, nr) \<and> map_find i wm = Some w"
      using shapeD(3) [OF sh w] none by (cases "a = n") auto
  next
    fix a sid' wm nx nr
    assume h: "(H(n := Some (sid, [], 0, 0))) a = Some (sid', wm, nx, nr)"
    show "map_ok wm \<and> 0 \<le> nx \<and> map_find sid' (map_emplace sid n kc) = Some a \<and> nr = int (card {w. \<exists>i. W w = Some (a, i)})"
    proof (cases "a = n")
      case False
      then have "map_ok wm \<and> 0 \<le> nx \<and> map_find sid' kc = Some a \<and> nr = int (card {w. \<exists>i. W w = Some (a, i)})"
        using h shapeD(4) [OF sh] by simp
      moreover from this have "sid' \<noteq> sid" using assms(3) by auto
      ultimately show ?thesis by (simp add: kc)
    qed (use h none kc [of sid] in auto)
    fix i w
    assume f: "map_find i wm = Some w"
    then show "0 \<le> i \<and> i < nx \<and> w < Suc n"
      using h shapeD(5) [OF sh, of a sid' wm nx nr i w] by (cases "a = n") auto
    fix b j
    assume "W w = Some (b, j)"
    then show "b = a \<and> j = i"
      using h f shapeD(6) [OF sh, of a sid' wm nx nr i w b j] by (cases "a = n") auto
  next
    fix w x assume "W w = Some x"
    then show "w < Suc n" using shapeD(1) [OF sh] less_SucI by blast
  next
    fix a y assume "(H(n := Some (sid, [], 0, 0))) a = Some y"
    then show "a < Suc n" using shapeD(2) [OF sh, of a y] by (cases "a = n") auto
  qed
qed

section \<open>The invariant\<close>

lemma finite_owned: "finite {w. \<exists>i. wview S w = Some (a, i)}"
proof -
  have "{w. \<exists>i. wview S w = Some (a, i)} \<subseteq> fst ` set (cl_workers S)"
    by (force simp: wview_def hget_def dest: map_of_SomeD)
  then show ?thesis by (rule finite_subset) simp
qed

lemma wview_live: "wview S w \<noteq> None \<longleftrightarrow> live (cl_workers S) w"
  by (simp add: wview_def live_def)

lemma live_fst: "live h a \<longleftrightarrow> a \<in> fst ` set h"
  by (simp add: live_def hget_def map_of_eq_None_iff)

lemma shape_add_cworker:
  assumes "client_shape S"
  shows "client_shape (add_cworker J a S)"
proof (cases "hget (cl_shares S) a")
  case None
  then show ?thesis using assms by (simp add: add_cworker_def)
next
  case (Some s)
  let ?w = "cl_next S" and ?S = "add_cworker J a S"
  have sh: "cshape ?w (kc_shares S) (wview S) (sview S)" using assms by (simp add: client_shape_def)
  have a: "sview S a = Some (cs_id s, cs_workers s, cs_next_id s, cs_nr s)" using Some by (simp add: sview_def)
  have ids: "cw_share (cworker_run J (cworker_new a (cs_id s) (cs_next_id s))) = a \<and>
      cw_id (cworker_run J (cworker_new a (cs_id s) (cs_next_id s))) = cs_next_id s"
    by (simp add: cworker_run_def cworker_new_def)
  have w: "wview ?S = (wview S)(?w := Some (a, cs_next_id s))"
    using ids by (auto simp: wview_def add_cworker_def Some Let_def upd_cshare_def)
  have h: "sview ?S = (sview S)(a := Some (cs_id s, map_emplace (cs_next_id s) ?w (cs_workers s), cs_next_id s + 1, cs_nr s + 1))"
    using Some by (auto simp: sview_def add_cworker_def Let_def upd_cshare_def)
  have "?w \<notin> fst ` set (cl_workers S)"
    using shape_fresh(1) [OF sh] by (metis live_fst wview_live)
  then show ?thesis
    using assms shape_new_worker [OF sh a finite_owned] w h
    by (simp add: client_shape_def add_cworker_def Some Let_def upd_cshare_def hnew_def)
qed

lemma shape_cleanup:
  assumes "client_shape S"
  shows "client_shape (cleanup_cworkers a S)"
proof (cases "hget (cl_shares S) a")
  case None
  then have "upd_cshare a f S = S" for f by (simp add: upd_cshare_def hupd_absent)
  then show ?thesis using assms by (simp add: cleanup_cworkers_def)
next
  case (Some s)
  have sh: "cshape (cl_next S) (kc_shares S) (wview S) (sview S)" using assms by (simp add: client_shape_def)
  have a: "sview S a = Some (cs_id s, cs_workers s, cs_next_id s, cs_nr s)" using Some by (simp add: sview_def)
  have h: "sview (cleanup_cworkers a S) = (sview S)(a := Some (cs_id s,
      map_erase_if (\<lambda>w. \<not> live (cl_workers S) w) (cs_workers s), cs_next_id s, cs_nr s))"
    using Some by (auto simp: sview_def cleanup_cworkers_def upd_cshare_def)
  have w: "wview (cleanup_cworkers a S) = wview S"
    by (simp add: wview_def [abs_def] cleanup_cworkers_def upd_cshare_def)
  show ?thesis
    using assms shape_erase [OF sh a, of "\<lambda>w. \<not> live (cl_workers S) w"] wview_live h w
    by (simp add: client_shape_def cleanup_cworkers_def upd_cshare_def)
qed

lemma length_filter_card:
  assumes "distinct (map fst h)"
  shows "length (filter P h) = card {a. \<exists>x. hget h a = Some x \<and> P (a, x)}"
proof -
  have "length (filter P h) = card (fst ` set (filter P h))"
    using assms by (metis distinct_card distinct_map_filter length_map list.set_map)
  also have "fst ` set (filter P h) = {a. \<exists>x. hget h a = Some x \<and> P (a, x)}"
    using assms by (force simp: hget_def)
  finally show ?thesis .
qed

lemma shape_collect_cworkers:
  assumes "client_shape S"
  shows "client_shape (collect_cworkers S)"
proof -
  let ?S = "collect_cworkers S"
  define K where "K w \<longleftrightarrow> (case hget (cl_workers S) w of Some wk \<Rightarrow> cworker_held wk | None \<Rightarrow> False)" for w
  define dead where "dead = filter (\<lambda>(w, wk). \<not> cworker_held wk) (cl_workers S)"
  have sh: "cshape (cl_next S) (kc_shares S) (wview S) (sview S)"
    and d: "distinct (map fst (cl_workers S))" "distinct (map fst (cl_shares S))"
    using assms by (auto simp: client_shape_def)
  have card: "length (filter (\<lambda>(w, wk). cw_share wk = a) dead) =
      card {w. \<not> K w \<and> (\<exists>i. wview S w = Some (a, i))}" for a
  proof -
    have "filter (\<lambda>(w, wk). cw_share wk = a) dead =
        filter (\<lambda>(w, wk). \<not> cworker_held wk \<and> cw_share wk = a) (cl_workers S)"
      unfolding dead_def filter_filter by (rule filter_cong) auto
    then have "length (filter (\<lambda>(w, wk). cw_share wk = a) dead) =
        card {w. \<exists>wk. hget (cl_workers S) w = Some wk \<and> \<not> cworker_held wk \<and> cw_share wk = a}"
      using length_filter_card [OF d(1), of "\<lambda>(w, wk). \<not> cworker_held wk \<and> cw_share wk = a"] by simp
    also have "{w. \<exists>wk. hget (cl_workers S) w = Some wk \<and> \<not> cworker_held wk \<and> cw_share wk = a} =
        {w. \<not> K w \<and> (\<exists>i. wview S w = Some (a, i))}"
      by (auto simp: K_def wview_def split: option.splits)
    finally show ?thesis .
  qed
  have S: "?S = S\<lparr>cl_workers := hkeep (\<lambda>w. cworker_held) (cl_workers S),
      cl_shares := map (\<lambda>(a, s). (a, s\<lparr>cs_nr := cs_nr s - int (length (filter (\<lambda>(w, wk). cw_share wk = a) dead))\<rparr>)) (cl_shares S)\<rparr>"
    by (simp add: collect_cworkers_def dead_def)
  have "cshape (cl_next S) (kc_shares S) (wview ?S) (sview ?S)"
  proof (rule shape_drop_workers [OF sh finite_owned])
    show "wview ?S w = (if K w then wview S w else None)" for w
      by (auto simp: S wview_def hget_keep K_def split: option.split)
    show "sview ?S a = map_option (\<lambda>(sid, wm, nx, nr).
        (sid, wm, nx, nr - int (card {w. \<not> K w \<and> (\<exists>i. wview S w = Some (a, i))}))) (sview S a)" for a
      by (cases "hget (cl_shares S) a")
        (simp_all add: S sview_def card hget_map_val
          [of "\<lambda>a s. s\<lparr>cs_nr := cs_nr s - int (card {w. \<not> K w \<and> (\<exists>i. wview S w = Some (a, i))})\<rparr>"])
  qed
  then show ?thesis
    using d by (simp add: client_shape_def S distinct_hkeep case_prod_beta comp_def)
qed

lemma shape_collect_cshares:
  assumes "client_shape S"
  shows "client_shape (collect_cshares S)"
proof -
  have sh: "cshape (cl_next S) (kc_shares S) (wview S) (sview S)"
    and d: "distinct (map fst (cl_workers S))" "distinct (map fst (cl_shares S))"
    using assms by (auto simp: client_shape_def)
  have w: "wview (collect_cshares S) = wview S" by (simp add: wview_def [abs_def] collect_cshares_def)
  have "cshape (cl_next S) (kc_shares S) (wview S) (sview (collect_cshares S))"
  proof (rule shape_drop_shares [OF sh])
    fix w a i assume "wview S w = Some (a, i)"
    then have "list_ex (\<lambda>(w, wk). cw_share wk = a) (cl_workers S)"
      by (auto simp: wview_def list_ex_iff dest!: hget_set)
    then have "cshare_held S a s" for s by (simp add: cshare_held_def)
    then show "sview (collect_cshares S) a = sview S a"
      by (simp add: sview_def collect_cshares_def hget_keep split: option.split)
  next
    show "sview (collect_cshares S) a = sview S a \<or> sview (collect_cshares S) a = None" for a
      by (simp add: sview_def collect_cshares_def hget_keep split: option.split)
  qed
  then show ?thesis using d w by (simp add: client_shape_def collect_cshares_def distinct_hkeep)
qed

lemma shape_ccollect: "client_shape S \<Longrightarrow> client_shape (ccollect S)"
  by (simp add: ccollect_def shape_collect_cworkers shape_collect_cshares)

lemma shape_add_ctcp_share:
  assumes "client_shape S" "map_ok (kc_shares S)" "map_find sid (kc_shares S) = None"
  shows "client_shape (add_ctcp_share sid port S)"
proof -
  let ?a = "cl_next S" and ?S = "add_ctcp_share sid port S"
  have sh: "cshape ?a (kc_shares S) (wview S) (sview S)" using assms(1) by (simp add: client_shape_def)
  have w: "wview ?S = wview S" by (simp add: wview_def [abs_def] add_ctcp_share_def Let_def)
  have h: "sview ?S = (sview S)(?a := Some (sid, [], 0, 0))"
    by (auto simp: sview_def add_ctcp_share_def Let_def cshare_new_def)
  have "sview S ?a = None" by (rule shape_fresh(2) [OF sh])
  then have "?a \<notin> fst ` set (cl_shares S)" by (simp add: sview_def hget_def map_of_eq_None_iff)
  then show ?thesis
    using assms(1) shape_new_share [OF sh assms(2,3), simplified] w h
    by (simp add: client_shape_def add_ctcp_share_def Let_def hnew_def)
qed

end
