(* ===== verification/Client_Steps.thy ===== *)
theory Client_Steps
  imports Client_Inv
begin

text \<open>
  What a stop of the client reaches, and the invariant of the client over all its steps: the
  bookkeeping of \<open>Client_Inv\<close>, the invariant of each worker, and that a client that stops
  has closed every share.
\<close>

section \<open>The flags of workers and shares\<close>

definition worker_ok :: "client \<Rightarrow> bool" where
  [zrp_inv]: "worker_ok S \<longleftrightarrow> (\<forall>w wk. hget (cl_workers S) w = Some wk \<longrightarrow> cworker_inv wk)"

definition share_ok :: "client \<Rightarrow> bool" where
  [zrp_inv]: "share_ok S \<longleftrightarrow> (\<forall>a s. hget (cl_shares S) a = Some s \<longrightarrow>
    (cs_closing s \<longleftrightarrow> wq_closed (cs_wq s)) \<and> (kc_stopping S \<longrightarrow> cs_closing s))"

lemma worker_ok_cong: "cl_workers S' = cl_workers S \<Longrightarrow> worker_ok S' = worker_ok S"
  by (simp add: worker_ok_def)

lemma share_ok_cong: "cl_shares S' = cl_shares S \<Longrightarrow> kc_stopping S' = kc_stopping S \<Longrightarrow> share_ok S' = share_ok S"
  by (simp add: share_ok_def)

lemma worker_ok_upd:
  "worker_ok S \<Longrightarrow> (\<And>wk. hget (cl_workers S) w = Some wk \<Longrightarrow> cworker_inv (f wk)) \<Longrightarrow> worker_ok (upd_cworker w f S)"
  unfolding worker_ok_def upd_cworker_def by (auto split: if_splits)

lemma share_ok_upd:
  assumes "share_ok S" "\<And>s. cs_closing (f s) = cs_closing s \<and> wq_closed (cs_wq (f s)) = wq_closed (cs_wq s)"
  shows "share_ok (upd_cshare a f S)"
  using assms unfolding share_ok_def upd_cshare_def by (auto split: if_splits)

lemma upd_sel [simp]:
  "cl_workers (upd_cshare a f S) = cl_workers S" "kc_stopping (upd_cshare a f S) = kc_stopping S"
  "kc_shares (upd_cshare a f S) = kc_shares S" "kc_main (upd_cshare a f S) = kc_main S"
  "cl_shares (upd_cworker w g S) = cl_shares S" "kc_stopping (upd_cworker w g S) = kc_stopping S"
  "kc_shares (upd_cworker w g S) = kc_shares S" "kc_main (upd_cworker w g S) = kc_main S"
  "cl_shares (upd_cshare a f S) = hupd a f (cl_shares S)"
  "cl_workers (upd_cworker w g S) = hupd w g (cl_workers S)"
  by (simp_all add: upd_cshare_def upd_cworker_def)

section \<open>What a stop reaches\<close>

text \<open>Stopping the workers of a list: every live one of them is stopped, the others keep.\<close>

definition stopped :: "cworker \<Rightarrow> bool" where
  "stopped wk \<longleftrightarrow> cw_stopping wk \<and> cw_sock wk \<noteq> sock_open"

lemma stopped_try_stop [simp]: "stopped (cworker_try_stop wk)"
  by (simp add: stopped_def cworker_ops)

lemma stop_cworkers_Cons:
  "stop_cworkers ((i, w) # ws) S =
    stop_cworkers ws (if live (cl_workers S) w then upd_cworker w cworker_try_stop S else S)"
  by (simp add: stop_cworkers_def)

lemma stop_cworkers_keeps [simp]:
  "cl_shares (stop_cworkers ws S) = cl_shares S" "kc_stopping (stop_cworkers ws S) = kc_stopping S"
  "kc_shares (stop_cworkers ws S) = kc_shares S" "live (cl_workers (stop_cworkers ws S)) w = live (cl_workers S) w"
proof (induction ws arbitrary: S)
  case (Cons p ws)
  { case 1 then show ?case by (cases p) (simp add: stop_cworkers_Cons Cons.IH) }
  { case 2 then show ?case by (cases p) (simp add: stop_cworkers_Cons Cons.IH) }
  { case 3 then show ?case by (cases p) (simp add: stop_cworkers_Cons Cons.IH) }
  { case 4 then show ?case by (cases p) (simp add: stop_cworkers_Cons Cons.IH) }
qed (simp_all add: stop_cworkers_def)

lemma stop_cworkers_kept:
  "hget (cl_workers S) w = Some wk \<Longrightarrow> stopped wk \<Longrightarrow> \<exists>wk'. hget (cl_workers (stop_cworkers ws S)) w = Some wk' \<and> stopped wk'"
proof (induction ws arbitrary: S wk)
  case (Cons p ws)
  obtain i v where p: "p = (i, v)" by fastforce
  have "\<exists>wk'. hget (cl_workers (if live (cl_workers S) v then upd_cworker v cworker_try_stop S else S)) w = Some wk' \<and> stopped wk'"
    using Cons.prems by auto
  then show ?case using Cons.IH by (auto simp: p stop_cworkers_Cons)
qed (simp add: stop_cworkers_def)

lemma stop_cworkers_reached:
  "w \<in> snd ` set ws \<Longrightarrow> hget (cl_workers S) w = Some wk \<Longrightarrow>
    \<exists>wk'. hget (cl_workers (stop_cworkers ws S)) w = Some wk' \<and> stopped wk'"
proof (induction ws arbitrary: S wk)
  case (Cons p ws)
  obtain i v where p: "p = (i, v)" by fastforce
  let ?S = "if live (cl_workers S) v then upd_cworker v cworker_try_stop S else S"
  show ?case
  proof (cases "v = w")
    case True
    then have "hget (cl_workers ?S) w = Some (cworker_try_stop wk)" using Cons.prems(2) by (simp add: hget_live)
    then show ?thesis using stop_cworkers_kept by (simp add: p stop_cworkers_Cons)
  next
    case False
    then have "hget (cl_workers ?S) w = Some wk" "w \<in> snd ` set ws" using Cons.prems p by auto
    then show ?thesis using Cons.IH by (simp add: p stop_cworkers_Cons)
  qed
qed simp

lemma stop_cworkers_ok: "worker_ok S \<Longrightarrow> worker_ok (stop_cworkers ws S)"
proof (induction ws arbitrary: S)
  case (Cons p ws)
  have "worker_ok (if live (cl_workers S) (snd p) then upd_cworker (snd p) cworker_try_stop S else S)"
    using Cons.prems by (auto intro!: worker_ok_upd cworker_stop_inv simp: worker_ok_def)
  then show ?case using Cons.IH by (cases p) (auto simp: stop_cworkers_Cons split: if_splits)
qed (simp add: stop_cworkers_def)

text \<open>Stopping one share.\<close>

lemma cshare_close_sel [simp]:
  "cs_closing (cshare_close s)" "wq_closed (cs_wq (cshare_close s))" "cs_workers (cshare_close s) = cs_workers s"
  by (simp_all add: cshare_close_def cshare_post_def Let_def)

definition closed_share :: "cshare \<Rightarrow> bool" where
  "closed_share s \<longleftrightarrow> cs_closing s \<and> wq_closed (cs_wq s)"

lemma cshare_try_stop_keeps [simp]:
  "kc_stopping (cshare_try_stop a S) = kc_stopping S" "kc_shares (cshare_try_stop a S) = kc_shares S"
  "live (cl_workers (cshare_try_stop a S)) w = live (cl_workers S) w"
  "live (cl_shares (cshare_try_stop a S)) b = live (cl_shares S) b"
  by (simp_all add: cshare_try_stop_def split: option.split)

lemma cshare_try_stop_shares:
  "hget (cl_shares (cshare_try_stop a S)) b = (if b = a then map_option cshare_close (hget (cl_shares S) a) else hget (cl_shares S) b)"
  by (auto simp: cshare_try_stop_def split: option.split)

lemma cshare_try_stop_ok: "worker_ok S \<Longrightarrow> worker_ok (cshare_try_stop a S)"
  by (auto simp: cshare_try_stop_def intro!: stop_cworkers_ok split: option.split) (simp add: worker_ok_def)

lemma cshare_try_stop_kept:
  assumes "hget (cl_workers S) w = Some wk" "stopped wk"
  shows "\<exists>wk'. hget (cl_workers (cshare_try_stop a S)) w = Some wk' \<and> stopped wk'"
proof (cases "hget (cl_shares S) a")
  case (Some s)
  have "hget (cl_workers (upd_cshare a cshare_close S)) w = Some wk" using assms by simp
  then show ?thesis using stop_cworkers_kept assms(2) by (simp add: cshare_try_stop_def Some)
qed (use assms in \<open>simp add: cshare_try_stop_def\<close>)

lemma cshare_try_stop_reached:
  assumes "hget (cl_shares S) a = Some s" "w \<in> snd ` set (cs_workers s)" "hget (cl_workers S) w = Some wk"
  shows "\<exists>wk'. hget (cl_workers (cshare_try_stop a S)) w = Some wk' \<and> stopped wk'"
  using assms stop_cworkers_reached [OF assms(2), of "upd_cshare a cshare_close S" wk] by (simp add: cshare_try_stop_def)

text \<open>Stopping the shares of a list.\<close>

definition stop_cshares :: "(string, nat) smap \<Rightarrow> client \<Rightarrow> client" where
  "stop_cshares xs S = fold (\<lambda>(i, a) S. if live (cl_shares S) a then cshare_try_stop a S else S) xs S"

lemma stop_cshares_Cons:
  "stop_cshares ((i, a) # xs) S = stop_cshares xs (if live (cl_shares S) a then cshare_try_stop a S else S)"
  by (simp add: stop_cshares_def)

lemma cctrl_try_stop_eq:
  "cctrl_try_stop S =
    (stop_cshares (kc_shares S) (S\<lparr>kc_stopping := True, kc_sock := sock_closed\<rparr>))\<lparr>kc_ping_cancelled := True\<rparr>"
  by (simp add: cctrl_try_stop_def stop_cshares_def)

lemma stop_cshares_induct:
  assumes "\<And>S a. live (cl_shares S) a \<Longrightarrow> P S \<Longrightarrow> P (cshare_try_stop a S)"
  shows "P S \<Longrightarrow> P (stop_cshares xs S)"
proof (induction xs arbitrary: S)
  case (Cons p xs)
  then show ?case using assms by (cases p) (auto simp: stop_cshares_Cons)
qed (simp add: stop_cshares_def)

lemma stop_cshares_stopping [simp]: "kc_stopping (stop_cshares xs S) = kc_stopping S"
  by (rule stop_cshares_induct [where P = "\<lambda>T. kc_stopping T = kc_stopping S"]) simp_all

lemma stop_cshares_ok: "worker_ok S \<Longrightarrow> worker_ok (stop_cshares xs S)"
  by (rule stop_cshares_induct [where P = worker_ok]) (simp_all add: cshare_try_stop_ok)

lemma stop_cshares_kept_worker:
  "\<exists>wk. hget (cl_workers S) w = Some wk \<and> stopped wk \<Longrightarrow> \<exists>wk. hget (cl_workers (stop_cshares xs S)) w = Some wk \<and> stopped wk"
  by (rule stop_cshares_induct [where P = "\<lambda>S. \<exists>wk. hget (cl_workers S) w = Some wk \<and> stopped wk"])
    (auto dest: cshare_try_stop_kept)

lemma stop_cshares_kept_share:
  "\<exists>s. hget (cl_shares S) a = Some s \<and> closed_share s \<Longrightarrow> \<exists>s. hget (cl_shares (stop_cshares xs S)) a = Some s \<and> closed_share s"
  by (rule stop_cshares_induct [where P = "\<lambda>S. \<exists>s. hget (cl_shares S) a = Some s \<and> closed_share s"])
    (auto simp: cshare_try_stop_shares closed_share_def)

lemma stop_cshares_reached_share:
  "a \<in> snd ` set xs \<Longrightarrow> live (cl_shares S) a \<Longrightarrow> \<exists>s. hget (cl_shares (stop_cshares xs S)) a = Some s \<and> closed_share s"
proof (induction xs arbitrary: S)
  case (Cons p xs)
  obtain i b where p: "p = (i, b)" by fastforce
  show ?case
  proof (cases "b = a")
    case True
    then have "\<exists>s. hget (cl_shares (cshare_try_stop b S)) a = Some s \<and> closed_share s"
      using Cons.prems(2) by (auto simp: cshare_try_stop_shares closed_share_def live_def)
    then show ?thesis using True Cons.prems(2) stop_cshares_kept_share by (simp add: p stop_cshares_Cons)
  next
    case False
    then show ?thesis using Cons by (simp add: p stop_cshares_Cons)
  qed
qed simp

lemma stop_cshares_reached_worker:
  assumes "hget (cl_shares S) a = Some s" "w \<in> snd ` set (cs_workers s)" "hget (cl_workers S) w = Some wk" "a \<in> snd ` set xs"
  shows "\<exists>wk'. hget (cl_workers (stop_cshares xs S)) w = Some wk' \<and> stopped wk'"
  using assms
proof (induction xs arbitrary: S s wk)
  case (Cons p xs)
  obtain i b where p: "p = (i, b)" by fastforce
  show ?case
  proof (cases "b = a")
    case True
    then have "\<exists>wk'. hget (cl_workers (cshare_try_stop b S)) w = Some wk' \<and> stopped wk'"
      using Cons.prems cshare_try_stop_reached by blast
    then show ?thesis
      using True Cons.prems(1) stop_cshares_kept_worker by (simp add: p stop_cshares_Cons hget_live)
  next
    case False
    let ?S = "if live (cl_shares S) b then cshare_try_stop b S else S"
    have "hget (cl_shares ?S) a = Some s" using Cons.prems(1) False by (simp add: cshare_try_stop_shares)
    moreover have "live (cl_workers ?S) w" using Cons.prems(3) by (simp add: hget_live)
    then obtain wk' where "hget (cl_workers ?S) w = Some wk'" by (auto simp: live_def)
    moreover have "a \<in> snd ` set xs" using Cons.prems(4) False p by simp
    ultimately show ?thesis using Cons.IH Cons.prems(2) by (simp add: p stop_cshares_Cons)
  qed
qed simp

lemma stop_cshares_dom:
  "live (cl_shares (stop_cshares xs S)) a = live (cl_shares S) a" "live (cl_workers (stop_cshares xs S)) w = live (cl_workers S) w"
  by (rule stop_cshares_induct [where P = "\<lambda>T. live (cl_shares T) a = live (cl_shares S) a"], simp_all)
    (rule stop_cshares_induct [where P = "\<lambda>T. live (cl_workers T) w = live (cl_workers S) w"], simp_all)

lemma shape_registered:
  assumes "client_shape S" "hget (cl_shares S) a = Some s"
  shows "a \<in> snd ` set (kc_shares S)"
proof -
  have "map_find (cs_id s) (kc_shares S) = Some a"
    using assms shapeD(4) [of "cl_next S" "kc_shares S" "wview S" "sview S" a]
    by (simp add: client_shape_def sview_def)
  then show ?thesis by (force dest: map_find_set)
qed

lemma shape_listed:
  assumes "client_shape S" "hget (cl_workers S) w = Some wk"
  shows "\<exists>s. hget (cl_shares S) (cw_share wk) = Some s \<and> map_find (cw_id wk) (cs_workers s) = Some w"
  using assms shapeD(3) [of "cl_next S" "kc_shares S" "wview S" "sview S" w "cw_share wk" "cw_id wk"]
  by (auto simp: client_shape_def wview_def sview_def)

lemma stop_reaches:
  assumes "client_shape S"
  shows "hget (cl_shares (cctrl_try_stop S)) a = Some s \<Longrightarrow> closed_share s"
    and "hget (cl_workers (cctrl_try_stop S)) w = Some wk \<Longrightarrow> stopped wk"
proof -
  let ?S = "S\<lparr>kc_stopping := True, kc_sock := sock_closed\<rparr>"
  {
    assume h: "hget (cl_shares (cctrl_try_stop S)) a = Some s"
    then have l: "live (cl_shares S) a" using stop_cshares_dom(1) [of "kc_shares S" ?S a]
      by (simp add: cctrl_try_stop_eq live_def)
    then have "a \<in> snd ` set (kc_shares S)" using shape_registered [OF assms] by (auto simp: live_def)
    then show "closed_share s" using stop_cshares_reached_share [of a "kc_shares S" ?S] l h
      by (auto simp: cctrl_try_stop_eq)
  }
  {
    assume h: "hget (cl_workers (cctrl_try_stop S)) w = Some wk"
    then have "live (cl_workers S) w" using stop_cshares_dom(2) [of "kc_shares S" ?S w]
      by (simp add: cctrl_try_stop_eq live_def)
    then obtain wk0 where w: "hget (cl_workers S) w = Some wk0" by (auto simp: live_def)
    then obtain s0 where s: "hget (cl_shares S) (cw_share wk0) = Some s0" "w \<in> snd ` set (cs_workers s0)"
      using shape_listed [OF assms] by (force dest: map_find_set)
    then show "stopped wk"
      using stop_cshares_reached_worker [of ?S "cw_share wk0" s0 w wk0 "kc_shares S"] w h shape_registered [OF assms s(1)]
      by (auto simp: cctrl_try_stop_eq)
  }
qed

section \<open>The invariant\<close>

definition client_inv :: "client \<Rightarrow> bool" where
  [zrp_inv]: "client_inv S \<longleftrightarrow> client_shape S \<and> worker_ok S \<and> share_ok S"

lemmas shape_sel [simp] = skeleton_sel [THEN skeleton_shape]
lemmas shape_stop [simp] = skeleton_cctrl_stop [THEN skeleton_shape]

lemma inv_sel [simp]:
  "client_inv (S\<lparr>kc_sock := x1\<rparr>) = client_inv S" "client_inv (S\<lparr>kc_hello := x2\<rparr>) = client_inv S"
  "client_inv (S\<lparr>kc_ping := x4\<rparr>) = client_inv S" "client_inv (S\<lparr>kc_ping_cancelled := y4\<rparr>) = client_inv S"
  "client_inv (S\<lparr>kc_main := x5\<rparr>) = client_inv S" "client_inv (S\<lparr>kc_ping_pc := x6\<rparr>) = client_inv S"
  "client_inv (S\<lparr>kc_sent := x7\<rparr>) = client_inv S" "client_inv (S\<lparr>cl_exit_code := x8\<rparr>) = client_inv S"
  by (simp_all add: client_inv_def worker_ok_def share_ok_def)

lemma inv_upd_worker:
  assumes "client_inv S"
    and "\<And>wk. hget (cl_workers S) w = Some wk \<Longrightarrow> cworker_inv wk \<Longrightarrow>
      cworker_inv (f wk) \<and> cw_share (f wk) = cw_share wk \<and> cw_id (f wk) = cw_id wk"
  shows "client_inv (upd_cworker w f S)"
proof -
  have f: "cworker_inv (f wk) \<and> cw_share (f wk) = cw_share wk \<and> cw_id (f wk) = cw_id wk"
    if "hget (cl_workers S) w = Some wk" for wk
    using assms that by (auto simp: client_inv_def worker_ok_def)
  then have "skeleton (upd_cworker w f S) = skeleton S" by (intro skeleton_upd_cworker) simp
  from skeleton_shape [OF this] have "client_shape (upd_cworker w f S)"
    using assms(1) by (simp add: client_inv_def)
  moreover have "worker_ok (upd_cworker w f S)"
    using assms(1) f by (intro worker_ok_upd) (auto simp: client_inv_def)
  moreover have "share_ok (upd_cworker w f S)"
    using assms(1) share_ok_cong [of "upd_cworker w f S" S] by (simp add: client_inv_def)
  ultimately show ?thesis by (simp add: client_inv_def)
qed

definition share_neutral :: "(cshare \<Rightarrow> cshare) \<Rightarrow> bool" where
  "share_neutral f \<longleftrightarrow> (\<forall>s. cs_id (f s) = cs_id s \<and> cs_workers (f s) = cs_workers s \<and>
    cs_next_id (f s) = cs_next_id s \<and> cs_nr (f s) = cs_nr s \<and> cs_closing (f s) = cs_closing s \<and>
    wq_closed (cs_wq (f s)) = wq_closed (cs_wq s))"

lemma inv_upd_share:
  assumes "client_inv S" "share_neutral f"
  shows "client_inv (upd_cshare a f S)"
proof -
  have "skeleton (upd_cshare a f S) = skeleton S"
    using assms(2) by (intro skeleton_upd_cshare) (simp add: share_neutral_def)
  from skeleton_shape [OF this] have "client_shape (upd_cshare a f S)"
    using assms(1) by (simp add: client_inv_def)
  moreover have "share_ok (upd_cshare a f S)"
    using assms by (intro share_ok_upd) (auto simp: client_inv_def share_neutral_def)
  moreover have "worker_ok (upd_cshare a f S)"
    using assms(1) worker_ok_cong [of "upd_cshare a f S" S] by (simp add: client_inv_def)
  ultimately show ?thesis by (simp add: client_inv_def)
qed

lemma share_neutralI [intro!]:
  "share_neutral (cshare_post t)" "share_neutral crun_forwarder" "share_neutral (cforward r)"
  "share_neutral (\<lambda>s. s\<lparr>cs_adders := g s\<rparr>)" "share_neutral (\<lambda>s. s\<lparr>cs_ready := g1 s\<rparr>)"
  "share_neutral (\<lambda>s. s\<lparr>cs_fwd := x\<rparr>)" "share_neutral (\<lambda>s. s\<lparr>cs_fwd := x1, cs_fwd_stops := n s\<rparr>)"
  "share_neutral (\<lambda>s. s\<lparr>cs_fwd_exn := y\<rparr>)"
  "share_neutral (\<lambda>s. cforward r1 (chk_need_workers cfg s))"
  by (auto simp: share_neutral_def cshare_post_def crun_forwarder_def cforward_def chk_need_workers_def Let_def
      split: sum.split)

lemma share_neutral_closure: "share_neutral (cshare_run_closure i)"
  unfolding share_neutral_def cshare_run_closure_def by (auto split: prod.split dest: run_task_closed)

lemma inv_stop:
  assumes "client_inv S"
  shows "client_inv (cctrl_try_stop S)"
proof -
  have sh: "client_shape S" "worker_ok (S\<lparr>kc_stopping := True, kc_sock := sock_closed\<rparr>)"
    using assms by (simp_all add: client_inv_def worker_ok_def)
  have "worker_ok (cctrl_try_stop S)"
    using stop_cshares_ok [OF sh(2)] by (simp add: cctrl_try_stop_eq worker_ok_def)
  moreover have "share_ok (cctrl_try_stop S)"
    using stop_reaches(1) [OF sh(1)] by (simp add: share_ok_def closed_share_def)
  ultimately show ?thesis using sh(1) by (simp add: client_inv_def)
qed

lemma inv_errors [intro]:
  assumes "client_inv S"
  shows "client_inv (cctrl_handle_error e S)" "client_inv (cctrl_failed e S)" "client_inv (cshare_handle_error e a S)"
  using assms by (auto simp: cctrl_handle_error_def cctrl_failed_def cshare_handle_error_def intro: inv_stop split: option.split)

lemma inv_cleanup [intro]: "client_inv S \<Longrightarrow> client_inv (cleanup_cworkers a S)"
  using shape_cleanup [of S a] share_ok_upd [of S] worker_ok_cong [of "cleanup_cworkers a S" S]
  by (simp add: client_inv_def cleanup_cworkers_def)

lemma inv_add [intro]:
  assumes "boost_json J" "client_inv S"
  shows "client_inv (add_cworker J a S)"
proof (cases "hget (cl_shares S) a")
  case (Some s)
  have "worker_ok (add_cworker J a S)"
    using assms cworker_inv_run [OF assms(1)] by (auto simp: add_cworker_def Some Let_def worker_ok_def client_inv_def)
  moreover have "share_ok (add_cworker J a S)"
    using assms Some by (auto simp: add_cworker_def Let_def share_ok_def client_inv_def upd_cshare_def)
  ultimately show ?thesis using assms shape_add_cworker by (simp add: client_inv_def)
qed (use assms in \<open>simp add: add_cworker_def\<close>)

lemma inv_adder [intro]:
  "client_inv S \<Longrightarrow> client_inv (drop_adder a i S)" "client_inv S \<Longrightarrow> client_inv (adder_loop a i k S)"
  by (auto simp: drop_adder_def set_adder_def adder_loop_def intro!: inv_upd_share)

lemma inv_adder_step: "boost_json J \<Longrightarrow> client_inv S \<Longrightarrow> client_inv (adder_step J cfg r a s i S)"
  by (auto simp: adder_step_def split: adder.split sum.split)

lemma inv_cctrl_loop [simp]: "client_inv (cctrl_loop now S) = client_inv S"
  by (simp add: cctrl_loop_def)

lemma inv_cctrl_add [intro]: "client_inv S \<Longrightarrow> client_inv (cctrl_add cfg now as S)"
  by (induction cfg now as S rule: cctrl_add.induct) (auto simp: Let_def)

lemma inv_collect: "client_inv S \<Longrightarrow> client_inv (ccollect S)"
proof -
  assume S: "client_inv S"
  have "worker_ok (ccollect S)"
    using S by (auto simp: client_inv_def worker_ok_def ccollect_def collect_cshares_def collect_cworkers_def Let_def
        hget_keep split: option.splits if_splits)
  moreover have "share_ok (ccollect S)"
    using S by (auto simp: client_inv_def share_ok_def ccollect_def collect_cshares_def collect_cworkers_def Let_def
        hget_keep hget_map_val [of "\<lambda>a s. s\<lparr>cs_nr := n a s\<rparr>" for n] split: option.splits if_splits)
  ultimately show ?thesis using S shape_ccollect by (simp add: client_inv_def)
qed

section \<open>Every step keeps it\<close>

lemma inv_resume_provide:
  "client_inv S \<Longrightarrow> client_inv (upd_cworker w (resume_provide now r) S)"
  by (rule inv_upd_worker)
    (auto simp: resume_provide_def cworker_on_provided_def cworker_failed_inv cworker_loop_inv split: sum.split)

lemma inv_resume: "client_inv S \<Longrightarrow> client_inv (cshare_resume cfg now c a S)"
  by (cases "(cfg, now, c, a, S)" rule: cshare_resume.cases) (auto simp: inv_resume_provide intro!: inv_upd_share)

lemma inv_worker_step:
  assumes "boost_json J" "client_inv S" "hget (cl_workers S) w = Some wk" "cworker_act_step J now w ev wk S = Some S'"
  shows "client_inv S'"
proof -
  obtain wk' where st: "cworker_step J now ev wk = Some wk'" and
    S': "S' = (if ev = cwe_confirmed (Inr ())
      then upd_cshare (cw_share wk) (cshare_post (provide_task (g_conn w) (w, cw_sock wk = sock_open))) (upd_cworker w (\<lambda>_. wk') S)
      else upd_cworker w (\<lambda>_. wk') S)"
    using assms(4) by (auto simp: cworker_act_step_def Let_def)
  have "client_inv (upd_cworker w (\<lambda>_. wk') S)"
    using assms cworker_step_inv [OF assms(1) _ st] cworker_ids_step [OF st] by (intro inv_upd_worker) auto
  then show ?thesis unfolding S' by (auto intro!: inv_upd_share)
qed

lemma inv_timer [intro]:
  "client_inv S \<Longrightarrow> client_inv (cctrl_on_timer J now r S)" "client_inv S \<Longrightarrow> client_inv (cctrl_on_ping_written r S)"
  by (auto simp: cctrl_on_timer_def cctrl_ping_check_def cctrl_on_ping_written_def Let_def
      split: sum.split option.split)

lemma client_act_inv:
  assumes J: "boost_json J" and S: "client_inv S" and act: "client_act J cfg now ev S = Some S'"
  shows "client_inv S'"
proof (cases ev)
  case (kev_connected r)
  then show ?thesis using S act
    by (auto simp: cctrl_on_connected_def split: if_splits sum.splits)
next
  case (kev_hello_written r)
  then show ?thesis using S act by (auto simp: cctrl_on_hello_written_def split: if_splits sum.splits)
next
  case (kev_read r)
  then show ?thesis using S act by (auto simp: cctrl_on_read_def split: if_splits sum.splits)
next
  case (kev_worker_connected r)
  then show ?thesis using S act J
    by (auto simp: cctrl_on_worker_connected_def Let_def split: kc_pc.splits sum.splits if_splits)
next
  case (kev_timer r)
  then show ?thesis using S act by (auto split: if_splits)
next
  case (kev_ping_written r)
  then show ?thesis using S act by (auto split: if_splits)
next
  case (kev_worker w wev)
  then show ?thesis using S act inv_worker_step [OF J] by (auto split: option.splits if_splits)
next
  case (kev_adder a i r)
  then show ?thesis using S act inv_adder_step [OF J] by (auto split: option.splits if_splits)
next
  case (kev_fwd_start a)
  then show ?thesis using S act by (auto intro!: inv_upd_share split: option.splits if_splits)
next
  case (kev_fwd a fev)
  then show ?thesis using S act by (auto intro!: inv_upd_share split: option.splits if_splits)
next
  case (kev_fwd_stop a)
  then show ?thesis using S act by (auto intro!: inv_upd_share split: option.splits if_splits)
next
  case (kev_fwd_end a)
  then show ?thesis using S act by (auto intro!: inv_upd_share split: option.splits if_splits)
next
  case (kev_closure a i)
  then show ?thesis using S act by (auto intro!: inv_upd_share share_neutral_closure split: option.splits if_splits)
next
  case (kev_resume a i)
  then show ?thesis using S act by (auto intro!: inv_upd_share inv_resume split: option.splits if_splits)
next
  case kev_stop
  then show ?thesis using S act by (auto intro: inv_stop split: if_splits)
qed

lemma client_step_inv: "boost_json J \<Longrightarrow> client_inv S \<Longrightarrow> client_step J cfg now ev S = Some S' \<Longrightarrow> client_inv S'"
  by (auto simp: client_step_def intro!: inv_collect intro: client_act_inv)

lemma client_steps_inv: "client_steps J cfg evs S = Some S' \<Longrightarrow> boost_json J \<Longrightarrow> client_inv S \<Longrightarrow> client_inv S'"
proof (induction evs arbitrary: S)
  case (Cons a evs)
  then show ?case by (cases a) (auto split: option.splits dest: client_step_inv)
qed simp

text \<open>The start: one share for each entry of the configuration.\<close>

lemma inv_new: "client_inv (client_new u)"
  by (simp add: client_inv_def client_new_def client_shape_def cshape_def wview_def sview_def worker_ok_def share_ok_def)

lemma add_ctcp_share_sel [simp]:
  "kc_shares (add_ctcp_share sid port S) = map_emplace sid (cl_next S) (kc_shares S)"
  "kc_stopping (add_ctcp_share sid port S) = kc_stopping S"
  by (simp_all add: add_ctcp_share_def Let_def)

lemma inv_add_share:
  assumes "client_inv S" "map_ok (kc_shares S)" "sid \<notin> fst ` set (kc_shares S)" "\<not> kc_stopping S"
  shows "client_inv (add_ctcp_share sid port S)"
proof -
  have "worker_ok (add_ctcp_share sid port S)" "share_ok (add_ctcp_share sid port S)"
    using assms(1,4) by (auto simp: client_inv_def worker_ok_def share_ok_def add_ctcp_share_def Let_def
        cshare_new_def wq_new_def)
  then show ?thesis using assms shape_add_ctcp_share [of S sid port] by (simp add: client_inv_def map_find_fst)
qed

lemma inv_init:
  assumes "map_ok (cc_tcp_shares cfg)"
  shows "client_inv (client_init cfg (client_new u))"
proof -
  have "client_inv S \<Longrightarrow> map_ok (kc_shares S) \<Longrightarrow> \<not> kc_stopping S \<Longrightarrow> distinct (map fst m) \<Longrightarrow>
      fst ` set m \<inter> fst ` set (kc_shares S) = {} \<Longrightarrow>
      client_inv (fold (\<lambda>(k, sh) S. add_ctcp_share k (sc_remote_port sh) S) m S)" for m S
  proof (induction m arbitrary: S)
    case (Cons p m)
    obtain k sh where p: "p = (k, sh)" by fastforce
    have new: "k \<notin> fst ` set (kc_shares S)" "k \<notin> fst ` set m" using Cons.prems(4,5) by (auto simp: p)
    then have "fst ` set m \<inter> fst ` set (kc_shares (add_ctcp_share k (sc_remote_port sh) S)) = {}"
      using Cons.prems(5) by (simp add: p)
    then show ?case using Cons.prems new by (simp add: p Cons.IH inv_add_share)
  qed simp
  from this [of "client_new u"] show ?thesis
    using inv_new map_ok_distinct [OF assms] by (simp add: client_init_def client_new_def)
qed

lemma client_start_inv: "map_ok (cc_tcp_shares cfg) \<Longrightarrow> client_inv (client_start cfg u)"
  using inv_init by (simp add: client_start_def client_run_def)

lemma client_reachable_inv:
  "boost_json J \<Longrightarrow> map_ok (cc_tcp_shares cfg) \<Longrightarrow> client_reachable J cfg S \<Longrightarrow> client_inv S"
  unfolding client_reachable_def using client_steps_inv client_start_inv by blast

end
