(* ===== verification/Client_Demo.thy ===== *)
theory Client_Demo
  imports Client_Steps
begin

text \<open>
  A concrete client with one share and one worker, which has greeted, and the runs from it on
  which the properties of \<open>Client_Props\<close> are exercised: a visit that is served, a visit that
  breaks on a ping, and a worker that ends by an error.
\<close>

definition demo_config :: client_config where
  "demo_config = \<lparr>cc_server_host = ''::1'', cc_server_port = 11433,
     cc_tcp_shares = [(''ssh'', \<lparr>sc_local_host = ''::1'', sc_local_port = 22, sc_remote_port = 9022\<rparr>)],
     cc_forwarder_threads = 1, cc_worker_count_initial = 1, cc_worker_count_low = 2, cc_worker_count_more = 2,
     cc_access_log = True, cc_rlimit_nofile = 0\<rparr>"

lemma demo_config_ok: "map_ok (cc_tcp_shares demo_config)"
  by (simp add: demo_config_def)

definition demo_greeting :: message where
  "demo_greeting = M_server_hello \<lparr>sh_version = 0, sh_welcome = ''hi''\<rparr>"

lemma unmarshal_greeting: "unmarshal_msg plain_json [T_server_hello] (msg_json demo_greeting) = Inr demo_greeting"
  by (simp add: unmarshal_msg_json demo_greeting_def)

lemma unmarshal_a_pong: "unmarshal_msg plain_json [T_pong] (msg_json M_pong) = Inr M_pong"
  by (simp add: unmarshal_msg_json)

lemmas client_eval = client_step_def ccollect_def collect_cworkers_def collect_cshares_def cworker_held_def
  cshare_held_def cfwd_alive_def hkeep_def hget_def hupd_def hnew_def live_def upd_cshare_def upd_cworker_def
  cworker_act_step_def own_cevent_def own_fevent_def crun_forwarder_def cshare_post_def cshare_run_closure_def
  run_wait_def run_provide_def run_close_def wq_new_def forwarder_new_def forwarder_run_def forwarder_try_stop_def
  forward_accepted_def forwarder_handle_error_def cforward_def chk_need_workers_def cleanup_cworkers_def
  add_cworker_def cshare_new_def cworker_new_def cworker_run_def hello_of_def worker_count_def drop_adder_def
  set_adder_def adder_loop_def adder_step_def resume_provide_def cctrl_loop_def cctrl_on_connected_def
  cctrl_on_hello_written_def cctrl_on_read_def cctrl_on_worker_connected_def cctrl_try_stop_def
  cctrl_handle_error_def cctrl_failed_def cshare_handle_error_def cshare_try_stop_def cshare_close_def
  stop_cworkers_def remove_nth_def

definition demo_start :: "(nat \<times> client_event) list" where
  "demo_start = [(0, kev_fwd_start 0), (0, kev_closure 0 0), (0, kev_connected (Inr ())),
     (0, kev_hello_written (Inr ())), (0, kev_read (Inr (msg_json demo_greeting))),
     (0, kev_worker_connected (Inr ())), (0, kev_worker 1 (cwe_hello_written (Inr ())))]"

definition demo_share :: cshare where
  "demo_share = \<lparr>cs_id = ''ssh'', cs_port = 9022, cs_wq = \<lparr>wq_q = [g_forward], wq_vq = [], wq_closed = False\<rparr>,
     cs_workers = [(0, 1)], cs_next_id = 1, cs_nr = 1, cs_closing = False,
     cs_fwd = Some (forwarder_run forwarder_new), cs_fwd_stops = 0, cs_fwd_exn = None, cs_adders = [],
     cs_posted = [], cs_ready = []\<rparr>"

definition demo_worker :: cworker where
  "demo_worker = \<lparr>cw_sock = sock_open, cw_share = 0, cw_share_id = ''ssh'', cw_id = 0, cw_visited = False,
     cw_stopping = False, cw_ping = Some 20, cw_ping_cancelled = True, cw_main = cm_reading,
     cw_ping_pc = pg_waiting, cw_cancelled = {},
     cw_trace = [a_send (M_worker_hello \<lparr>wh_tcp_share_id = ''ssh'', wh_worker_id = 0\<rparr>)]\<rparr>"

definition demo_hello :: client_hello where
  "demo_hello = \<lparr>ch_version = 0, ch_client_uuid = ''u'', ch_tcp_shares = [\<lparr>ts_id = ''ssh'', ts_port = 9022\<rparr>]\<rparr>"

definition demo_client :: client where
  "demo_client = \<lparr>kc_sock = sock_open, kc_shares = [(''ssh'', 0)], kc_hello = demo_hello, kc_stopping = False,
     kc_ping = Some 20, kc_ping_cancelled = True, kc_main = kc_reading, kc_ping_pc = pg_waiting, kc_sent = [M_client_hello demo_hello],
     cl_exit_code = 0, cl_shares = [(0, demo_share)], cl_workers = [(1, demo_worker)], cl_next = 2\<rparr>"

lemma demo_run: "client_steps plain_json demo_config demo_start (client_start demo_config ''u'') = Some demo_client"
  by (simp add: client_start_def client_init_def demo_config_def client_new_def add_ctcp_share_def client_run_def
      demo_start_def unmarshal_greeting cworker_eval client_eval demo_client_def demo_share_def demo_worker_def demo_hello_def)

lemmas demo_eval = demo_config_def demo_client_def demo_share_def demo_worker_def demo_hello_def
  unmarshal_a_visit [unfolded a_visit_def] unmarshal_a_pong a_visit_def cworker_eval client_eval

lemma client_steps_append:
  "client_steps J cfg (as @ bs) S = Option.bind (client_steps J cfg as S) (client_steps J cfg bs)"
  by (induction as arbitrary: S) (auto split: option.splits)

lemma client_reachable_steps:
  "client_reachable J cfg S \<Longrightarrow> client_steps J cfg evs S = Some S' \<Longrightarrow> client_reachable J cfg S'"
  unfolding client_reachable_def by (metis client_steps_append bind.bind_lunit)

lemma demo_reachable: "client_reachable plain_json demo_config demo_client"
  unfolding client_reachable_def using demo_run by blast

text \<open>The visit is served: the share has one worker less than it should, and a coroutine that will see to it.\<close>

definition demo_visit :: "(nat \<times> client_event) list" where
  "demo_visit = [(5, kev_worker 1 (cwe_read (Inr (msg_json a_visit)) (Inr ()))), (5, kev_worker 1 (cwe_confirmed (Inr ()))),
     (5, kev_closure 0 0), (5, kev_resume 0 0)]"

lemma demo_visited:
  "\<exists>S s. client_steps plain_json demo_config demo_visit demo_client = Some S \<and> hget (cl_shares S) 0 = Some s \<and>
    cs_adders s = [ad_chk] \<and> \<not> cs_closing s \<and> cs_nr s = 1 \<and> cs_next_id s = 1"
  by (simp add: demo_visit_def demo_eval)

text \<open>The visit breaks on a ping.\<close>

definition demo_break :: "(nat \<times> client_event) list" where
  "demo_break = [(20, kev_worker 1 (cwe_timer (Inr ()))), (21, kev_worker 1 (cwe_read (Inr (msg_json a_visit)) (Inr ()))),
     (21, kev_worker 1 (cwe_ping_written (Inl (system_error operation_aborted))))]"

lemma demo_broken:
  "\<exists>S wk s. client_steps plain_json demo_config demo_break demo_client = Some S \<and> hget (cl_workers S) 1 = Some wk \<and>
    cw_share wk = 0 \<and> cw_main wk = cm_confirming \<and> cw_sock wk = sock_closed \<and> hget (cl_shares S) 0 = Some s \<and>
    cs_posted s = [] \<and> cs_ready s = [] \<and> wq_q (cs_wq s) = [g_forward] \<and> \<not> wq_closed (cs_wq s) \<and> cs_fwd s \<noteq> None"
  by (simp add: demo_break_def demo_eval)

definition demo_throw :: "(nat \<times> client_event) list" where
  "demo_throw = demo_break @ [(21, kev_worker 1 (cwe_confirmed (Inr ()))), (21, kev_closure 0 0), (21, kev_resume 0 0)]"

lemma demo_thrown:
  "\<exists>S s S'. client_steps plain_json demo_config demo_throw demo_client = Some S \<and> hget (cl_shares S) 0 = Some s \<and>
    \<not> cs_closing s \<and> client_step plain_json demo_config 22 (kev_fwd_end 0) S = Some S'"
  by (simp add: demo_throw_def demo_break_def demo_eval)

text \<open>The worker ends by an error, and its other coroutine at the next end of its wait.\<close>

definition demo_loss :: "(nat \<times> client_event) list" where
  "demo_loss = [(7, kev_worker 1 (cwe_read (Inl (system_error (ec_other 104))) (Inr ()))), (20, kev_worker 1 (cwe_timer (Inr ())))]"

lemma demo_lost:
  "\<exists>S s. client_steps plain_json demo_config demo_loss demo_client = Some S \<and> hget (cl_shares S) 0 = Some s \<and>
    cl_workers S = [] \<and> cs_adders s = [] \<and> cs_wq s = \<lparr>wq_q = [g_forward], wq_vq = [], wq_closed = False\<rparr> \<and>
    cs_posted s = [] \<and> cs_ready s = [] \<and> kc_main S = kc_reading \<and>
    (\<exists>S'. client_steps plain_json demo_config [(21, kev_read (Inr (msg_json M_pong)))] S = Some S')"
  by (simp add: demo_loss_def demo_eval)

end
