(* ===== verification/Client_Props.thy ===== *)
theory Client_Props
  imports Client_Demo
begin

text \<open>
  The properties of the client's shares and controller: the workers are counted and listed
  exactly, a stop reaches everything, an error of a share stops the client, a low share is
  refilled by as many workers as configured, and a share without workers is not.
\<close>

section \<open>Between two events\<close>

text \<open>After each event only what is held is left.\<close>

definition settled :: "client \<Rightarrow> bool" where
  "settled S \<longleftrightarrow> (\<forall>(w, wk)\<in>set (cl_workers S). cworker_held wk) \<and> (\<forall>(a, s)\<in>set (cl_shares S). cshare_held S a s)"

lemma set_hkeep: "distinct (map fst h) \<Longrightarrow> set (hkeep P h) = {(a, x) \<in> set h. P a x}"
  by (auto simp: hkeep_def hget_def split: option.splits)

lemma hkeep_id: "distinct (map fst h) \<Longrightarrow> \<forall>(a, x)\<in>set h. P a x \<Longrightarrow> hkeep P h = h"
  by (auto simp: hkeep_def hget_def filter_id_conv split: option.splits)

lemma client_distinct: "client_inv S \<Longrightarrow> distinct (map fst (cl_workers S)) \<and> distinct (map fst (cl_shares S))"
  by (simp add: client_inv_def client_shape_def)

lemma cshare_held_cong:
  "cl_workers S' = cl_workers S \<Longrightarrow> kc_main S' = kc_main S \<Longrightarrow> cshare_held S' a s = cshare_held S a s"
  by (simp add: cshare_held_def)

lemma settled_id:
  assumes "client_inv S" "settled S"
  shows "ccollect S = S"
proof -
  have none: "filter (\<lambda>(w, wk). \<not> cworker_held wk) (cl_workers S) = []"
    using assms(2) by (auto simp: settled_def filter_empty_conv)
  have "map (\<lambda>(a, s). (a, s\<lparr>cs_nr := cs_nr s - int (length (filter (\<lambda>(w, wk). cw_share wk = a) []))\<rparr>)) xs = xs" for xs
    by (induction xs) auto
  then have "collect_cworkers S = S"
    using assms client_distinct [OF assms(1)]
    by (simp add: collect_cworkers_def none settled_def hkeep_id case_prod_beta' split_beta')
  moreover have "collect_cshares S = S"
    using assms client_distinct [OF assms(1)] by (simp add: collect_cshares_def settled_def hkeep_id)
  ultimately show ?thesis by (simp add: ccollect_def)
qed

lemma settled_collect:
  assumes "client_inv S"
  shows "settled (ccollect S)"
proof -
  have i: "client_inv (ccollect S)" by (rule inv_collect [OF assms])
  let ?T = "collect_cworkers S"
  have d: "distinct (map fst (cl_workers S))" "distinct (map fst (cl_shares ?T))"
    using client_distinct [OF assms] by (simp_all add: collect_cworkers_def Let_def comp_def case_prod_beta)
  have "cl_workers (ccollect S) = hkeep (\<lambda>w. cworker_held) (cl_workers S)"
    by (simp add: ccollect_def collect_cshares_def collect_cworkers_def Let_def)
  moreover have "cshare_held (ccollect S) a s = cshare_held ?T a s" for a s
    by (rule cshare_held_cong) (simp_all add: ccollect_def collect_cshares_def)
  ultimately show ?thesis
    using d by (auto simp: settled_def set_hkeep ccollect_def collect_cshares_def)
qed

definition unstarted :: "client \<Rightarrow> bool" where
  "unstarted S \<longleftrightarrow> cl_workers S = [] \<and> (\<forall>p\<in>set (cl_shares S). cs_fwd (snd p) = None)"

lemma unstarted_add: "unstarted S \<Longrightarrow> unstarted (add_ctcp_share sid port S)"
  by (simp add: unstarted_def add_ctcp_share_def Let_def hnew_def cshare_new_def)

lemma unstarted_init: "unstarted S \<Longrightarrow> unstarted (client_init cfg S)"
proof -
  have "unstarted S \<Longrightarrow> unstarted (fold (\<lambda>(k, sh) S. add_ctcp_share k (sc_remote_port sh) S) m S)" for m
    by (induction m arbitrary: S) (auto simp: unstarted_add)
  then show "unstarted S \<Longrightarrow> unstarted (client_init cfg S)" by (simp add: client_init_def)
qed

lemma settled_start: "settled (client_start cfg u)"
proof -
  have "unstarted (client_init cfg (client_new u))" by (rule unstarted_init) (simp add: unstarted_def client_new_def)
  then show ?thesis
    by (auto simp: settled_def client_start_def client_run_def cshare_held_def unstarted_def)
qed

lemma client_steps_settled:
  "client_steps J cfg evs S = Some S' \<Longrightarrow> boost_json J \<Longrightarrow> client_inv S \<Longrightarrow> settled S \<Longrightarrow> settled S'"
proof (induction evs arbitrary: S)
  case (Cons p evs)
  obtain now ev where p: "p = (now, ev)" by fastforce
  then obtain T where T: "client_act J cfg now ev S = Some T" "client_steps J cfg evs (ccollect T) = Some S'"
    using Cons.prems(1) by (auto simp: client_step_def split: option.splits)
  have "client_inv T" by (rule client_act_inv [OF Cons.prems(2,3) T(1)])
  then show ?case using Cons.IH T(2) Cons.prems(2) inv_collect settled_collect by blast
qed simp

lemma client_reachable_settled:
  "boost_json J \<Longrightarrow> map_ok (cc_tcp_shares cfg) \<Longrightarrow> client_reachable J cfg S \<Longrightarrow> settled S"
  unfolding client_reachable_def using client_steps_settled client_start_inv settled_start by blast

section \<open>The bookkeeping\<close>

text \<open>
  Property C7 (invariant): in every reachable state of the client, the count of each share is
  the number of its live workers, and each of them is listed in its share under its own id,
  one that the share gave out: a stop finds every worker, and the ids that the server
  sees are distinct.
\<close>

theorem client_workers_exact:
  assumes "boost_json J" "map_ok (cc_tcp_shares cfg)" "client_reachable J cfg S" "hget (cl_shares S) a = Some s"
  shows "cs_nr s = int (length (filter (\<lambda>(w, wk). cw_share wk = a) (cl_workers S))) \<and>
    (\<forall>(w, wk)\<in>set (cl_workers S). cw_share wk = a \<longrightarrow>
      map_find (cw_id wk) (cs_workers s) = Some w \<and> 0 \<le> cw_id wk \<and> cw_id wk < cs_next_id s)"
proof -
  have sh: "client_shape S" and d: "distinct (map fst (cl_workers S))"
    using client_reachable_inv [OF assms(1-3)] client_distinct by (auto simp: client_inv_def)
  then have cshape: "cshape (cl_next S) (kc_shares S) (wview S) (sview S)" by (simp add: client_shape_def)
  have a: "sview S a = Some (cs_id s, cs_workers s, cs_next_id s, cs_nr s)" using assms(4) by (simp add: sview_def)
  have "{w. \<exists>i. wview S w = Some (a, i)} = {w. \<exists>wk. hget (cl_workers S) w = Some wk \<and> cw_share wk = a}"
    by (auto simp: wview_def)
  then have "cs_nr s = int (length (filter (\<lambda>(w, wk). cw_share wk = a) (cl_workers S)))"
    using shapeD(4) [OF cshape a] length_filter_card [OF d, of "\<lambda>(w, wk). cw_share wk = a"] by simp
  moreover have "map_find (cw_id wk) (cs_workers s) = Some w \<and> 0 \<le> cw_id wk \<and> cw_id wk < cs_next_id s"
    if "(w, wk) \<in> set (cl_workers S)" "cw_share wk = a" for w wk
  proof -
    have "hget (cl_workers S) w = Some wk" using that d by (simp add: hget_def)
    then have "map_find (cw_id wk) (cs_workers s) = Some w" using shape_listed [OF sh] assms(4) that(2) by fastforce
    then show ?thesis using shapeD(5) [OF cshape a] by blast
  qed
  ultimately show ?thesis by auto
qed

theorem client_workers_exact_witness:
  "\<exists>s. hget (cl_shares demo_client) 0 = Some s \<and> cs_nr s = 1 \<and> map_find 0 (cs_workers s) = Some 1"
  using client_workers_exact [OF boost_json_plain demo_config_ok demo_reachable, of 0 demo_share]
  by (simp add: demo_client_def demo_worker_def hget_def)

section \<open>Stopping\<close>

lemma collect_keeps_stopped:
  assumes "\<And>a s. hget (cl_shares S) a = Some s \<Longrightarrow> closed_share s" "\<And>w wk. hget (cl_workers S) w = Some wk \<Longrightarrow> stopped wk"
  shows "hget (cl_shares (ccollect S)) a = Some s \<Longrightarrow> closed_share s"
    and "hget (cl_workers (ccollect S)) w = Some wk \<Longrightarrow> stopped wk"
  using assms by (auto simp: ccollect_def collect_cshares_def collect_cworkers_def Let_def hget_keep closed_share_def
      hget_map_val [of "\<lambda>a s. s\<lparr>cs_nr := n a s\<rparr>" for n] split: option.splits if_splits)

text \<open>Everything that exists is stopped.\<close>

definition all_stopped :: "client \<Rightarrow> bool" where
  "all_stopped S \<longleftrightarrow> kc_stopping S \<and> (\<forall>(a, s)\<in>set (cl_shares S). cs_closing s \<and> wq_closed (cs_wq s)) \<and>
    (\<forall>(w, wk)\<in>set (cl_workers S). cw_stopping wk \<and> cw_sock wk \<noteq> sock_open)"

lemma all_stoppedI:
  assumes "client_inv S" "kc_stopping S"
    and "\<And>a s. hget (cl_shares S) a = Some s \<Longrightarrow> closed_share s" "\<And>w wk. hget (cl_workers S) w = Some wk \<Longrightarrow> stopped wk"
  shows "all_stopped S"
proof -
  have d: "distinct (map fst (cl_workers S))" "distinct (map fst (cl_shares S))" using client_distinct [OF assms(1)] by auto
  have "cs_closing s \<and> wq_closed (cs_wq s)" if "(a, s) \<in> set (cl_shares S)" for a s
    using assms(3) [of a s] that d(2) by (simp add: hget_def closed_share_def)
  moreover have "cw_stopping wk \<and> cw_sock wk \<noteq> sock_open" if "(w, wk) \<in> set (cl_workers S)" for w wk
    using assms(4) [of w wk] that d(1) by (simp add: hget_def stopped_def)
  ultimately show ?thesis using assms(2) by (auto simp: all_stopped_def)
qed

lemma collect_stopping [simp]:
  "kc_stopping (ccollect S) = kc_stopping S" "cl_exit_code (ccollect S) = cl_exit_code S" "kc_sock (ccollect S) = kc_sock S"
  by (simp_all add: ccollect_def collect_cshares_def collect_cworkers_def Let_def)

lemma all_stopped_stop: "client_inv S \<Longrightarrow> all_stopped (ccollect (cctrl_try_stop S))"
  using stop_reaches [of S] collect_keeps_stopped [of "cctrl_try_stop S"]
  by (intro all_stoppedI inv_collect inv_stop) (auto simp: client_inv_def cctrl_try_stop_eq)

lemma stop_keeps [simp]:
  "cl_exit_code (cctrl_try_stop S) = cl_exit_code S" "kc_sock (cctrl_try_stop S) = sock_closed"
proof -
  have w: "cl_exit_code (stop_cworkers ws S) = cl_exit_code S \<and> kc_sock (stop_cworkers ws S) = kc_sock S" for ws S
    by (induction ws arbitrary: S) (auto simp: stop_cworkers_def upd_cworker_def)
  have s: "cl_exit_code (cshare_try_stop a S) = cl_exit_code S \<and> kc_sock (cshare_try_stop a S) = kc_sock S" for a S
    using w by (simp add: cshare_try_stop_def upd_cshare_def split: option.split)
  have "cl_exit_code (stop_cshares xs S) = cl_exit_code S \<and> kc_sock (stop_cshares xs S) = kc_sock S" for xs S
    by (rule stop_cshares_induct [where P = "\<lambda>T. cl_exit_code T = cl_exit_code S \<and> kc_sock T = kc_sock S"]) (auto simp: s)
  then show "cl_exit_code (cctrl_try_stop S) = cl_exit_code S" "kc_sock (cctrl_try_stop S) = sock_closed"
    by (simp_all add: cctrl_try_stop_eq)
qed

text \<open>
  Property C16 (safety): a stop of the client reaches everything.  In every reachable state the
  signal handler's \<open>try_stop\<close> leaves no share whose queue is open and no worker with a
  usable connection, whoever created them and whatever they are suspended in; the
  controller's connection is closed, and the exit code is kept.
\<close>

theorem client_stop_reaches_everything:
  assumes "boost_json J" "map_ok (cc_tcp_shares cfg)" "client_reachable J cfg S" "ctrl_alive S"
    and "client_step J cfg now kev_stop S = Some S'"
  shows "all_stopped S' \<and> kc_sock S' = sock_closed \<and> cl_exit_code S' = cl_exit_code S"
proof -
  have "S' = ccollect (cctrl_try_stop S)" using assms(4,5) by (simp add: client_step_def)
  then show ?thesis using all_stopped_stop [OF client_reachable_inv [OF assms(1-3)]] by simp
qed

theorem client_stop_reaches_everything_witness:
  "\<exists>S'. client_step plain_json demo_config 9 kev_stop demo_client = Some S' \<and> all_stopped S' \<and> cl_exit_code S' = 0"
proof -
  have "ctrl_alive demo_client" by (simp add: ctrl_alive_def demo_client_def)
  moreover obtain S' where "client_step plain_json demo_config 9 kev_stop demo_client = Some S'"
    by (simp add: client_step_def)
  ultimately show ?thesis
    using client_stop_reaches_everything [OF boost_json_plain demo_config_ok demo_reachable]
    by (auto simp: demo_client_def)
qed

text \<open>What the end of a forwarder does, by the flag of its share.\<close>

lemma fwd_end_result:
  assumes inv: "client_inv S" and a: "hget (cl_shares S) a = Some s"
    and st: "client_step J cfg now (kev_fwd_end a) S = Some S'"
  shows "if cs_closing s then cl_exit_code S' = cl_exit_code S \<and> kc_stopping S' = kc_stopping S
    else cl_exit_code S' = 1 \<and> all_stopped S'"
proof -
  let ?f = "\<lambda>s. s\<lparr>cs_fwd_exn := None\<rparr>" and ?T = "cctrl_try_stop (S\<lparr>cl_exit_code := 1\<rparr>)"
  have S': "S' = ccollect (upd_cshare a ?f (if cs_closing s then S else ?T))"
    using a st by (auto simp: client_step_def cshare_handle_error_def split: option.splits)
  show ?thesis
  proof (cases "cs_closing s")
    case True
    then show ?thesis by (simp add: S' upd_cshare_def)
  next
    case False
    have iT: "client_inv (S\<lparr>cl_exit_code := 1\<rparr>)" using inv by simp
    then have "client_inv (upd_cshare a ?f ?T)" by (auto intro!: inv_upd_share inv_stop)
    moreover have "closed_share t" if "hget (cl_shares (upd_cshare a ?f ?T)) b = Some t" for b t
      using that stop_reaches(1) [of "S\<lparr>cl_exit_code := 1\<rparr>"] iT
      by (auto simp: client_inv_def closed_share_def split: if_splits)
    moreover have "stopped wk" if "hget (cl_workers (upd_cshare a ?f ?T)) w = Some wk" for w wk
      using that stop_reaches(2) [of "S\<lparr>cl_exit_code := 1\<rparr>"] iT by (simp add: client_inv_def)
    ultimately have "all_stopped (ccollect (upd_cshare a ?f ?T))"
      using collect_keeps_stopped [of "upd_cshare a ?f ?T"]
      by (intro all_stoppedI inv_collect) (auto simp: cctrl_try_stop_eq)
    then show ?thesis using False by (simp add: S' upd_cshare_def)
  qed
qed

text \<open>
  An error that ends the forwarder of a share stops the whole client with
  exit code 1, unless the share is closing: then it is only logged.
\<close>

theorem forwarder_end_stops_client:
  assumes "boost_json J" "map_ok (cc_tcp_shares cfg)" "client_reachable J cfg S" "hget (cl_shares S) a = Some s"
    and "client_step J cfg now (kev_fwd_end a) S = Some S'"
  shows "if cs_closing s then cl_exit_code S' = cl_exit_code S \<and> kc_stopping S' = kc_stopping S
    else cl_exit_code S' = 1 \<and> all_stopped S'"
  by (rule fwd_end_result [OF client_reachable_inv [OF assms(1-3)] assms(4,5)])

theorem forwarder_end_stops_client_witness:
  "\<exists>S'. client_steps plain_json demo_config (demo_throw @ [(22, kev_fwd_end 0)]) demo_client = Some S' \<and>
    cl_exit_code S' = 1 \<and> all_stopped S'"
proof -
  obtain S s S' where S: "client_steps plain_json demo_config demo_throw demo_client = Some S"
    "hget (cl_shares S) 0 = Some s" "\<not> cs_closing s" "client_step plain_json demo_config 22 (kev_fwd_end 0) S = Some S'"
    using demo_thrown by blast
  have "cl_exit_code S' = 1 \<and> all_stopped S'"
    using forwarder_end_stops_client [OF boost_json_plain demo_config_ok client_reachable_steps [OF demo_reachable S(1)] S(2,4)]
      S(3) by simp
  then show ?thesis using S(1,4) by (auto simp: client_steps_append)
qed

section \<open>A dead connection\<close>

lemma collect_at:
  assumes "hget (cl_shares S) a = Some s" "hget (cl_workers S) w = Some wk" "cworker_held wk" "cw_share wk = a"
  shows "hget (cl_workers (ccollect S)) w = Some wk \<and> (\<exists>n. hget (cl_shares (ccollect S)) a = Some (s\<lparr>cs_nr := n\<rparr>))"
proof -
  let ?T = "collect_cworkers S"
  have w: "hget (cl_workers ?T) w = Some wk"
    using assms(2,3) by (simp add: collect_cworkers_def Let_def hget_keep)
  obtain n where a: "hget (cl_shares ?T) a = Some (s\<lparr>cs_nr := n\<rparr>)"
    using assms(1) by (auto simp: collect_cworkers_def Let_def hget_map_val [of "\<lambda>a s. s\<lparr>cs_nr := n a s\<rparr>" for n])
  have "list_ex (\<lambda>(w, wk). cw_share wk = a) (cl_workers ?T)"
    using hget_set [OF w] assms(4) by (auto simp: list_ex_iff)
  then have "cshare_held ?T a t" for t by (simp add: cshare_held_def)
  then have "hget (cl_shares (ccollect S)) a = Some (s\<lparr>cs_nr := n\<rparr>)"
    using a by (simp add: ccollect_def collect_cshares_def hget_keep)
  then show ?thesis using w by (auto simp: ccollect_def collect_cshares_def)
qed

text \<open>
  Property C28 (error): a dead connection of one user stops the client.  When a worker whose connection
  was closed while it confirmed a visit provides it to the forwarder that waits for the next
  user, \<open>rebind_ioc\<close> throws on it, which ends the forwarder: the client ends with exit code 1
  and all its shares.
\<close>

theorem dead_connection_stops_client:
  assumes "boost_json J" "map_ok (cc_tcp_shares cfg)" "client_reachable J cfg S"
    and w: "hget (cl_workers S) w = Some wk" "cw_main wk = cm_confirming" "cw_sock wk = sock_closed"
    and s: "hget (cl_shares S) (cw_share wk) = Some s" "cs_posted s = []" "cs_ready s = []"
      "wq_q (cs_wq s) = [g_forward]" "\<not> wq_closed (cs_wq s)" "cs_fwd s \<noteq> None"
  shows "\<exists>S'. client_steps J cfg
      [(now, kev_worker w (cwe_confirmed (Inr ()))), (now, kev_closure (cw_share wk) 0),
       (now, kev_resume (cw_share wk) 0), (now, kev_fwd_end (cw_share wk))] S = Some S' \<and>
    cl_exit_code S' = 1 \<and> all_stopped S'"
proof -
  let ?a = "cw_share wk" and ?wk = "cworker_on_confirmed (Inr ()) wk"
  have inv: "client_inv S" by (rule client_reachable_inv [OF assms(1-3)])
  have open': "\<not> cs_closing s" using inv s(1,5) by (auto simp: client_inv_def share_ok_def)
  have wk: "cworker_held ?wk" "cw_share ?wk = ?a" by (simp_all add: cworker_on_confirmed_def cworker_held_def)
  have c: "cc_main \<in> cw_cancelled wk" using inv w by (auto simp: client_inv_def worker_ok_def cworker_inv_def)
  let ?t = "provide_task (g_conn w) (w, False)"
  obtain S1 n1 where S1: "client_step J cfg now (kev_worker w (cwe_confirmed (Inr ()))) S = Some S1"
    "hget (cl_workers S1) w = Some ?wk" "hget (cl_shares S1) ?a = Some (s\<lparr>cs_posted := [?t], cs_nr := n1\<rparr>)"
    using collect_at [of "upd_cshare ?a (cshare_post ?t) (upd_cworker w (\<lambda>_. ?wk) S)" ?a "s\<lparr>cs_posted := [?t]\<rparr>" w ?wk]
      w s(1,2) wk c
    by (auto simp: client_step_def own_cevent_def cworker_act_step_def cmay_end_def cshare_post_def Let_def)
  let ?s = "cshare_run_closure 0 (s\<lparr>cs_posted := [?t], cs_nr := n1\<rparr>)"
  have closure: "?s = s\<lparr>cs_posted := [], cs_nr := n1, cs_wq := (cs_wq s)\<lparr>wq_q := []\<rparr>,
      cs_ready := [wait_done g_forward (w, False), provide_done (g_conn w)]\<rparr>"
    using s(3-5) by (simp add: cshare_run_closure_def run_provide_def remove_nth_def)
  obtain S2 n2 where S2: "client_step J cfg now (kev_closure ?a 0) S1 = Some S2"
    "hget (cl_workers S2) w = Some ?wk" "hget (cl_shares S2) ?a = Some (?s\<lparr>cs_nr := n2\<rparr>)"
    using collect_at [of "upd_cshare ?a (cshare_run_closure 0) S1" ?a ?s w ?wk] S1 wk by (auto simp: client_step_def)
  let ?r = "cforward (Inr bad_descriptor) (chk_need_workers cfg (?s\<lparr>cs_nr := n2, cs_ready := [provide_done (g_conn w)]\<rparr>))"
  obtain S3 n3 where S3: "client_step J cfg now (kev_resume ?a 0) S2 = Some S3"
    "hget (cl_shares S3) ?a = Some (?r\<lparr>cs_nr := n3\<rparr>)"
    using collect_at [of "upd_cshare ?a (\<lambda>s. cforward (Inr bad_descriptor) (chk_need_workers cfg s))
        (upd_cshare ?a (\<lambda>s. s\<lparr>cs_ready := remove_nth 0 (cs_ready s)\<rparr>) S2)" ?a ?r w ?wk] S2 wk
    by (auto simp: client_step_def closure remove_nth_def)
  have r: "cs_fwd_exn ?r = Some bad_descriptor" "\<not> cs_closing ?r"
    using open' by (simp_all add: cforward_def chk_need_workers_def closure Let_def)
  then obtain S4 where S4: "client_step J cfg now (kev_fwd_end ?a) S3 = Some S4"
    using S3(2) by (simp add: client_step_def)
  have "client_inv S3" using client_step_inv [OF assms(1)] inv S1(1) S2(1) S3(1) by blast
  then have "cl_exit_code S4 = 1 \<and> all_stopped S4" using fwd_end_result [OF _ S3(2) S4] r by simp
  then show ?thesis using S1(1) S2(1) S3(1) S4 by simp
qed

theorem dead_connection_stops_client_witness:
  "\<exists>S S'. client_steps plain_json demo_config demo_break demo_client = Some S \<and>
    client_steps plain_json demo_config
      [(21, kev_worker 1 (cwe_confirmed (Inr ()))), (21, kev_closure 0 0), (21, kev_resume 0 0), (21, kev_fwd_end 0)] S =
      Some S' \<and> cl_exit_code S' = 1"
proof -
  obtain S wk s where S: "client_steps plain_json demo_config demo_break demo_client = Some S"
    "hget (cl_workers S) 1 = Some wk" "cw_share wk = 0" "cw_main wk = cm_confirming" "cw_sock wk = sock_closed"
    "hget (cl_shares S) 0 = Some s" "cs_posted s = []" "cs_ready s = []" "wq_q (cs_wq s) = [g_forward]"
    "\<not> wq_closed (cs_wq s)" "cs_fwd s \<noteq> None"
    using demo_broken by blast
  show ?thesis
    using dead_connection_stops_client [OF boost_json_plain demo_config_ok client_reachable_steps [OF demo_reachable S(1)]
        S(2,4,5) S(6) [folded S(3)] S(7-11), of 21] S(1,3) by auto
qed

text \<open>
  Nobody looks at \<open>closing_\<close> or \<open>stopping_\<close> when the connection of a new worker is there: a worker
  that was being added when the client stopped runs, unstopped.
\<close>

lemma fresh_worker:
  assumes "boost_json J"
  shows "cw_main (cworker_run J (cworker_new a sid i)) = cm_hello \<and> cw_sock (cworker_run J (cworker_new a sid i)) = sock_open \<and>
    \<not> cw_stopping (cworker_run J (cworker_new a sid i)) \<and> cworker_held (cworker_run J (cworker_new a sid i)) \<and>
    cw_share (cworker_run J (cworker_new a sid i)) = a \<and> cw_id (cworker_run J (cworker_new a sid i)) = i"
proof -
  obtain m where "marshal_msg J (M_worker_hello (hello_of (cworker_new a sid i\<lparr>cw_ping := None\<rparr>))) = Inr m"
    using marshal_total [OF assms] by blast
  then show ?thesis by (simp add: cworker_run_def cworker_send_def cworker_new_def cworker_held_def)
qed

lemma worker_added_after_stop:
  assumes "boost_json J" "hget (cl_shares S) a = Some s" "i < length (cs_adders s)" "cs_adders s ! i = ad_connecting k"
  shows "\<exists>S' wk. client_act J cfg now (kev_adder a i (Inr ())) S = Some S' \<and> kc_stopping S' = kc_stopping S \<and>
    hget (cl_workers S') (cl_next S) = Some wk \<and> \<not> cw_stopping wk \<and> cw_sock wk = sock_open"
  using assms fresh_worker [OF assms(1)]
  by (simp add: adder_step_def adder_loop_def drop_adder_def set_adder_def add_cworker_def Let_def)

text \<open>A negative number of workers in the configuration is a huge one.\<close>

lemma negative_count_is_huge: "worker_count (- 1) = 2 ^ 64 - 1"
  by (simp add: worker_count_def unsigned_minus_1_eq_mask mask_eq_exp_minus_1)

section \<open>Refilling\<close>

lemma held_more:
  assumes "cshare_held S b t" "kc_main S' = kc_main S" "set (cl_workers S) \<subseteq> set (cl_workers S')"
  shows "cshare_held S' b t"
  using assms by (auto simp: cshare_held_def list_ex_iff split: kc_pc.splits)

lemma set_hupd: "(b, t) \<in> set (hupd a f h) \<Longrightarrow> \<exists>u. (b, u) \<in> set h \<and> t = (if b = a then f u else u)"
  by (auto simp: hupd_def)

text \<open>One round of the loop of \<open>add_workers\<close>.\<close>

definition one_more :: "json_lib \<Rightarrow> nat \<Rightarrow> nat \<Rightarrow> cshare \<Rightarrow> nat \<Rightarrow> cshare" where
  "one_more J w k s a = s\<lparr>cs_next_id := cs_next_id s + 1, cs_nr := cs_nr s + 1,
     cs_workers := map_emplace (cs_next_id s) w (cs_workers s), cs_adders := (if k = 1 then [] else [ad_connecting (k - 1)])\<rparr>"

lemma adder_round:
  assumes J: "boost_json J" and S: "client_inv S" "settled S"
    and s: "hget (cl_shares S) a = Some s" "cs_adders s = [ad_connecting k]" "0 < k"
  shows "\<exists>S'. client_step J cfg now (kev_adder a 0 (Inr ())) S = Some S' \<and> client_inv S' \<and> settled S' \<and>
    cl_workers S' = hnew (cl_next S) (cworker_run J (cworker_new a (cs_id s) (cs_next_id s))) (cl_workers S) \<and>
    hget (cl_shares S') a = Some (one_more J (cl_next S) k s a)"
proof -
  let ?wk = "cworker_run J (cworker_new a (cs_id s) (cs_next_id s))"
  let ?S = "adder_loop a 0 (k - 1) (add_cworker J a S)"
  have act: "client_act J cfg now (kev_adder a 0 (Inr ())) S = Some ?S" using s by (simp add: adder_step_def)
  have inv: "client_inv ?S" by (rule client_act_inv [OF J S(1) act])
  have ws: "cl_workers ?S = hnew (cl_next S) ?wk (cl_workers S)"
    by (simp add: adder_loop_def drop_adder_def set_adder_def add_cworker_def s Let_def)
  have main: "kc_main ?S = kc_main S"
    by (simp add: adder_loop_def drop_adder_def set_adder_def add_cworker_def s Let_def)
  have a: "hget (cl_shares ?S) a = Some (one_more J (cl_next S) k s a)"
    using s by (simp add: adder_loop_def drop_adder_def set_adder_def add_cworker_def Let_def one_more_def remove_nth_def)
  have "settled ?S"
    unfolding settled_def
  proof (intro conjI ballI)
    fix p assume "p \<in> set (cl_workers ?S)"
    then have "p = (cl_next S, ?wk) \<or> p \<in> set (cl_workers S)" unfolding ws by (simp add: hnew_def)
    then show "case p of (w, wk) \<Rightarrow> cworker_held wk"
      using S(2) fresh_worker [OF J, of a "cs_id s" "cs_next_id s"] by (auto simp: settled_def)
  next
    fix p assume p: "p \<in> set (cl_shares ?S)"
    obtain b t where bt: "p = (b, t)" by fastforce
    have "cshare_held ?S b t"
    proof (cases "b = a")
      case True
      have "list_ex (\<lambda>(w, wk). cw_share wk = a) (cl_workers ?S)"
        unfolding ws using fresh_worker [OF J] by (simp add: hnew_def)
      then show ?thesis using True by (simp add: cshare_held_def)
    next
      case False
      then have "(b, t) \<in> set (cl_shares S)"
        using p bt by (auto simp: adder_loop_def drop_adder_def set_adder_def add_cworker_def s Let_def upd_cshare_def
            dest!: set_hupd split: if_splits)
      then show ?thesis using S(2) held_more [of S b t ?S] main ws by (auto simp: settled_def hnew_def)
    qed
    then show "case p of (b, t) \<Rightarrow> cshare_held ?S b t" by (simp add: bt)
  qed
  then show ?thesis using settled_id [OF inv] act inv ws a by (simp add: client_step_def)
qed

lemma find_listed:
  assumes "client_inv S" "hget (cl_shares S) a = Some s"
  shows "map_find (cs_next_id s) (cs_workers s) = None" "map_ok (cs_workers s)"
    "map_find i (cs_workers s) = Some w \<Longrightarrow> w < cl_next S"
proof -
  have sh: "cshape (cl_next S) (kc_shares S) (wview S) (sview S)" using assms(1) by (simp add: client_inv_def client_shape_def)
  have a: "sview S a = Some (cs_id s, cs_workers s, cs_next_id s, cs_nr s)" using assms(2) by (simp add: sview_def)
  show "map_find (cs_next_id s) (cs_workers s) = None"
    using shapeD(5) [OF sh a, of "cs_next_id s"] by (cases "map_find (cs_next_id s) (cs_workers s)") auto
  show "map_ok (cs_workers s)" using shapeD(4) [OF sh a] by simp
  show "map_find i (cs_workers s) = Some w \<Longrightarrow> w < cl_next S" using shapeD(5) [OF sh a] by blast
qed

text \<open>A worker that was added under an id: listed, running its greeting.\<close>

definition added :: "client \<Rightarrow> nat \<Rightarrow> cshare \<Rightarrow> int \<Rightarrow> bool" where
  "added S a s i \<longleftrightarrow> (\<exists>w wk. map_find i (cs_workers s) = Some w \<and> hget (cl_workers S) w = Some wk \<and>
    cw_share wk = a \<and> cw_id wk = i \<and> cw_main wk = cm_hello \<and> cw_sock wk = sock_open)"

lemma adder_rounds:
  assumes "boost_json J" "client_inv S" "settled S" "hget (cl_shares S) a = Some s" "cs_adders s = [ad_connecting k]" "0 < k"
  shows "\<exists>S' s'. client_steps J cfg (replicate k (now, kev_adder a 0 (Inr ()))) S = Some S' \<and>
    hget (cl_shares S') a = Some s' \<and> cs_adders s' = [] \<and> cs_nr s' = cs_nr s + int k \<and>
    cs_next_id s' = cs_next_id s + int k \<and>
    (\<forall>i. added S a s i \<or> cs_next_id s \<le> i \<and> i < cs_next_id s + int k \<longrightarrow> added S' a s' i)"
  using assms(2-)
proof (induction k arbitrary: S s)
  case (Suc k)
  let ?wk = "cworker_run J (cworker_new a (cs_id s) (cs_next_id s))" and ?s = "one_more J (cl_next S) (Suc k) s a"
  obtain S1 where S1: "client_step J cfg now (kev_adder a 0 (Inr ())) S = Some S1" "client_inv S1" "settled S1"
    "cl_workers S1 = hnew (cl_next S) ?wk (cl_workers S)" "hget (cl_shares S1) a = Some ?s"
    using adder_round [OF assms(1) Suc.prems] by blast
  have sel: "cs_nr ?s = cs_nr s + 1" "cs_next_id ?s = cs_next_id s + 1" "cs_adders ?s = (if k = 0 then [] else [ad_connecting k])"
    by (simp_all add: one_more_def)
  note l = find_listed [OF Suc.prems(1,3)]
  have find: "map_find i (cs_workers ?s) = (if i = cs_next_id s then Some (cl_next S) else map_find i (cs_workers s))" for i
    using l(1,2) by (simp add: one_more_def find_emplace)
  have one: "added S1 a ?s i" if "added S a s i \<or> i = cs_next_id s" for i
  proof (cases "i = cs_next_id s")
    case True
    then show ?thesis using fresh_worker [OF assms(1), of a "cs_id s" i] by (simp add: added_def find S1(4))
  next
    case False
    then have "added S a s i" using that by blast
    then obtain w wk where "map_find i (cs_workers s) = Some w" "hget (cl_workers S) w = Some wk"
      "cw_share wk = a \<and> cw_id wk = i \<and> cw_main wk = cm_hello \<and> cw_sock wk = sock_open"
      unfolding added_def by blast
    then show ?thesis using False l(3) [of i w] by (auto simp: added_def find S1(4))
  qed
  show ?case
  proof (cases "k = 0")
    case True
    then show ?thesis using S1(1,5) sel one by auto
  next
    case False
    then obtain S' s' where "client_steps J cfg (replicate k (now, kev_adder a 0 (Inr ()))) S1 = Some S'"
      "hget (cl_shares S') a = Some s'" "cs_adders s' = []" "cs_nr s' = cs_nr ?s + int k"
      "cs_next_id s' = cs_next_id ?s + int k"
      "\<forall>i. added S1 a ?s i \<or> cs_next_id ?s \<le> i \<and> i < cs_next_id ?s + int k \<longrightarrow> added S' a s' i"
      using Suc.IH [OF S1(2,3,5)] sel(3) by auto
    moreover have "added S' a s' i" if "added S a s i \<or> cs_next_id s \<le> i \<and> i < cs_next_id s + int (Suc k)" for i
    proof (cases "added S a s i \<or> i = cs_next_id s")
      case True
      then show ?thesis using one calculation(6) by blast
    next
      case False
      then have "cs_next_id ?s \<le> i \<and> i < cs_next_id ?s + int k" using that by (auto simp: sel)
      then show ?thesis using calculation(6) by blast
    qed
    ultimately show ?thesis using S1(1) sel(1,2) by auto
  qed
qed simp

text \<open>
  Property C15 (functional): a share that is low is refilled.  When \<open>chk_need_workers\<close> has spawned its
  coroutine in a share that is not closing and has fewer workers than \<open>worker_count_low\<close>, and
  the server accepts the connections, the coroutine adds exactly \<open>worker_count_more\<close> workers
  under consecutive new ids, each listed, connected and greeting, and ends.
\<close>

theorem low_share_is_refilled:
  assumes "boost_json J" "map_ok (cc_tcp_shares cfg)" "client_reachable J cfg S" "hget (cl_shares S) a = Some s"
    and "cs_adders s = [ad_chk]" "\<not> cs_closing s" "cs_nr s < sint (cc_worker_count_low cfg)"
    and "k = worker_count (cc_worker_count_more cfg)" "0 < k"
  shows "\<exists>S' s'. client_steps J cfg (replicate (Suc k) (now, kev_adder a 0 (Inr ()))) S = Some S' \<and>
    hget (cl_shares S') a = Some s' \<and> cs_adders s' = [] \<and> cs_nr s' = cs_nr s + int k \<and>
    cs_next_id s' = cs_next_id s + int k \<and> (\<forall>i\<in>{cs_next_id s..<cs_next_id s + int k}. added S' a s' i)"
proof -
  have inv: "client_inv S" and st: "settled S"
    using client_reachable_inv [OF assms(1-3)] client_reachable_settled [OF assms(1-3)] by auto
  let ?s = "s\<lparr>cs_workers := map_erase_if (\<lambda>w. \<not> live (cl_workers S) w) (cs_workers s), cs_adders := [ad_connecting k]\<rparr>"
  let ?S = "set_adder a 0 k (cleanup_cworkers a S)"
  have act: "client_act J cfg now (kev_adder a 0 (Inr ())) S = Some ?S"
    using assms(4-9) by (simp add: adder_step_def adder_loop_def)
  have inv': "client_inv ?S" by (rule client_act_inv [OF assms(1) inv act])
  have s: "hget (cl_shares ?S) a = Some ?s" using assms(4,5) by (simp add: set_adder_def cleanup_cworkers_def)
  have "cshare_held ?S b t" if "(b, t) \<in> set (cl_shares ?S)" for b t
  proof (cases "b = a")
    case True
    then have "hget (cl_shares ?S) a = Some t"
      using that client_distinct [OF inv'] by (simp add: hget_def map_of_is_SomeI)
    then have "t = ?s" using s by simp
    then show ?thesis by (simp add: cshare_held_def)
  next
    case False
    then have "(b, t) \<in> set (cl_shares S)"
      using that by (auto simp: set_adder_def cleanup_cworkers_def upd_cshare_def dest!: set_hupd)
    then show ?thesis using st held_more [of S b t ?S] by (auto simp: settled_def set_adder_def cleanup_cworkers_def)
  qed
  then have "settled ?S" using st by (auto simp: settled_def set_adder_def cleanup_cworkers_def)
  then have "client_step J cfg now (kev_adder a 0 (Inr ())) S = Some ?S" "settled ?S"
    using act settled_id [OF inv'] by (simp_all add: client_step_def)
  then show ?thesis using adder_rounds [OF assms(1) inv' _ s, of k cfg now] assms(9) by auto
qed

theorem low_share_is_refilled_witness:
  "\<exists>S s'. client_steps plain_json demo_config (demo_visit @ replicate 3 (6, kev_adder 0 0 (Inr ()))) demo_client = Some S \<and>
    hget (cl_shares S) 0 = Some s' \<and> cs_nr s' = 3 \<and> added S 0 s' 1 \<and> added S 0 s' 2"
proof -
  obtain S s where S: "client_steps plain_json demo_config demo_visit demo_client = Some S" "hget (cl_shares S) 0 = Some s"
    "cs_adders s = [ad_chk]" "\<not> cs_closing s" "cs_nr s = 1" "cs_next_id s = 1"
    using demo_visited by blast
  have low: "cs_nr s < sint (cc_worker_count_low demo_config)" "2 = worker_count (cc_worker_count_more demo_config)"
    using S(5) by (simp_all add: demo_config_def worker_count_def)
  obtain S' s' where "client_steps plain_json demo_config (replicate (Suc 2) (6, kev_adder 0 0 (Inr ()))) S = Some S'"
    "hget (cl_shares S') 0 = Some s'" "cs_nr s' = 3" "\<forall>i\<in>{1..<3}. added S' 0 s' i"
    using low_share_is_refilled [OF boost_json_plain demo_config_ok client_reachable_steps [OF demo_reachable S(1)]
        S(2-4) low, of 6] S(5,6) by auto
  then show ?thesis using S(1) by (auto simp: client_steps_append eval_nat_numeral)
qed

section \<open>Starving\<close>

text \<open>
  A share without workers: none lives, none is being added, and no connection is on its way
  through the queue.
\<close>

definition dry :: "cshare \<Rightarrow> bool" where
  "dry s \<longleftrightarrow> cs_adders s = [] \<and> wq_vq (cs_wq s) = [] \<and>
    list_all (\<lambda>t. case t of provide_task h v \<Rightarrow> False | _ \<Rightarrow> True) (cs_posted s) \<and>
    list_all (\<lambda>c. case c of wait_done h v \<Rightarrow> False | _ \<Rightarrow> True) (cs_ready s)"

definition starved :: "nat \<Rightarrow> client \<Rightarrow> bool" where
  "starved a S \<longleftrightarrow> list_all (\<lambda>(w, wk). cw_share wk \<noteq> a) (cl_workers S) \<and>
    (case hget (cl_shares S) a of Some s \<Rightarrow> dry s | None \<Rightarrow> True) \<and> (kc_main S = kc_reading \<or> kc_main S = kc_done)"

lemma starved_sel [simp]:
  "starved a (S\<lparr>kc_sock := x1\<rparr>) = starved a S" "starved a (S\<lparr>kc_stopping := x2\<rparr>) = starved a S"
  "starved a (S\<lparr>kc_ping_cancelled := y4\<rparr>) = starved a S" "starved a (S\<lparr>kc_ping := x3\<rparr>) = starved a S"
  "starved a (S\<lparr>kc_ping_pc := x4\<rparr>) = starved a S"
  "starved a (S\<lparr>kc_sent := x5\<rparr>) = starved a S" "starved a (S\<lparr>cl_exit_code := x6\<rparr>) = starved a S"
  "starved a S \<Longrightarrow> starved a (S\<lparr>kc_main := kc_done\<rparr>)" "starved a S \<Longrightarrow> starved a (S\<lparr>kc_main := kc_reading\<rparr>)"
  by (simp_all add: starved_def)

lemma starved_worker:
  assumes "starved a S" "\<And>wk. (w, wk) \<in> set (cl_workers S) \<Longrightarrow> cw_share (f wk) = cw_share wk"
  shows "starved a (upd_cworker w f S)"
  using assms by (force simp: starved_def list_all_iff dest!: set_hupd split: if_splits)

lemma starved_share:
  assumes "starved a S" "\<And>s. b = a \<Longrightarrow> dry s \<Longrightarrow> dry (f s)"
  shows "starved a (upd_cshare b f S)"
  using assms by (auto simp: starved_def split: option.splits)

lemma dryI [intro!]:
  "dry s \<Longrightarrow> dry (cshare_close s)" "dry s \<Longrightarrow> dry (crun_forwarder s)" "dry s \<Longrightarrow> dry (cforward r s)"
  "dry s \<Longrightarrow> dry (s\<lparr>cs_fwd := x\<rparr>)" "dry s \<Longrightarrow> dry (s\<lparr>cs_fwd := x1, cs_fwd_stops := n\<rparr>)" "dry s \<Longrightarrow> dry (s\<lparr>cs_fwd_exn := y\<rparr>)"
  by (auto simp: dry_def cshare_close_def cshare_post_def crun_forwarder_def cforward_def Let_def split: sum.split)

lemma list_all_remove_nth: "list_all P xs \<Longrightarrow> list_all P (remove_nth i xs)"
  by (auto simp: remove_nth_def list_all_iff dest: in_set_takeD in_set_dropD)

lemma dry_ready: "dry s \<Longrightarrow> dry (s\<lparr>cs_ready := remove_nth i (cs_ready s)\<rparr>)"
  by (simp add: dry_def list_all_remove_nth)

lemma dry_closure:
  assumes "dry s" "i < length (cs_posted s)"
  shows "dry (cshare_run_closure i s)"
proof -
  have "cs_posted s ! i \<in> set (cs_posted s)" using assms(2) by simp
  then have "case cs_posted s ! i of provide_task h v \<Rightarrow> False | _ \<Rightarrow> True" using assms(1) by (auto simp: dry_def list_all_iff)
  then show ?thesis using assms(1)
    by (cases "cs_posted s ! i")
      (auto simp: cshare_run_closure_def dry_def run_wait_def run_close_def list_all_remove_nth list.pred_map comp_def
        list.pred_True)
qed

lemma starved_stop_cworkers: "starved a S \<Longrightarrow> starved a (stop_cworkers ws S)"
  by (induction ws arbitrary: S) (auto simp: stop_cworkers_def starved_worker)

lemma starved_cshare_stop: "starved a S \<Longrightarrow> starved a (cshare_try_stop b S)"
  by (auto simp: cshare_try_stop_def intro!: starved_stop_cworkers starved_share split: option.split)

lemma starved_stop [simp, intro]: "starved a S \<Longrightarrow> starved a (cctrl_try_stop S)"
  unfolding cctrl_try_stop_eq by (rule stop_cshares_induct) (simp_all add: starved_cshare_stop)

lemma starved_errors [simp, intro]:
  "starved a S \<Longrightarrow> starved a (cctrl_handle_error e S)" "starved a S \<Longrightarrow> starved a (cctrl_failed e S)"
  "starved a S \<Longrightarrow> starved a (cshare_handle_error e b S)"
  by (auto simp: cctrl_handle_error_def cctrl_failed_def cshare_handle_error_def split: option.split)

lemma starved_add: "starved a S \<Longrightarrow> b \<noteq> a \<Longrightarrow> starved a (add_cworker J b S)"
  by (auto simp: add_cworker_def Let_def starved_def hnew_def cworker_run_def cworker_new_def split: option.split)

lemma collect_sel:
  "set (cl_workers (ccollect S)) \<subseteq> set (cl_workers S)" "kc_main (ccollect S) = kc_main S"
  by (auto simp: ccollect_def collect_cshares_def collect_cworkers_def Let_def hkeep_def)

lemma collect_shareD:
  assumes "hget (cl_shares (ccollect S)) a = Some s"
  shows "\<exists>t n. hget (cl_shares S) a = Some t \<and> s = t\<lparr>cs_nr := n\<rparr>"
proof -
  have "hget (cl_shares (collect_cworkers S)) a = Some s"
    using assms by (auto simp: ccollect_def collect_cshares_def hget_keep split: option.splits if_splits)
  then show ?thesis
    by (auto simp: collect_cworkers_def Let_def hget_map_val [of "\<lambda>a s. s\<lparr>cs_nr := n a s\<rparr>" for n])
qed

lemma starved_collect:
  assumes "starved a S"
  shows "starved a (ccollect S)"
proof -
  have "dry s" if "hget (cl_shares (ccollect S)) a = Some s" for s
    using collect_shareD [OF that] assms by (auto simp: starved_def dry_def)
  then show ?thesis
    using assms collect_sel [of S] by (auto simp: starved_def list_all_iff split: option.split)
qed

lemma starved_act:
  assumes S: "starved a S" and act: "client_act J cfg now ev S = Some S'"
  shows "starved a S'"
proof -
  have main: "kc_main S = kc_reading \<or> kc_main S = kc_done" using S by (simp add: starved_def)
  have s: "dry s" if "hget (cl_shares S) a = Some s" for s using S that by (simp add: starved_def)
  show ?thesis
  proof (cases ev)
    case (kev_read r)
    then show ?thesis using S act main
      by (auto simp: cctrl_on_read_def cctrl_loop_def split: if_splits sum.splits)
  next
    case (kev_timer r)
    then show ?thesis using S act
      by (auto simp: cctrl_on_timer_def cctrl_ping_check_def Let_def split: if_splits sum.splits option.splits)
  next
    case (kev_ping_written r)
    then show ?thesis using S act by (auto simp: cctrl_on_ping_written_def split: if_splits sum.splits)
  next
    case (kev_worker w wev)
    then obtain wk where w: "hget (cl_workers S) w = Some wk" "cworker_act_step J now w wev wk S = Some S'"
      using act by (auto split: option.splits if_splits)
    then have "cw_share wk \<noteq> a" using S hget_set [OF w(1)] by (auto simp: starved_def list_all_iff)
    moreover obtain wk' where st: "cworker_step J now wev wk = Some wk'"
      using w(2) by (auto simp: cworker_act_step_def)
    moreover have "starved a (upd_cworker w (\<lambda>_. wk') S)"
      using S cworker_ids_step [OF st] calculation(1)
      by (auto simp: starved_def list_all_iff dest!: set_hupd split: if_splits)
    ultimately show ?thesis using w(2)
      by (auto simp: cworker_act_step_def Let_def intro!: starved_share)
  next
    case (kev_adder b i r)
    then obtain s where b: "hget (cl_shares S) b = Some s" "i < length (cs_adders s)" "S' = adder_step J cfg r b s i S"
      using act by (auto split: option.splits if_splits)
    then have "b \<noteq> a" using s by (auto simp: dry_def)
    then show ?thesis using S b(3)
      by (auto simp: adder_step_def adder_loop_def drop_adder_def set_adder_def cleanup_cworkers_def
          intro!: starved_share starved_add split: adder.split sum.split)
  next
    case (kev_resume b i)
    then have b: "S' = cshare_resume cfg now (cs_ready s ! i) b (upd_cshare b (\<lambda>s. s\<lparr>cs_ready := remove_nth i (cs_ready s)\<rparr>) S)"
      "i < length (cs_ready s)" if "hget (cl_shares S) b = Some s" for s
      using act that by (auto split: if_splits)
    obtain s where hs: "hget (cl_shares S) b = Some s" using kev_resume act by (auto split: option.splits)
    have T: "starved a (upd_cshare b (\<lambda>s. s\<lparr>cs_ready := remove_nth i (cs_ready s)\<rparr>) S)"
      by (rule starved_share [OF S]) (rule dry_ready)
    have "case cs_ready s ! i of wait_done h v \<Rightarrow> False | _ \<Rightarrow> True" if "b = a"
      using s [of s] hs that nth_mem [OF b(2) [OF hs]] by (auto simp: dry_def list_all_iff)
    then have wt: "case cs_ready s ! i of wait_done h v \<Rightarrow> b \<noteq> a | _ \<Rightarrow> True"
      by (cases "cs_ready s ! i") auto
    have res: "starved a (upd_cworker w (resume_provide now q) T')" if "starved a T'" for w q T'
      by (rule starved_worker [OF that]) (simp add: resume_provide_def cworker_on_provided_def split: sum.split)
    show ?thesis
      unfolding b(1) [OF hs] using T wt
      by (cases "(cfg, now, cs_ready s ! i, b, upd_cshare b (\<lambda>s. s\<lparr>cs_ready := remove_nth i (cs_ready s)\<rparr>) S)"
          rule: cshare_resume.cases) (auto intro!: starved_share res)
  next
    case (kev_closure b i)
    then obtain t where t: "hget (cl_shares S) b = Some t" "i < length (cs_posted t)" "S' = upd_cshare b (cshare_run_closure i) S"
      using act by (auto split: option.splits if_splits)
    then show ?thesis using S dry_closure s by (auto simp: starved_def split: option.splits)
  qed (use S act main in \<open>auto intro!: starved_share split: option.splits if_splits\<close>)
qed

text \<open>
  Property C29 (safety): a share that has lost its workers never gets new ones.  Workers are only added
  at the start and after the forwarder was given a connection, which needs a worker: a
  share whose workers all ended by errors stays without, while the client runs on.
\<close>

theorem starved_share_stays:
  assumes "boost_json J" "map_ok (cc_tcp_shares cfg)" "client_reachable J cfg S" "starved a S"
    and "client_steps J cfg evs S = Some S'"
  shows "starved a S' \<and> (case hget (cl_shares S') a of Some s \<Rightarrow> cs_nr s = 0 | None \<Rightarrow> True)"
proof -
  have "client_steps J cfg evs T = Some S' \<Longrightarrow> starved a T \<Longrightarrow> starved a S'" for T
  proof (induction evs arbitrary: T)
    case (Cons p evs)
    then show ?case
      by (cases p) (auto simp: client_step_def simp del: client_act.simps split: option.splits dest: starved_act starved_collect)
  qed simp
  then have st: "starved a S'" using assms(4,5) by blast
  have inv: "client_inv S'" by (rule client_reachable_inv [OF assms(1,2) client_reachable_steps [OF assms(3,5)]])
  have none: "{w. \<exists>i. wview S' w = Some (a, i)} = {}"
    using st by (auto simp: starved_def list_all_iff wview_def dest!: hget_set)
  have "cs_nr s = 0" if "hget (cl_shares S') a = Some s" for s
    using inv shapeD(4) [of "cl_next S'" "kc_shares S'" "wview S'" "sview S'" a "cs_id s" "cs_workers s" "cs_next_id s" "cs_nr s"]
      that none by (simp add: client_inv_def client_shape_def sview_def)
  then show ?thesis using st by (simp split: option.split)
qed

theorem starved_share_stays_witness:
  "\<exists>S S'. client_steps plain_json demo_config demo_loss demo_client = Some S \<and>
    client_steps plain_json demo_config [(21, kev_read (Inr (msg_json M_pong)))] S = Some S' \<and> starved 0 S'"
proof -
  obtain S s S' where S: "client_steps plain_json demo_config demo_loss demo_client = Some S" "hget (cl_shares S) 0 = Some s"
    "cl_workers S = []" "cs_adders s = []" "cs_wq s = \<lparr>wq_q = [g_forward], wq_vq = [], wq_closed = False\<rparr>"
    "cs_posted s = []" "cs_ready s = []" "kc_main S = kc_reading"
    "client_steps plain_json demo_config [(21, kev_read (Inr (msg_json M_pong)))] S = Some S'"
    using demo_lost by blast
  have "starved 0 S" using S(2-8) by (simp add: starved_def dry_def)
  then show ?thesis
    using starved_share_stays [OF boost_json_plain demo_config_ok client_reachable_steps [OF demo_reachable S(1)] _ S(9)]
      S(1,9) by blast
qed

end
