(* ===== verification/File.thy ===== *)
theory File
  imports Config
begin

text \<open>
  The file wrapper (\<open>include/zrp/file.hpp\<close>), \<open>parse_file\<close> (\<open>include/zrp/json_misc.hpp\<close>), and the
  part of both \<open>load_config\<close> functions (\<open>client.hpp\<close>, \<open>server.hpp\<close>) that reads the configuration.

  A \<open>FILE*\<close> is a number; the set of the numbers that are open is the world.  What
  \<open>fopen\<close>, \<open>fseek\<close> and \<open>ftell\<close> answer is an argument.  Reading goes through the functions of the
  C library in \<open>stdio_lib\<close>, whose documented behaviour on a readable file is \<open>c_stdio\<close>.
\<close>

section \<open>The file object\<close>

record file_obj =
  fl_f :: "nat option"
  fl_size :: int

record open_answers =
  oa_fopen :: "nat option"
  oa_seek_end :: bool
  oa_tell :: int
  oa_seek_set :: bool
  oa_errno :: nat

definition file_default :: file_obj where
  "file_default = \<lparr>fl_f = None, fl_size = 0\<rparr>"

definition file_close :: "file_obj \<Rightarrow> nat set \<Rightarrow> file_obj \<times> nat set" where
  "file_close f opened =
    (case fl_f f of
      Some h \<Rightarrow> (\<lparr>fl_f = None, fl_size = 0\<rparr>, opened - {h})
    | None \<Rightarrow> (f, opened))"

text \<open>\<open>fail\<close> makes an error code of \<open>errno\<close>; a code of nought is no error.\<close>

definition file_fail :: "nat \<Rightarrow> exn option" where
  "file_fail errno = (if errno = 0 then None else Some (system_error (ec_other errno)))"

text \<open>\<open>open(path, mode, ec)\<close>: the error code, the object and the world.\<close>

definition file_open_ec :: "open_answers \<Rightarrow> file_obj \<Rightarrow> nat set \<Rightarrow> exn option \<times> file_obj \<times> nat set" where
  "file_open_ec a f opened =
    (let (f, opened) = file_close f opened;
         f = f\<lparr>fl_f := oa_fopen a\<rparr>
     in case oa_fopen a of
          None \<Rightarrow> (file_fail (oa_errno a), f, opened)
        | Some h \<Rightarrow>
            (let opened = insert h opened in
             if \<not> oa_seek_end a then (file_fail (oa_errno a), f, opened)
             else if oa_tell a = -1 then (file_fail (oa_errno a), f\<lparr>fl_size := 0\<rparr>, opened)
             else if \<not> oa_seek_set a then (file_fail (oa_errno a), f\<lparr>fl_size := oa_tell a\<rparr>, opened)
             else (None, f\<lparr>fl_size := oa_tell a\<rparr>, opened)))"

text \<open>\<open>open(path, mode)\<close> throws; the object keeps what was done to it.\<close>

definition file_open :: "open_answers \<Rightarrow> file_obj \<Rightarrow> nat set \<Rightarrow> unit res \<times> file_obj \<times> nat set" where
  "file_open a f opened =
    (case file_open_ec a f opened of
      (Some e, f, opened) \<Rightarrow> (Inl e, f, opened)
    | (None, f, opened) \<Rightarrow> (Inr (), f, opened))"

text \<open>The destructor, and the constructor that opens: when it throws there is no object, and
  no destructor is run for it.\<close>

definition file_destroy :: "file_obj \<Rightarrow> nat set \<Rightarrow> nat set" where
  "file_destroy f opened = (case fl_f f of Some h \<Rightarrow> opened - {h} | None \<Rightarrow> opened)"

definition file_construct :: "open_answers \<Rightarrow> nat set \<Rightarrow> file_obj res \<times> nat set" where
  "file_construct a opened =
    (case file_open a file_default opened of
      (Inl e, f, opened) \<Rightarrow> (Inl e, opened)
    | (Inr _, f, opened) \<Rightarrow> (Inr f, opened))"

text \<open>The new object and the one it was moved from.\<close>

definition file_move :: "file_obj \<Rightarrow> file_obj \<times> file_obj" where
  "file_move other = (\<lparr>fl_f = fl_f other, fl_size = 0\<rparr>, other\<lparr>fl_f := None\<rparr>)"

definition file_move_assign :: "file_obj \<Rightarrow> file_obj \<Rightarrow> nat set \<Rightarrow> file_obj \<times> file_obj \<times> nat set" where
  "file_move_assign f other opened =
    (let (f, opened) = file_close f opened in (f\<lparr>fl_f := fl_f other\<rparr>, other\<lparr>fl_f := None\<rparr>, opened))"

section \<open>Reading\<close>

record 's stdio_lib =
  c_feof :: "'s \<Rightarrow> bool"
  c_fread :: "'s \<Rightarrow> nat \<Rightarrow> byte list \<times> 's"
  c_ferror :: "'s \<Rightarrow> bool"
  c_errno :: "'s \<Rightarrow> nat"

definition file_size :: "file_obj \<Rightarrow> int" where
  "file_size f = fl_size f"

definition file_eof :: "'s stdio_lib \<Rightarrow> 's \<Rightarrow> bool" where
  "file_eof L s \<longleftrightarrow> c_feof L s"

text \<open>\<open>read(data, size, ec)\<close>: the error code, the bytes and the stream; and the one that throws.\<close>

definition file_read_ec :: "'s stdio_lib \<Rightarrow> 's \<Rightarrow> nat \<Rightarrow> exn option \<times> byte list \<times> 's" where
  "file_read_ec L s n =
    (let (data, s) = c_fread L s n in (if c_ferror L s then file_fail (c_errno L s) else None, data, s))"

definition file_read :: "'s stdio_lib \<Rightarrow> 's \<Rightarrow> nat \<Rightarrow> (byte list \<times> 's) res" where
  "file_read L s n =
    (case file_read_ec L s n of
      (Some e, data, s) \<Rightarrow> Inl e
    | (None, data, s) \<Rightarrow> Inr (data, s))"

text \<open>
  Documented behaviour of \<open>fread\<close> and \<open>feof\<close> on a file that can be read: the next bytes, as
  many as asked for unless fewer are left; the end is noticed by the read that comes short.
\<close>

definition c_stdio :: "'s stdio_lib \<Rightarrow> ('s \<Rightarrow> byte list) \<Rightarrow> bool" where
  "c_stdio L rest \<longleftrightarrow>
    (\<forall>s n. \<not> c_feof L s \<longrightarrow> 0 < n \<longrightarrow>
      (\<exists>s'. c_fread L s n = (take n (rest s), s') \<and> \<not> c_ferror L s' \<and> rest s' = drop n (rest s) \<and>
        (c_feof L s' \<longleftrightarrow> length (rest s) < n)))"

text \<open>The loop of \<open>parse_file\<close>; the parser is the list of the blocks written to it.\<close>

partial_function (option) parse_loop ::
  "'s stdio_lib \<Rightarrow> json_lib \<Rightarrow> 's \<Rightarrow> string list \<Rightarrow> string list res option"
where
  "parse_loop L J s p =
    (if file_eof L s then Some (Inr p)
     else
       (case file_read L s 4096 of
         Inl e \<Rightarrow> Some (Inl e)
       | Inr (buf, s') \<Rightarrow>
           (case p_write J p (string_of buf) of
             Inl e \<Rightarrow> Some (Inl e)
           | Inr _ \<Rightarrow> parse_loop L J s' (p @ [string_of buf]))))"

text \<open>\<open>r\<close> is the stream of the file that was opened, or what its constructor threw.\<close>

definition parse_file :: "'s stdio_lib \<Rightarrow> json_lib \<Rightarrow> 's res \<Rightarrow> json res option" where
  "parse_file L J r =
    (case r of
      Inl e \<Rightarrow> Some (Inl e)
    | Inr s \<Rightarrow>
        (case parse_loop L J s [] of
          None \<Rightarrow> None
        | Some (Inl e) \<Rightarrow> Some (Inl e)
        | Some (Inr p) \<Rightarrow> Some (ebind (p_finish J p) (\<lambda>_. p_release J p))))"

definition load_client_config :: "'s stdio_lib \<Rightarrow> json_lib \<Rightarrow> 's res \<Rightarrow> client_config res option" where
  "load_client_config L J r =
    map_option (\<lambda>jv. ebind jv (client_config_of_json J)) (parse_file L J r)"

text \<open>The server also needs the address of \<open>sharing_host\<close>: \<open>from_string\<close> may throw.\<close>

definition load_server_config ::
  "'s stdio_lib \<Rightarrow> json_lib \<Rightarrow> (string \<Rightarrow> 'addr res) \<Rightarrow> 's res \<Rightarrow> (server_config \<times> 'addr \<times> string) res option" where
  "load_server_config L J from_string r =
    map_option (\<lambda>jv. ebind jv (\<lambda>jv. ebind (server_config_of_json J jv) (\<lambda>cfg.
      ebind (from_string (sc_sharing_host cfg)) (\<lambda>host. Inr (cfg, host, sc_welcome cfg)))))
      (parse_file L J r)"

section \<open>Lemmas\<close>

lemma parse_loop_eof: "file_eof L s \<Longrightarrow> parse_loop L J s p = Some (Inr p)"
  by (simp add: parse_loop.simps)

lemma parse_loop_step:
  "\<not> file_eof L s \<Longrightarrow> parse_loop L J s p =
    (case file_read L s 4096 of
      Inl e \<Rightarrow> Some (Inl e)
    | Inr (buf, s') \<Rightarrow>
        (case p_write J p (string_of buf) of
          Inl e \<Rightarrow> Some (Inl e)
        | Inr _ \<Rightarrow> parse_loop L J s' (p @ [string_of buf])))"
  by (subst parse_loop.simps) simp

lemma c_stdioD:
  assumes "c_stdio L rest" "\<not> file_eof L s"
  shows "\<exists>s'. file_read L s 4096 = Inr (take 4096 (rest s), s') \<and> rest s' = drop 4096 (rest s) \<and>
    (file_eof L s' \<longleftrightarrow> length (rest s) < 4096)"
proof -
  obtain s' where s': "c_fread L s 4096 = (take 4096 (rest s), s')" "\<not> c_ferror L s'" "rest s' = drop 4096 (rest s)"
    "c_feof L s' \<longleftrightarrow> length (rest s) < 4096"
    using assms unfolding c_stdio_def file_eof_def by (metis zero_less_numeral)
  then show ?thesis by (simp add: file_read_def file_read_ec_def file_eof_def)
qed

text \<open>The loop hands the parser the whole text; a text of a multiple of 4096 bytes ends with
  an empty block.\<close>

lemma parse_loop_reads:
  assumes L: "c_stdio L rest" and J: "reads_back J v"
    and "\<not> file_eof L s" "concat p @ string_of (rest s) = serialize J v"
  shows "\<exists>p'. parse_loop L J s p = Some (Inr p') \<and> concat p' = serialize J v"
  using assms(3,4)
proof (induction "length (rest s)" arbitrary: s p rule: less_induct)
  case less
  obtain s' where s': "file_read L s 4096 = Inr (take 4096 (rest s), s')" "rest s' = drop 4096 (rest s)"
    "file_eof L s' \<longleftrightarrow> length (rest s) < 4096"
    using c_stdioD [OF L less.prems(1)] by blast
  let ?b = "string_of (take 4096 (rest s))"
  have cut: "string_of (rest s) = ?b @ string_of (drop 4096 (rest s))"
    by (simp flip: string_of_append)
  have "concat (p @ ?b # [string_of (drop 4096 (rest s))]) = serialize J v"
    using less.prems(2) cut by simp
  then have w: "p_write J p ?b = Inr ()"
    using J unfolding reads_back_def by blast
  have step: "parse_loop L J s p = parse_loop L J s' (p @ [?b])"
    using less.prems(1) by (simp add: parse_loop_step s'(1) w)
  show ?case
  proof (cases "file_eof L s'")
    case True
    then have "rest s' = []" using s' by simp
    then have "string_of (drop 4096 (rest s)) = []" using s'(2) by simp
    then have "concat (p @ [?b]) = serialize J v" using less.prems(2) cut by simp
    moreover have "parse_loop L J s p = Some (Inr (p @ [?b]))" using True step by (simp add: parse_loop_eof)
    ultimately show ?thesis by blast
  next
    case False
    then have "length (rest s') < length (rest s)" using s' by simp
    then show ?thesis
      using less.hyps [OF _ False, of "p @ [?b]"] step less.prems(2) cut s'(2) by (metis append_assoc concat_append concat.simps append_Nil2)
  qed
qed

lemma parse_file_reads:
  assumes "c_stdio L rest" "reads_back J v" "\<not> file_eof L s" "string_of (rest s) = serialize J v"
  shows "parse_file L J (Inr s) = Some (Inr (norm v))"
proof -
  obtain p where p: "parse_loop L J s [] = Some (Inr p)" "concat p = serialize J v"
    using parse_loop_reads [OF assms(1-3), of "[]"] assms(4) by auto
  then have "p_finish J p = Inr ()" "p_release J p = Inr (norm v)"
    using assms(2) unfolding reads_back_def by blast+
  then show ?thesis by (simp add: parse_file_def p(1))
qed

text \<open>The loop returns on every file that can be read, whatever the parser says of it.\<close>

lemma parse_loop_returns:
  assumes L: "c_stdio L rest"
  shows "\<exists>r. parse_loop L J s p = Some r"
proof (induction "length (rest s)" arbitrary: s p rule: less_induct)
  case less
  show ?case
  proof (cases "file_eof L s")
    case False
    obtain s' where s': "file_read L s 4096 = Inr (take 4096 (rest s), s')" "rest s' = drop 4096 (rest s)"
      "file_eof L s' \<longleftrightarrow> length (rest s) < 4096"
      using c_stdioD [OF L False] by blast
    have "\<exists>r. parse_loop L J s' q = Some r" for q
    proof (cases "file_eof L s'")
      case False
      then have "length (rest s') < length (rest s)" using s' by simp
      then show ?thesis by (rule less.hyps)
    qed (simp add: parse_loop_eof)
    then show ?thesis using False by (simp add: parse_loop_step s'(1) split: sum.split)
  qed (simp add: parse_loop_eof)
qed

text \<open>A moved file is open and says its size is nought.\<close>

lemma moved_file_forgets_size:
  "fl_f (fst (file_move f)) = fl_f f \<and> file_size (fst (file_move f)) = 0"
  by (simp add: file_move_def file_size_def)

text \<open>An error that \<open>errno\<close> does not name is no error: a read that failed so gives what it has.\<close>

lemma read_error_reported:
  "c_fread L s n = (data, s') \<Longrightarrow> c_ferror L s' \<Longrightarrow>
    file_read L s n = (if c_errno L s' = 0 then Inr (data, s') else Inl (system_error (ec_other (c_errno L s'))))"
  by (simp add: file_read_def file_read_ec_def file_fail_def)

section \<open>Properties\<close>

text \<open>A file in memory, for the witnesses: what is left of it and whether the end was noticed.\<close>

definition mem_stdio :: "(byte list \<times> bool) stdio_lib" where
  "mem_stdio = \<lparr>c_feof = snd, c_fread = (\<lambda>(bs, e) n. (take n bs, (drop n bs, length bs < n))),
     c_ferror = (\<lambda>_. False), c_errno = (\<lambda>_. 0)\<rparr>"

lemma c_stdio_mem: "c_stdio mem_stdio fst"
  by (auto simp: c_stdio_def mem_stdio_def)


text \<open>The library whose texts are one letter, for these two configurations.\<close>

definition letter_json :: json_lib where
  "letter_json =
    (let J = std_json (\<lambda>_. []) (\<lambda>_. Inr JNull);
         v = client_config_to_json J client_example; v' = server_config_to_json J server_example
     in std_json (\<lambda>x. if x = v then ''c'' else ''s'') (\<lambda>t. Inr (norm (if t = ''c'' then v else v'))))"

lemma config_to_json_std:
  "client_config_to_json (std_json a b) c = client_config_to_json (std_json a' b') c"
  "server_config_to_json (std_json a b) c' = server_config_to_json (std_json a' b') c'"
  by (simp_all add: client_config_to_json_def server_config_to_json_def smap_to_json_def
      tcp_share_cfg_to_json_def std_json_def)

lemma letter_json_reads:
  "boost_json letter_json" "reads_back letter_json (client_config_to_json letter_json client_example)"
  "reads_back letter_json (server_config_to_json letter_json server_example)"
  "serialize letter_json (client_config_to_json letter_json client_example) = ''c''"
proof -
  define J where "J = std_json (\<lambda>_. []) (\<lambda>_. Inr JNull)"
  define v where "v = client_config_to_json J client_example"
  define v' where "v' = server_config_to_json J server_example"
  have L: "letter_json = std_json (\<lambda>x. if x = v then ''c'' else ''s'') (\<lambda>t. Inr (norm (if t = ''c'' then v else v')))"
    by (simp only: letter_json_def v_def v'_def J_def Let_def)
  have vv: "client_config_to_json letter_json client_example = v" "server_config_to_json letter_json server_example = v'"
    unfolding L v_def v'_def J_def by (rule config_to_json_std)+
  have "v \<noteq> v'" by (simp add: v_def v'_def J_def client_config_to_json_def server_config_to_json_def std_json_def)
  then show "reads_back letter_json (server_config_to_json letter_json server_example)"
    unfolding vv unfolding L by (intro reads_back_std) simp
  show "boost_json letter_json" "reads_back letter_json (client_config_to_json letter_json client_example)"
    unfolding vv unfolding L by (simp, intro reads_back_std, simp)
  show "serialize letter_json (client_config_to_json letter_json client_example) = ''c''"
    unfolding vv unfolding L by (simp add: std_json_def)
qed


text \<open>
  When the constructor of a file throws after \<open>fopen\<close> succeeded, the
  \<open>FILE*\<close> stays open for ever; in every other case exactly the handle that the object
  holds was added, and its destruction closes it.
\<close>

theorem file_constructor_leaks:
  assumes "oa_fopen a = Some h" "h \<notin> opened" "oa_errno a \<noteq> 0"
  shows "(\<not> oa_seek_end a \<or> oa_tell a = -1 \<or> \<not> oa_seek_set a \<longrightarrow>
      file_construct a opened = (Inl (system_error (ec_other (oa_errno a))), insert h opened)) \<and>
    (oa_seek_end a \<and> oa_tell a \<noteq> -1 \<and> oa_seek_set a \<longrightarrow>
      (\<exists>f. file_construct a opened = (Inr f, insert h opened) \<and> fl_size f = oa_tell a \<and>
        file_destroy f (insert h opened) = opened))"
  using assms
  by (auto simp: file_construct_def file_open_def file_open_ec_def file_close_def file_default_def
      file_fail_def file_destroy_def Let_def)

theorem file_constructor_leaks_witness:
  "file_construct \<lparr>oa_fopen = Some 3, oa_seek_end = False, oa_tell = 0, oa_seek_set = True, oa_errno = 29\<rparr> {0, 1, 2} =
    (Inl (system_error (ec_other 29)), {3, 0, 1, 2})"
  using file_constructor_leaks
    [of "\<lparr>oa_fopen = Some 3, oa_seek_end = False, oa_tell = 0, oa_seek_set = True, oa_errno = 29\<rparr>" 3 "{0, 1, 2}"]
  by simp

end
