(* ===== verification/Args.thy ===== *)
theory Args
  imports Exceptions
begin

text \<open>
  The command line and the environment (\<open>include/zrp/args.hpp\<close>).  The inline variables of
  the header are one record; a function that throws returns the exception together with
  the state it leaves.
\<close>

section \<open>State\<close>

datatype program_action = act_run | act_dump_config | act_help

record args_state =
  program_action :: program_action
  program_name :: string
  config_file_path :: string
  dump_full :: bool
  with_color :: bool
  show_trace :: bool
  show_debug :: bool

text \<open>The initial values; \<open>msvc\<close> is whether \<open>_MSC_VER\<close> is defined.\<close>

definition args_init :: "bool \<Rightarrow> args_state" where
  "args_init msvc =
    \<lparr>program_action = act_help, program_name = '''', config_file_path = ''config.json'', dump_full = False,
     with_color = \<not> msvc, show_trace = False, show_debug = False\<rparr>"

section \<open>Operations\<close>

text \<open>\<open>env\<close> is whether \<open>getenv\<close> finds a variable.\<close>

definition parse_env :: "bool \<Rightarrow> (string \<Rightarrow> bool) \<Rightarrow> args_state \<Rightarrow> args_state" where
  "parse_env msvc env s =
    (let s = (if msvc then (if env ''ZRP_FORCECOLOR'' then s\<lparr>with_color := False\<rparr> else s)
              else (if env ''ZRP_NOCOLOR'' then s\<lparr>with_color := False\<rparr> else s));
         s = (if env ''ZRP_TRACE'' then s\<lparr>show_trace := True\<rparr> else s)
     in if env ''ZRP_DEBUG'' then s\<lparr>show_trace := True, show_debug := True\<rparr> else s)"

definition parse_run_args :: "string list \<Rightarrow> args_state \<Rightarrow> unit res \<times> args_state" where
  "parse_run_args args s =
    (if length args > 1 then (Inl bad_args, s)
     else if length args = 1 then (Inr (), s\<lparr>config_file_path := args ! 0\<rparr>)
     else (Inr (), s))"

fun parse_dump_config_args :: "string list \<Rightarrow> args_state \<Rightarrow> unit res \<times> args_state" where
  "parse_dump_config_args [] s = (Inr (), s)"
| "parse_dump_config_args (it # rest) s =
     (if it = ''--full'' then parse_dump_config_args rest (s\<lparr>dump_full := True\<rparr>)
      else (Inl bad_args, s))"

definition parse_args :: "string list \<Rightarrow> args_state \<Rightarrow> unit res \<times> args_state" where
  "parse_args args s =
    (if length args < 1 then (Inl bad_args, s)
     else
       (let s = s\<lparr>program_name := args ! 0\<rparr> in
        if length args < 2 then (Inl bad_args, s)
        else if args ! 1 = ''run'' then parse_run_args (drop 2 args) (s\<lparr>program_action := act_run\<rparr>)
        else if args ! 1 = ''dump_config''
        then parse_dump_config_args (drop 2 args) (s\<lparr>program_action := act_dump_config\<rparr>)
        else if args ! 1 = ''help'' then (Inr (), s\<lparr>program_action := act_help\<rparr>)
        else (Inl bad_args, s)))"

text \<open>The lines of \<open>print_usage\<close>.\<close>

definition usage :: "bool \<Rightarrow> args_state \<Rightarrow> string list" where
  "usage msvc s =
    [''usage : '' @ program_name s @ '' run/dump_config/help [...]'',
     '''',
     ''    run [path/to/config.json]    run the program'',
     ''    dump_config [--full]         dump the example config'',
     ''    help                         show this message'',
     '''',
     ''supported envs:'',
     (if msvc then ''    ZRP_FORCECOLOR               output ANSI escape sequences even on windows''
      else ''    ZRP_NOCOLOR                  not to add color or styling escape sequences''),
     ''    ZRP_TRACE                    show logs at level TRAC'',
     ''    ZRP_DEBUG                    show logs at level DEBG and TRAC'',
     '''']"

section \<open>Lemmas\<close>

lemma dump_args_result:
  "parse_dump_config_args args s =
    (if list_all (\<lambda>a. a = ''--full'') args
     then (Inr (), if args = [] then s else s\<lparr>dump_full := True\<rparr>)
     else (Inl bad_args, if hd args = ''--full'' then s\<lparr>dump_full := True\<rparr> else s))"
proof (induction args s rule: parse_dump_config_args.induct)
  case (2 it rest s)
  then show ?case by (cases rest) auto
qed simp

text \<open>The variable that the usage text offers for colours on Windows never turns them on.\<close>

lemma forcecolor_never_colours: "\<not> with_color (parse_env True env (args_init True))"
  by (simp add: parse_env_def args_init_def Let_def)

section \<open>Properties\<close>

text \<open>The command lines of the usage text, each with the action, path and kind of dump it asks for.\<close>

inductive documented_command :: "string list \<Rightarrow> program_action \<Rightarrow> string \<Rightarrow> bool \<Rightarrow> bool" where
  "documented_command [''run''] act_run ''config.json'' False"
| "documented_command [''run'', path] act_run path False"
| "documented_command [''dump_config''] act_dump_config ''config.json'' False"
| "documented_command [''dump_config'', ''--full''] act_dump_config ''config.json'' True"
| "documented_command [''help''] act_help ''config.json'' False"

text \<open>The command lines that the usage text does not mention and that are accepted all the same.\<close>

inductive tolerated_command :: "string list \<Rightarrow> program_action \<Rightarrow> string \<Rightarrow> bool \<Rightarrow> bool" where
  "tolerated_command (''dump_config'' # ''--full'' # ''--full'' # replicate n ''--full'') act_dump_config ''config.json'' True"
| "tolerated_command (''help'' # word # words) act_help ''config.json'' False"

inductive_simps command_simps:
  "documented_command [] a p d" "documented_command (c # rest) a p d"
  "tolerated_command [] a p d" "tolerated_command (c # rest) a p d"

lemma ex_replicate: "(\<exists>n. xs = replicate n x) \<longleftrightarrow> list_all (\<lambda>a. a = x) xs"
  by (auto simp: list_all_iff) (metis replicate_eqI)

lemma tolerated_iff:
  "tolerated_command (c # rest) a p d \<longleftrightarrow>
    (c = ''dump_config'' \<and> a = act_dump_config \<and> p = ''config.json'' \<and> d \<and> length rest > 1 \<and>
      list_all (\<lambda>a. a = ''--full'') rest) \<or>
    (c = ''help'' \<and> a = act_help \<and> p = ''config.json'' \<and> \<not> d \<and> rest \<noteq> [])"
proof -
  have "(\<exists>n. rest = ''--full'' # ''--full'' # replicate n ''--full'') \<longleftrightarrow>
      length rest > 1 \<and> list_all (\<lambda>a. a = ''--full'') rest"
    by (cases rest; cases "tl rest") (auto simp: ex_replicate)
  then show ?thesis by (auto simp: command_simps neq_Nil_conv)
qed

lemma documented_not_tolerated: "documented_command cmd a p d \<Longrightarrow> \<not> tolerated_command cmd a' p' d'"
  by (cases cmd) (auto simp: command_simps tolerated_iff)

lemma accepted_iff:
  "documented_command (c # rest) a p d \<or> tolerated_command (c # rest) a p d \<longleftrightarrow>
    (c = ''run'' \<and> a = act_run \<and> \<not> d \<and> (rest = [] \<and> p = ''config.json'' \<or> rest = [p])) \<or>
    (c = ''dump_config'' \<and> a = act_dump_config \<and> p = ''config.json'' \<and> list_all (\<lambda>a. a = ''--full'') rest \<and>
      d = (rest \<noteq> [])) \<or>
    (c = ''help'' \<and> a = act_help \<and> p = ''config.json'' \<and> \<not> d)"
  unfolding tolerated_iff command_simps by (cases rest; cases "tl rest") auto

lemma parse_accepted:
  assumes "config_file_path s = ''config.json''" "\<not> dump_full s" "program_action s = act_help"
  shows "parse_args (name # cmd) s =
      (Inr (), s\<lparr>program_name := name, program_action := a, config_file_path := p, dump_full := d\<rparr>) \<longleftrightarrow>
    documented_command cmd a p d \<or> tolerated_command cmd a p d"
proof (cases cmd)
  case Nil
  then show ?thesis by (simp add: parse_args_def command_simps)
next
  case (Cons c rest)
  obtain co tr db n where s: "s = \<lparr>program_action = act_help, program_name = n, config_file_path = ''config.json'',
      dump_full = False, with_color = co, show_trace = tr, show_debug = db\<rparr>"
    using assms by (cases s) auto
  consider "c = ''run''" | "c = ''dump_config''" | "c = ''help''" | "c \<noteq> ''run''" "c \<noteq> ''dump_config''" "c \<noteq> ''help''"
    by blast
  then show ?thesis
  proof cases
    case 1
    consider "rest = []" | q where "rest = [q]" | "length rest > 1" by (cases rest; cases "tl rest") auto
    then show ?thesis
      unfolding Cons accepted_iff using 1 by cases (auto simp: s parse_args_def parse_run_args_def)
  next
    case 2
    then show ?thesis
      unfolding Cons accepted_iff by (cases "list_all (\<lambda>a. a = ''--full'') rest"; cases "rest = []")
        (auto simp: s parse_args_def dump_args_result Let_def)
  qed (unfold Cons accepted_iff, auto simp: s parse_args_def)
qed

lemma parse_shape:
  assumes "config_file_path s = ''config.json''" "\<not> dump_full s" "program_action s = act_help"
  shows "fst (parse_args args s) = Inl bad_args \<or> (\<exists>name cmd a p d. args = name # cmd \<and> parse_args args s =
      (Inr (), s\<lparr>program_name := name, program_action := a, config_file_path := p, dump_full := d\<rparr>))"
proof -
  obtain co tr db n where s: "s = \<lparr>program_action = act_help, program_name = n, config_file_path = ''config.json'',
      dump_full = False, with_color = co, show_trace = tr, show_debug = db\<rparr>"
    using assms by (cases s) auto
  show ?thesis
    by (cases args; cases "tl args") (auto simp: s parse_args_def parse_run_args_def dump_args_result Let_def)
qed

lemma parse_refused:
  assumes "config_file_path s = ''config.json''" "\<not> dump_full s" "program_action s = act_help"
  shows "fst (parse_args args s) =
    (if \<exists>n c x q f. args = n # c \<and> (documented_command c x q f \<or> tolerated_command c x q f)
     then Inr () else Inl bad_args)"
proof (cases "\<exists>n c x q f. args = n # c \<and> (documented_command c x q f \<or> tolerated_command c x q f)")
  case True
  then obtain n c x q f where a: "args = n # c" "documented_command c x q f \<or> tolerated_command c x q f" by blast
  then show ?thesis using True iffD2 [OF parse_accepted [OF assms] a(2), of n] by simp
next
  case False
  then show ?thesis using parse_shape [OF assms, of args] parse_accepted [OF assms] by fastforce
qed

text \<open>
  Property C33 (functional): every command line of the usage text is parsed with the effect it documents.
  The action, the path of the configuration and the kind of dump become the documented ones and nothing
  else changes.  Besides, and this the usage text does not say, words after \<open>help\<close> are ignored
  and \<open>--full\<close> may be repeated; every other command line, the empty one included, is \<open>bad_args\<close>.
\<close>

theorem parse_args_follows_usage:
  "let s = parse_env msvc env (args_init msvc) in
    (parse_args (name # cmd) s =
        (Inr (), s\<lparr>program_name := name, program_action := a, config_file_path := p, dump_full := d\<rparr>) \<longleftrightarrow>
      documented_command cmd a p d \<or> tolerated_command cmd a p d) \<and>
    fst (parse_args args s) =
      (if \<exists>n c x q f. args = n # c \<and> (documented_command c x q f \<or> tolerated_command c x q f)
       then Inr () else Inl bad_args)"
proof -
  have "config_file_path (parse_env msvc env (args_init msvc)) = ''config.json''"
    "\<not> dump_full (parse_env msvc env (args_init msvc))" "program_action (parse_env msvc env (args_init msvc)) = act_help"
    by (simp_all add: parse_env_def args_init_def Let_def)
  then show ?thesis unfolding Let_def using parse_accepted parse_refused by blast
qed

end
