(* ===== verification/Log.thy ===== *)
theory Log
  imports Json Args
begin

text \<open>
  Logging (\<open>include/zrp/log.hpp\<close>): the tags, severities and thread roles with their texts,
  the message object, which prints itself when it is destroyed, and the logger that makes
  one.  What {fmt} makes of a number and of a time, and the text of a thread id, are
  arguments.  The other theories leave logging out: no state of theirs depends on it.
\<close>

section \<open>Tags, severities, roles\<close>

datatype log_tag =
  tag_forwarder string
| tag_pipe string cint
| tag_tcp_share_worker string cint
| tag_tcp_share string
| tag_controller string
| tag_server
| tag_client
| tag_main
| tag_msg
| tag_timeout

fun tag_string :: "(cint \<Rightarrow> string) \<Rightarrow> log_tag \<Rightarrow> string" where
  "tag_string fmt_int (tag_forwarder name) = ''forwarder:'' @ name"
| "tag_string fmt_int (tag_pipe forwarder_name i) = ''pipe:'' @ forwarder_name @ ''#'' @ fmt_int i"
| "tag_string fmt_int (tag_tcp_share_worker share_id i) = ''worker:'' @ share_id @ ''#'' @ fmt_int i"
| "tag_string fmt_int (tag_tcp_share share_id) = ''tcp_share:'' @ share_id"
| "tag_string fmt_int (tag_controller client_uuid) = ''controller:'' @ client_uuid"
| "tag_string fmt_int tag_server = ''server''"
| "tag_string fmt_int tag_client = ''client''"
| "tag_string fmt_int tag_main = ''main''"
| "tag_string fmt_int tag_msg = ''msg''"
| "tag_string fmt_int tag_timeout = ''timeout''"

datatype severity = sev_debug | sev_trace | sev_access | sev_info | sev_warning | sev_error

fun severity_string :: "severity \<Rightarrow> string" where
  "severity_string sev_debug = ''DEBG''"
| "severity_string sev_trace = ''TRAC''"
| "severity_string sev_access = ''ACCS''"
| "severity_string sev_info = ''INFO''"
| "severity_string sev_warning = ''WARN''"
| "severity_string sev_error = ''ERRO''"

datatype thread_role = role_main | role_fwd_pool_worker cint | role_sigint_handler | role_unknown

text \<open>\<open>thread_id\<close> is what streaming \<open>get_id()\<close> writes.\<close>

fun role_string :: "(cint \<Rightarrow> string) \<Rightarrow> string \<Rightarrow> thread_role \<Rightarrow> string" where
  "role_string fmt_int thread_id role_main = ''MAIN''"
| "role_string fmt_int thread_id (role_fwd_pool_worker nr) = ''FWD'' @ fmt_int nr"
| "role_string fmt_int thread_id role_sigint_handler = ''SIGH''"
| "role_string fmt_int thread_id role_unknown = ''TID:'' @ thread_id"

section \<open>Messages\<close>

record log_message =
  lm_time :: nat
  lm_severity :: severity
  lm_tag :: log_tag
  lm_msg :: string
  lm_fired :: bool

text \<open>What a message finds around it when it fires.\<close>

record log_env =
  le_fmt_int :: "cint \<Rightarrow> string"
  le_fmt_time :: "nat \<Rightarrow> string"
  le_thread_id :: string
  le_role :: thread_role

text \<open>\<open>message() = default\<close> leaves the severity indeterminate; \<open>gen\<close>, its only use, sets it.\<close>

definition message_default :: log_message where
  [simp]: "message_default =
    \<lparr>lm_time = 0, lm_severity = sev_debug, lm_tag = tag_main, lm_msg = [], lm_fired = False\<rparr>"

text \<open>The new object, and what is left of the one it was moved from.\<close>

definition message_move :: "log_message \<Rightarrow> log_message \<times> log_message" where
  "message_move m = (m, m\<lparr>lm_fired := True\<rparr>)"

definition message_move_assign :: "log_message \<Rightarrow> log_message \<Rightarrow> log_message \<times> log_message" where
  "message_move_assign old m =
    (old\<lparr>lm_time := lm_time m, lm_severity := lm_severity m, lm_tag := lm_tag m, lm_msg := lm_msg m,
         lm_fired := lm_fired m\<rparr>, m\<lparr>lm_fired := True\<rparr>)"

definition message_line :: "bool \<Rightarrow> log_env \<Rightarrow> log_message \<Rightarrow> printed" where
  "message_line col E m =
    (let time_style = [fg ''bright_blue''];
         trole_style = [fg ''yellow''];
         tag_style = [fg ''blue''];
         (severity_style, msg_style) =
           (if lm_severity m = sev_error then ([bold, fg ''red''], [fg ''red''])
            else if lm_severity m = sev_warning then ([fg ''yellow''], [])
            else if lm_severity m = sev_info then ([fg ''cyan''], [])
            else if lm_severity m = sev_access then ([fg ''green''], [])
            else ([], []))
     in [([], ''[''), (may col time_style, le_fmt_time E (lm_time m)),
         ([], ''][''), (may col trole_style, role_string (le_fmt_int E) (le_thread_id E) (le_role E)),
         ([], ''][''), (may col severity_style, severity_string (lm_severity m)),
         ([], '']<''), (may col tag_style, tag_string (le_fmt_int E) (lm_tag m)),
         ([], ''>: ''), (may col msg_style, lm_msg m), ([], ''\<newline>'')])"

text \<open>\<open>fire\<close>: the lines printed, none or one, and the object after it.\<close>

definition message_fire :: "args_state \<Rightarrow> log_env \<Rightarrow> log_message \<Rightarrow> printed list \<times> log_message" where
  "message_fire A E m =
    (if \<not> show_trace A \<and> lm_severity m = sev_trace then ([], m)
     else if \<not> show_debug A \<and> lm_severity m = sev_debug then ([], m)
     else ([message_line (with_color A) E m], m\<lparr>lm_fired := True\<rparr>))"

definition message_destroy :: "args_state \<Rightarrow> log_env \<Rightarrow> log_message \<Rightarrow> printed list" where
  "message_destroy A E m = (if \<not> lm_fired m then fst (message_fire A E m) else [])"

text \<open>The members that set a part of a message.\<close>

definition message_time :: "nat \<Rightarrow> log_message \<Rightarrow> log_message" where
  [simp]: "message_time t m = m\<lparr>lm_time := t\<rparr>"

definition message_severity :: "severity \<Rightarrow> log_message \<Rightarrow> log_message" where
  [simp]: "message_severity s m = m\<lparr>lm_severity := s\<rparr>"

definition message_tag :: "log_tag \<Rightarrow> log_message \<Rightarrow> log_message" where
  [simp]: "message_tag t m = m\<lparr>lm_tag := t\<rparr>"

definition message_msg :: "string \<Rightarrow> log_message \<Rightarrow> log_message" where
  [simp]: "message_msg s m = m\<lparr>lm_msg := s\<rparr>"

definition msg_append :: "string \<Rightarrow> log_message \<Rightarrow> log_message" where
  "msg_append s m = m\<lparr>lm_msg := lm_msg m @ s\<rparr>"

definition with_exception :: "string \<Rightarrow> log_message \<Rightarrow> log_message" where
  "with_exception what m = msg_append what m"

text \<open>
  \<open>logger::gen\<close>: the message that is returned, and what the destruction of the moved-from
  local prints.
\<close>

definition logger_gen ::
  "args_state \<Rightarrow> log_env \<Rightarrow> severity \<Rightarrow> nat \<Rightarrow> log_tag \<Rightarrow> string \<Rightarrow> log_message \<times> printed list" where
  "logger_gen A E sev now tag s =
    (let m = message_msg s (message_severity sev (message_tag tag (message_time now message_default)));
         (ret, m) = message_move m
     in (ret, message_destroy A E m))"

text \<open>
  A statement of the program, \<open>logger_.error(s)\<close> or \<open>logger_.error(s).with_exception(e)\<close>:
  the temporary is destroyed at its end.
\<close>

definition log_statement ::
  "args_state \<Rightarrow> log_env \<Rightarrow> severity \<Rightarrow> nat \<Rightarrow> log_tag \<Rightarrow> string \<Rightarrow> string option \<Rightarrow> printed list" where
  "log_statement A E sev now tag s what =
    (let (m, printed) = logger_gen A E sev now tag s;
         m = (case what of Some w \<Rightarrow> with_exception w m | None \<Rightarrow> m)
     in printed @ message_destroy A E m)"

section \<open>The life of a message\<close>

text \<open>
  The objects there are, \<open>None\<close> for one that was destroyed, and the lines printed so far.
  An object may be moved into a new one, moved into an old one, changed, fired, destroyed.
\<close>

datatype life_event =
  le_move nat
| le_assign nat nat
| le_append nat string
| le_fire nat
| le_destroy nat

type_synonym life = "log_message option list \<times> printed list"

definition obj :: "log_message option list \<Rightarrow> nat \<Rightarrow> log_message option" where
  "obj os i = (if i < length os then os ! i else None)"

fun life_step :: "args_state \<Rightarrow> log_env \<Rightarrow> life_event \<Rightarrow> life \<Rightarrow> life option" where
  "life_step A E (le_move i) (os, out) =
     (case obj os i of
       Some m \<Rightarrow> (let (new, old) = message_move m in Some (os[i := Some old] @ [Some new], out))
     | None \<Rightarrow> None)"
| "life_step A E (le_assign i j) (os, out) =
     (case (obj os i, obj os j) of
       (Some a, Some b) \<Rightarrow>
         if i = j then None
         else (let (a', b') = message_move_assign a b in Some (os[i := Some a', j := Some b'], out))
     | _ \<Rightarrow> None)"
| "life_step A E (le_append i s) (os, out) =
     (case obj os i of Some m \<Rightarrow> Some (os[i := Some (msg_append s m)], out) | None \<Rightarrow> None)"
| "life_step A E (le_fire i) (os, out) =
     (case obj os i of
       Some m \<Rightarrow> (let (ls, m') = message_fire A E m in Some (os[i := Some m'], out @ ls))
     | None \<Rightarrow> None)"
| "life_step A E (le_destroy i) (os, out) =
     (case obj os i of Some m \<Rightarrow> Some (os[i := None], out @ message_destroy A E m) | None \<Rightarrow> None)"

fun life_run :: "args_state \<Rightarrow> log_env \<Rightarrow> life_event list \<Rightarrow> life \<Rightarrow> life option" where
  "life_run A E [] l = Some l"
| "life_run A E (ev # evs) l = (case life_step A E ev l of None \<Rightarrow> None | Some l' \<Rightarrow> life_run A E evs l')"

text \<open>Whether \<open>fire\<close> prints a severity.\<close>

definition enabled :: "args_state \<Rightarrow> severity \<Rightarrow> bool" where
  "enabled A sev \<longleftrightarrow> (sev = sev_trace \<longrightarrow> show_trace A) \<and> (sev = sev_debug \<longrightarrow> show_debug A)"

definition unfired :: "log_message option list \<Rightarrow> nat" where
  "unfired os = length (filter (\<lambda>x. case x of Some m \<Rightarrow> \<not> lm_fired m | None \<Rightarrow> False) os)"

lemmas message_defs = message_move_def message_move_assign_def message_fire_def message_destroy_def
  msg_append_def enabled_def

definition live_unfired :: "log_message option \<Rightarrow> nat" where
  "live_unfired x = (case x of Some m \<Rightarrow> if lm_fired m then 0 else 1 | None \<Rightarrow> 0)"

lemma unfired_sum: "unfired os = sum_list (map live_unfired os)"
  by (induction os) (auto simp: unfired_def live_unfired_def split: option.splits)

lemma unfired_update:
  "i < length os \<Longrightarrow> unfired (os[i := x]) + live_unfired (os ! i) = unfired os + live_unfired x"
proof (induction os arbitrary: i)
  case (Cons y os)
  then show ?case by (cases i) (simp_all add: unfired_sum)
qed simp

lemma unfired_append: "unfired (os @ [x]) = unfired os + live_unfired x"
  by (simp add: unfired_sum)

text \<open>
  Every live object has the severity the message was made with, and the unfired objects
  and the lines printed are one together.
\<close>

definition life_inv :: "args_state \<Rightarrow> severity \<Rightarrow> life \<Rightarrow> bool" where
  [zrp_inv]: "life_inv A sev l \<longleftrightarrow> (\<forall>m. Some m \<in> set (fst l) \<longrightarrow> lm_severity m = sev) \<and>
    (if enabled A sev then unfired (fst l) + length (snd l) = 1 else snd l = [])"

text \<open>What the program does with a message: everything but assignment, and firing by hand.\<close>

fun plain_event :: "life_event \<Rightarrow> bool" where
  "plain_event (le_assign i j) \<longleftrightarrow> False"
| "plain_event (le_fire i) \<longleftrightarrow> False"
| "plain_event ev \<longleftrightarrow> True"

lemma life_step_inv:
  assumes "life_inv A sev l" "life_step A E ev l = Some l'" "plain_event ev"
  shows "life_inv A sev l'"
proof -
  obtain os out where l: "l = (os, out)" by (cases l)
  have sev: "obj os i = Some m \<Longrightarrow> i < length os \<and> os ! i = Some m \<and> lm_severity m = sev" for i m
    using assms(1) l by (auto simp: obj_def life_inv_def split: if_splits dest: nth_mem)
  have upd: "Some m \<in> set (os[i := x]) \<Longrightarrow> Some m \<in> set os \<or> Some m = x" for m i x
    using set_update_subset_insert [of os i x] by auto
  show ?thesis
  proof (cases ev)
    case (le_move i)
    then obtain m where m: "obj os i = Some m" using assms(2) l by (auto split: option.splits)
    then have l': "l' = (os[i := Some (m\<lparr>lm_fired := True\<rparr>)] @ [Some m], out)"
      using assms(2) l le_move by (simp add: message_move_def)
    have "unfired (fst l') = unfired os"
      using unfired_update [of i os "Some (m\<lparr>lm_fired := True\<rparr>)"] sev [OF m] l'
      by (simp add: unfired_append live_unfired_def)
    then show ?thesis using assms(1) l l' sev [OF m] by (auto simp: life_inv_def dest!: upd)
  next
    case (le_append i s)
    then obtain m where m: "obj os i = Some m" using assms(2) l by (auto split: option.splits)
    then have l': "l' = (os[i := Some (msg_append s m)], out)" using assms(2) l le_append by simp
    have "unfired (fst l') = unfired os"
      using unfired_update [of i os "Some (msg_append s m)"] sev [OF m] l'
      by (simp add: live_unfired_def msg_append_def)
    then show ?thesis using assms(1) l l' sev [OF m] by (auto simp: life_inv_def msg_append_def dest!: upd)
  next
    case (le_destroy i)
    then obtain m where m: "obj os i = Some m" using assms(2) l by (auto split: option.splits)
    then have l': "l' = (os[i := None], out @ message_destroy A E m)" using assms(2) l le_destroy by simp
    have u: "unfired (os[i := None]) + live_unfired (Some m) = unfired os"
      using unfired_update [of i os None] sev [OF m] by (simp add: live_unfired_def)
    have p: "length (message_destroy A E m) = (if enabled A sev then live_unfired (Some m) else 0)"
      using sev [OF m] by (cases sev) (simp_all add: message_destroy_def message_fire_def enabled_def live_unfired_def)
    have "\<forall>x. Some x \<in> set (os[i := None]) \<longrightarrow> lm_severity x = sev"
      using assms(1) l by (auto simp: life_inv_def dest!: upd)
    then show ?thesis
      using assms(1) l l' u p by (cases "enabled A sev") (simp_all add: life_inv_def)
  qed (use assms(3) in auto)
qed

lemma life_run_inv:
  "life_run A E evs l = Some l' \<Longrightarrow> life_inv A sev l \<Longrightarrow> list_all plain_event evs \<Longrightarrow> life_inv A sev l'"
  by (induction evs arbitrary: l) (auto split: option.splits intro: life_step_inv)

text \<open>Move assignment forgets what the target still had to print.\<close>

lemma assigned_message_lost:
  "\<exists>os out. life_run A E [le_assign 0 1, le_destroy 1, le_destroy 0]
      ([Some \<lparr>lm_time = 0, lm_severity = sev_error, lm_tag = tag_main, lm_msg = ''a'', lm_fired = False\<rparr>,
        Some \<lparr>lm_time = 1, lm_severity = sev_error, lm_tag = tag_main, lm_msg = ''b'', lm_fired = False\<rparr>], []) =
      Some (os, out) \<and> os = [None, None] \<and> length out = 1"
  by (simp add: obj_def message_defs)

section \<open>Properties\<close>

text \<open>
  Property C34 (safety): a message is printed once.  However a message is moved from object to
  object and appended to, and in whatever order the objects are destroyed, when all are
  gone exactly one line was printed, or none when its severity is switched off; in
  particular every log statement of the program prints one line, with the text of the
  exception appended, or none.
\<close>

theorem message_printed_once:
  assumes "life_run A E evs ([Some m], []) = Some (os, out)" "list_all plain_event evs"
    and "\<not> lm_fired m" "\<forall>x\<in>set os. x = None"
  shows "length out = (if enabled A (lm_severity m) then 1 else 0) \<and>
    log_statement A E (lm_severity m) now tag s what =
      (if enabled A (lm_severity m)
       then [message_line (with_color A) E \<lparr>lm_time = now, lm_severity = lm_severity m, lm_tag = tag,
               lm_msg = s @ (case what of Some w \<Rightarrow> w | None \<Rightarrow> []), lm_fired = False\<rparr>]
       else [])"
proof -
  have "life_inv A (lm_severity m) ([Some m], [])"
    using assms(3) by (simp add: life_inv_def unfired_def)
  then have inv: "life_inv A (lm_severity m) (os, out)" by (rule life_run_inv [OF assms(1) _ assms(2)])
  have "unfired os = 0" using assms(4) by (auto simp: unfired_def filter_empty_conv)
  then show ?thesis using inv
    by (auto simp: life_inv_def log_statement_def logger_gen_def message_defs with_exception_def
        split: option.splits)
qed

theorem message_printed_once_witness:
  "\<exists>os out. life_run (args_init False) \<lparr>le_fmt_int = (\<lambda>_. []), le_fmt_time = (\<lambda>_. []), le_thread_id = [], le_role = role_main\<rparr>
      [le_move 0, le_append 1 ''!'', le_destroy 0, le_move 1, le_destroy 2, le_destroy 1]
      ([Some \<lparr>lm_time = 0, lm_severity = sev_info, lm_tag = tag_main, lm_msg = ''a'', lm_fired = False\<rparr>], []) =
      Some (os, out) \<and> length out = 1"
proof -
  let ?E = "\<lparr>le_fmt_int = (\<lambda>_. []), le_fmt_time = (\<lambda>_. []), le_thread_id = [], le_role = role_main\<rparr>"
  let ?m = "\<lparr>lm_time = 0, lm_severity = sev_info, lm_tag = tag_main, lm_msg = ''a'', lm_fired = False\<rparr>"
  let ?evs = "[le_move 0, le_append 1 ''!'', le_destroy 0, le_move 1, le_destroy 2, le_destroy 1]"
  obtain os out where run: "life_run (args_init False) ?E ?evs ([Some ?m], []) = Some (os, out)"
    and gone: "\<forall>x\<in>set os. x = None"
    by (simp add: obj_def message_defs)
  from message_printed_once [OF run _ _ gone] have "length out = 1"
    by (simp add: enabled_def)
  with run show ?thesis by blast
qed

end
