(* ===== verification/Startup.thy ===== *)
theory Startup
  imports Client_Props Server File Args Log
begin

text \<open>
  The two processes: \<open>main\<close>, \<open>run\<close> and the handler of SIGINT (\<open>src/zclient.cpp\<close>,
  \<open>src/zserver.cpp\<close>), the pool of the forwarders' threads (\<open>include/zrp/io_threadpool.hpp\<close>) and the
  limit on open files (\<open>include/zrp/rlimit.hpp\<close>).

  The operating system is a record of what its calls answer.  Running \<open>ioc\<close> is a sequence of
  events of the client's or server's model, from the set-up state to one in which nothing is
  left to run.
\<close>

section \<open>The operating system\<close>

record 'a os_lib =
  os_from_string :: "string \<Rightarrow> 'a res"
  os_uuid :: "string res"
  os_listen :: "'a \<Rightarrow> u16 \<Rightarrow> unit res"
  os_sigint_thread :: "unit res"
  os_thread :: "nat \<Rightarrow> unit res"
  os_concurrency :: "32 word"
  os_setrlimit :: "u64 \<Rightarrow> u64 \<Rightarrow> error_code option"

text \<open>The values of both limits, and the severity of what is logged.\<close>

definition rlim_value :: "cint \<Rightarrow> u64" where
  "rlim_value configured = scast configured"

definition try_set_rlimit_nofile :: "'a os_lib \<Rightarrow> cint \<Rightarrow> severity" where
  "try_set_rlimit_nofile L configured =
    (case os_setrlimit L (rlim_value configured) (rlim_value configured) of
      Some errno \<Rightarrow> sev_warning
    | None \<Rightarrow> sev_trace)"

section \<open>The thread pool\<close>

text \<open>The pool is the list of its threads, each by the number it was started with.\<close>

record io_threadpool =
  tp_pool :: "nat list"
  tp_stopped :: bool

definition threadpool_new :: io_threadpool where
  "threadpool_new = \<lparr>tp_pool = [], tp_stopped = False\<rparr>"

text \<open>The loop with \<open>k\<close> threads to go; the constructor of a thread may throw.\<close>

fun start_threads :: "'a os_lib \<Rightarrow> nat \<Rightarrow> nat \<Rightarrow> io_threadpool \<Rightarrow> unit res \<times> io_threadpool" where
  "start_threads L i 0 p = (Inr (), p)"
| "start_threads L i (Suc k) p =
     (case os_thread L i of
       Inl e \<Rightarrow> (Inl e, p)
     | Inr _ \<Rightarrow> start_threads L (Suc i) k (p\<lparr>tp_pool := tp_pool p @ [i]\<rparr>))"

definition start_in_parallel :: "'a os_lib \<Rightarrow> u64 \<Rightarrow> io_threadpool \<Rightarrow> unit res \<times> io_threadpool" where
  "start_in_parallel L thread_count p = start_threads L 0 (unat thread_count) p"

definition join_all :: "io_threadpool \<Rightarrow> io_threadpool" where
  "join_all p = p\<lparr>tp_pool := []\<rparr>"

definition stop_and_join :: "io_threadpool \<Rightarrow> io_threadpool" where
  "stop_and_join p = join_all (p\<lparr>tp_stopped := True\<rparr>)"

text \<open>How many threads: \<open>hardware_concurrency\<close> is an \<open>unsigned\<close> that is assigned to an \<open>int\<close>.\<close>

definition forwarder_threads :: "'a os_lib \<Rightarrow> cint \<Rightarrow> cint" where
  "forwarder_threads L configured =
    (let n = configured in
     if n \<le>s 0 then (let n = ucast (os_concurrency L) in if n \<le>s 0 then 4 else n) else n)"

section \<open>SIGINT\<close>

text \<open>\<open>handle_sigint\<close>: the static flag, how often \<open>try_grace_exit\<close> was posted to \<open>ioc\<close>.\<close>

record sigint_handler =
  si_waiting :: bool
  si_in_grace_exit :: bool
  si_posted :: nat
  si_aborted :: bool

definition sigint_start :: sigint_handler where
  "sigint_start = \<lparr>si_waiting = True, si_in_grace_exit = False, si_posted = 0, si_aborted = False\<rparr>"

definition handle_sigint :: "unit res \<Rightarrow> sigint_handler \<Rightarrow> sigint_handler" where
  "handle_sigint r h =
    (if \<not> si_waiting h then h
     else
       (case r of
         Inl e \<Rightarrow> h\<lparr>si_waiting := False\<rparr>
       | Inr _ \<Rightarrow>
           if si_in_grace_exit h then h\<lparr>si_aborted := True, si_waiting := False\<rparr>
           else h\<lparr>si_posted := si_posted h + 1, si_in_grace_exit := True\<rparr>))"

definition client_try_grace_exit :: "client \<Rightarrow> client" where
  "client_try_grace_exit S = (if ctrl_alive S then cctrl_try_stop S else S)"

text \<open>A server that has expired holds nothing that \<open>try_stop\<close> could reach.\<close>

definition server_try_grace_exit :: "server \<Rightarrow> server" where
  "server_try_grace_exit S = server_try_stop S"

lemma grace_exit_acts:
  "client_act J cfg now kev_stop S = Some (client_try_grace_exit S)"
  "server_act J welcome now sev_stop S' = Some (server_try_grace_exit S')"
  by (simp_all add: client_try_grace_exit_def server_try_grace_exit_def)

section \<open>Running\<close>

datatype outcome = exited int | terminated

text \<open>The part of \<open>run\<close> up to \<open>ctrl_weak = ctrl\<close>: the addresses of the configuration are parsed here.\<close>

definition client_setup :: "'a os_lib \<Rightarrow> client_config \<Rightarrow> client res" where
  "client_setup L cfg =
    ebind (os_from_string L (cc_server_host cfg)) (\<lambda>ep.
    ebind (os_uuid L) (\<lambda>client_uuid.
    ebind (emap (\<lambda>(k, sh). os_from_string L (sc_local_host sh)) (cc_tcp_shares cfg)) (\<lambda>eps.
    Inr (client_start cfg client_uuid))))"

definition server_setup :: "'a os_lib \<Rightarrow> server_config \<Rightarrow> server res" where
  "server_setup L cfg =
    ebind (os_from_string L (sc_server_host cfg)) (\<lambda>ep.
    ebind (os_listen L ep (sc_server_port cfg)) (\<lambda>_.
    Inr (server_run server_new)))"

text \<open>\<open>ioc.run()\<close> returns when nothing is left.\<close>

definition client_ended :: "client \<Rightarrow> bool" where
  "client_ended S \<longleftrightarrow> \<not> ctrl_alive S \<and> cl_workers S = []"

definition server_ended :: "server \<Rightarrow> bool" where
  "server_ended S \<longleftrightarrow> \<not> sv_serving S \<and> hp_ctrls S = [] \<and> hp_shares S = [] \<and> hp_workers S = [] \<and> hp_conns S = []"

text \<open>
  \<open>run\<close>: an exception before the thread for SIGINT runs is logged and the process exits with the
  exit code so far; after that it would destroy a joinable thread, which is
  \<open>std::terminate\<close>.  \<open>None\<close>: the events are not a complete run.
\<close>

definition client_main_run ::
  "'a os_lib \<Rightarrow> json_lib \<Rightarrow> client_config \<Rightarrow> (nat \<times> client_event) list \<Rightarrow> outcome option"
where
  "client_main_run L J cfg evs =
    (case ebind (client_setup L cfg) (\<lambda>S. ebind (os_sigint_thread L) (\<lambda>_. Inr S)) of
      Inl e \<Rightarrow> Some (exited 0)
    | Inr S \<Rightarrow>
        (case start_in_parallel L (scast (forwarder_threads L (cc_forwarder_threads cfg))) threadpool_new of
          (Inl e, p) \<Rightarrow> Some terminated
        | (Inr _, p) \<Rightarrow>
            (case client_steps J cfg evs S of
              Some S' \<Rightarrow> if client_ended S' then Some (exited (cl_exit_code S')) else None
            | None \<Rightarrow> None)))"

definition server_main_run ::
  "'a os_lib \<Rightarrow> json_lib \<Rightarrow> server_config \<Rightarrow> string \<Rightarrow> (nat \<times> server_event) list \<Rightarrow> outcome option"
where
  "server_main_run L J cfg welcome evs =
    (case ebind (server_setup L cfg) (\<lambda>S. ebind (os_sigint_thread L) (\<lambda>_. Inr S)) of
      Inl e \<Rightarrow> Some (exited 0)
    | Inr S \<Rightarrow>
        (case start_in_parallel L (scast (forwarder_threads L (sc_forwarder_threads cfg))) threadpool_new of
          (Inl e, p) \<Rightarrow> Some terminated
        | (Inr _, p) \<Rightarrow>
            (case server_steps J welcome evs S of
              Some S' \<Rightarrow> if server_ended S' then Some (exited (sv_exit_code S')) else None
            | None \<Rightarrow> None)))"

section \<open>Main\<close>

text \<open>
  \<open>main\<close>: \<open>open_file\<close> is what the constructor of \<open>file\<close> makes of a path.  The outer \<open>None\<close> is a
  configuration file without an end.
\<close>

definition zclient_main ::
  "'a os_lib \<Rightarrow> 's stdio_lib \<Rightarrow> (string \<Rightarrow> 's res) \<Rightarrow> fmt_lib \<Rightarrow> json_lib \<Rightarrow> bool \<Rightarrow> (string \<Rightarrow> bool) \<Rightarrow> string list \<Rightarrow>
    (nat \<times> client_event) list \<Rightarrow> outcome option"
where
  "zclient_main L stdio open_file F J msvc env args evs =
    (case parse_args args (parse_env msvc env (args_init msvc)) of
      (Inl e, s) \<Rightarrow> Some (exited 1)
    | (Inr _, s) \<Rightarrow>
        (case program_action s of
          act_run \<Rightarrow>
            (case load_client_config stdio J (open_file (config_file_path s)) of
              None \<Rightarrow> None
            | Some (Inl e) \<Rightarrow> Some (exited 1)
            | Some (Inr cfg) \<Rightarrow> client_main_run L J cfg evs)
        | act_dump_config \<Rightarrow>
            (case dump_client_example F J (with_color s) (dump_full s) of
              Inl e \<Rightarrow> Some (exited 1)
            | Inr out \<Rightarrow> Some (exited 0))
        | act_help \<Rightarrow> Some (exited 0)))"

definition zserver_main ::
  "'a os_lib \<Rightarrow> 's stdio_lib \<Rightarrow> (string \<Rightarrow> 's res) \<Rightarrow> fmt_lib \<Rightarrow> json_lib \<Rightarrow> bool \<Rightarrow> (string \<Rightarrow> bool) \<Rightarrow> string list \<Rightarrow>
    (nat \<times> server_event) list \<Rightarrow> outcome option"
where
  "zserver_main L stdio open_file F J msvc env args evs =
    (case parse_args args (parse_env msvc env (args_init msvc)) of
      (Inl e, s) \<Rightarrow> Some (exited 1)
    | (Inr _, s) \<Rightarrow>
        (case program_action s of
          act_run \<Rightarrow>
            (case load_server_config stdio J (os_from_string L) (open_file (config_file_path s)) of
              None \<Rightarrow> None
            | Some (Inl e) \<Rightarrow> Some (exited 1)
            | Some (Inr (cfg, tcp_share_host, welcome)) \<Rightarrow> server_main_run L J cfg welcome evs)
        | act_dump_config \<Rightarrow>
            (case dump_server_example F J (with_color s) (dump_full s) of
              Inl e \<Rightarrow> Some (exited 1)
            | Inr out \<Rightarrow> Some (exited 0))
        | act_help \<Rightarrow> Some (exited 0)))"

section \<open>Threads\<close>

lemma start_threads_ok:
  "\<forall>j\<in>{i..<i + k}. os_thread L j = Inr () \<Longrightarrow>
    start_threads L i k p = (Inr (), p\<lparr>tp_pool := tp_pool p @ [i..<i + k]\<rparr>)"
proof (induction k arbitrary: i p)
  case (Suc k)
  then have "os_thread L i = Inr ()" "\<forall>j\<in>{Suc i..<Suc i + k}. os_thread L j = Inr ()" by auto
  then show ?case using Suc.IH [of "Suc i"] by (simp add: upt_conv_Cons)
qed simp

lemma forwarder_threads_range: "1 \<le> sint (forwarder_threads L n)"
  by (auto simp: forwarder_threads_def Let_def word_sle_eq)

lemma thread_count_back:
  fixes n :: cint
  assumes "0 \<le> sint n"
  shows "unat (scast n :: u64) = nat (sint n)"
proof -
  have "sint n < 2 ^ 31" using sint_lt [of n] by simp
  moreover have "uint (scast n :: u64) = sint n mod 2 ^ LENGTH(64)" by (simp only: scast_eq uint_word_of_int)
  ultimately have "uint (scast n :: u64) = sint n" using assms by simp
  then show ?thesis by (simp only: unat_eq_nat_uint)
qed

text \<open>
  There is always a thread for the forwarders.  Whatever is configured and
  whatever the machine reports, the pool gets at least one thread, exactly as many as
  configured where that is positive, numbered from 0 without gaps, and \<open>join_all\<close> leaves it empty.
\<close>

theorem forwarder_pool_size:
  assumes "n = nat (sint (forwarder_threads L configured))" "\<forall>i\<in>{0..<n}. os_thread L i = Inr ()"
  shows "0 < n \<and> (0 < sint configured \<longrightarrow> n = nat (sint configured)) \<and>
    (\<exists>p. start_in_parallel L (scast (forwarder_threads L configured)) threadpool_new = (Inr (), p) \<and>
      tp_pool p = [0..<n] \<and> tp_pool (join_all p) = [])"
proof -
  note r = forwarder_threads_range [of L configured]
  have "start_in_parallel L (scast (forwarder_threads L configured)) threadpool_new =
      (Inr (), \<lparr>tp_pool = [0..<n], tp_stopped = False\<rparr>)"
    using start_threads_ok [of 0 n L threadpool_new] thread_count_back [of "forwarder_threads L configured"] r assms
    by (simp add: start_in_parallel_def threadpool_new_def)
  then show ?thesis
    using r assms(1) by (auto simp: join_all_def forwarder_threads_def word_sle_eq)
qed

definition plain_os :: "unit os_lib" where
  "plain_os = \<lparr>os_from_string = (\<lambda>_. Inr ()), os_uuid = Inr ''u'', os_listen = (\<lambda>_ _. Inr ()), os_sigint_thread = Inr (),
     os_thread = (\<lambda>_. Inr ()), os_concurrency = 0, os_setrlimit = (\<lambda>_ _. None)\<rparr>"

lemma plain_os_threads: "\<exists>p. start_in_parallel plain_os n threadpool_new = (Inr (), p)"
  using start_threads_ok [of 0 "unat n" plain_os threadpool_new] by (simp add: start_in_parallel_def plain_os_def)

theorem forwarder_pool_size_witness:
  "\<exists>p. start_in_parallel plain_os (scast (forwarder_threads plain_os (-1))) threadpool_new = (Inr (), p) \<and>
    tp_pool p = [0, 1, 2, 3]"
proof -
  have n: "4 = nat (sint (forwarder_threads plain_os (-1)))"
    by (simp add: forwarder_threads_def plain_os_def word_sle_eq)
  show ?thesis
    using forwarder_pool_size [OF n] by (auto simp: plain_os_def upt_conv_Cons)
qed

text \<open>
  The first SIGINT asks for a graceful exit, the second one aborts.  For every
  sequence of what the waits for the signal return, \<open>try_grace_exit\<close> is posted at most once, and the
  process is aborted exactly when the first two waits were signals.
\<close>

theorem sigint_once_graceful:
  "let h = fold handle_sigint rs sigint_start in
    si_posted h = (case rs of Inr _ # _ \<Rightarrow> 1 | _ \<Rightarrow> 0) \<and>
    si_aborted h = (case rs of Inr _ # Inr _ # _ \<Rightarrow> True | _ \<Rightarrow> False)"
proof -
  have quiet: "fold handle_sigint rs h = h" if "\<not> si_waiting h" for h rs
    using that by (induction rs) (simp_all add: handle_sigint_def)
  show ?thesis
    by (cases rs; cases "hd rs"; cases "tl rs"; cases "hd (tl rs)")
      (auto simp: handle_sigint_def sigint_start_def quiet Let_def)
qed

section \<open>The exit code of a client\<close>

text \<open>The flags that the exit status depends on.\<close>

definition flags :: "client \<Rightarrow> int \<times> bool \<times> kc_pc" where
  "flags S = (cl_exit_code S, kc_stopping S, kc_main S)"

text \<open>A client that stopped by itself, which \<open>b\<close> does not ask of it, has exit code 1, and it does stop when
  its controller's coroutine ends.\<close>

definition told :: "bool \<Rightarrow> client \<Rightarrow> bool" where
  "told b S \<longleftrightarrow> cl_exit_code S \<in> {0, 1} \<and> (\<not> b \<and> kc_stopping S \<longrightarrow> cl_exit_code S = 1) \<and> (kc_main S = kc_done \<longrightarrow> kc_stopping S)"

lemma told_cong: "flags S' = flags S \<Longrightarrow> told b S' = told b S"
  by (simp add: told_def flags_def)

lemma flags_upd [simp]:
  "flags (upd_cshare a f S) = flags S" "flags (upd_cworker w g S) = flags S"
  "flags (S\<lparr>kc_ping_cancelled := x0\<rparr>) = flags S"
  "flags (S\<lparr>kc_ping := x1\<rparr>) = flags S" "flags (S\<lparr>kc_ping_pc := x2\<rparr>) = flags S" "flags (S\<lparr>kc_sent := x3\<rparr>) = flags S"
  by (simp_all add: flags_def upd_cshare_def upd_cworker_def)

lemma flags_ops [simp]:
  "flags (cleanup_cworkers a S) = flags S" "flags (add_cworker J a S) = flags S"
  "flags (drop_adder a i S) = flags S" "flags (adder_loop a i k S) = flags S" "flags (ccollect S) = flags S"
  by (simp_all add: cleanup_cworkers_def drop_adder_def adder_loop_def set_adder_def)
    (simp_all add: flags_def add_cworker_def upd_cshare_def Let_def collect_sel(2) split: option.split)

lemma flags_adder_step [simp]: "flags (adder_step J cfg r a s i S) = flags S"
  by (simp add: adder_step_def split: adder.split sum.split)

lemma flags_resume [simp]: "flags (cshare_resume cfg now c a S) = flags S"
  by (cases "(cfg, now, c, a, S)" rule: cshare_resume.cases) auto

lemma flags_worker_step: "cworker_act_step J now w ev wk S = Some S' \<Longrightarrow> flags S' = flags S"
  by (auto simp: cworker_act_step_def Let_def)

lemma stop_kc_main [simp]: "kc_main (cctrl_try_stop S) = kc_main S"
proof -
  have w: "kc_main (stop_cworkers ws S) = kc_main S" for ws S
    by (induction ws arbitrary: S) (auto simp: stop_cworkers_def)
  have "kc_main (stop_cshares xs S) = kc_main S" for xs S
    by (rule stop_cshares_induct [where P = "\<lambda>T. kc_main T = kc_main S"])
      (auto simp: cshare_try_stop_def w split: option.split)
  then show ?thesis by (simp add: cctrl_try_stop_eq)
qed

lemma stop_stopping [simp]: "kc_stopping (cctrl_try_stop S)"
  by (simp add: cctrl_try_stop_eq)

lemma told_errors:
  "told b S \<Longrightarrow> told b ((cctrl_handle_error e S)\<lparr>kc_ping_pc := x\<rparr>)" "told b S \<Longrightarrow> told b (cctrl_failed e S)"
  "told b S \<Longrightarrow> told b (cshare_handle_error e a S)"
  by (auto simp: told_def cctrl_handle_error_def cctrl_failed_def cshare_handle_error_def split: option.split)

lemma told_main: "told b S \<Longrightarrow> pc \<noteq> kc_done \<Longrightarrow> told b (S\<lparr>kc_main := pc\<rparr>)"
  by (simp add: told_def)

lemma told_adding: "told b S \<Longrightarrow> told b (S\<lparr>kc_main := kc_adding a k as\<rparr>)"
  by (rule told_main) simp_all

lemma told_sent: "told b (S\<lparr>kc_sent := x\<rparr>) = told b S"
  by (simp add: told_def)

lemma told_cctrl_add: "told b S \<Longrightarrow> told b (cctrl_add cfg now as S)"
proof (induction cfg now as S rule: cctrl_add.induct)
  case (2 cfg now a as S)
  have "told b (cleanup_cworkers a S)" using 2 told_cong [OF flags_ops(1)] by simp
  then show ?case using 2 by (auto simp: Let_def told_adding)
qed (simp add: cctrl_loop_def told_def)

lemma told_timer:
  assumes "told b S"
  shows "told b (cctrl_on_timer J now r S)" "told b (cctrl_on_ping_written r S)"
proof -
  have "told b (cctrl_ping_check J now S)"
    using assms told_errors(1) [of b "S\<lparr>kc_ping := None\<rparr>"]
    by (auto simp: cctrl_ping_check_def Let_def told_def split: sum.split option.split)
  then show "told b (cctrl_on_timer J now r S)" "told b (cctrl_on_ping_written r S)"
    using assms told_errors(1) [OF assms] by (auto simp: cctrl_on_timer_def cctrl_on_ping_written_def told_def split: sum.split)
qed

lemma told_act:
  assumes S: "told b S" and act: "client_act J cfg now ev S = Some S'" and ev: "ev \<noteq> kev_stop"
  shows "told b S'"
proof (cases ev)
  case (kev_connected r)
  then show ?thesis using S act told_main [of b S kc_helloing]
    by (auto simp: cctrl_on_connected_def told_errors told_sent split: if_splits sum.splits)
next
  case (kev_hello_written r)
  then show ?thesis using S act
    by (auto simp: cctrl_on_hello_written_def told_errors told_main split: if_splits sum.splits)
next
  case (kev_read r)
  have "told b (cctrl_loop now S)" using S by (simp add: cctrl_loop_def told_def)
  then show ?thesis using S act kev_read
    by (auto simp: cctrl_on_read_def told_errors told_cctrl_add split: if_splits sum.splits)
next
  case (kev_worker_connected r)
  then obtain a k as where a: "S' = cctrl_on_worker_connected J cfg now r a k as S" using act by (auto split: kc_pc.splits)
  have "told b (add_cworker J a S)" using S told_cong [OF flags_ops(2)] by simp
  then show ?thesis using S
    by (auto simp: a cctrl_on_worker_connected_def Let_def told_errors told_cctrl_add told_adding split: sum.splits)
next
  case (kev_timer r)
  then show ?thesis using S act told_timer by (auto split: if_splits)
next
  case (kev_ping_written r)
  then show ?thesis using S act told_timer by (auto split: if_splits)
next
  case (kev_fwd_end a)
  then obtain e where e: "S' = upd_cshare a (\<lambda>s. s\<lparr>cs_fwd_exn := None\<rparr>) (cshare_handle_error e a S)"
    using act by (auto split: option.splits)
  show ?thesis unfolding e using told_errors(3) [OF S] told_cong [OF flags_upd(1)] by simp
next
  case kev_stop
  then show ?thesis using ev by simp
next
  case (kev_worker w wev)
  then have "flags S' = flags S" using act flags_worker_step by (auto split: option.splits if_splits)
  then show ?thesis using S told_cong by blast
next
  case (kev_fwd a fev)
  then have "flags S' = flags S" using act by (auto split: option.splits if_splits)
  then show ?thesis using S told_cong by blast
next
  case (kev_fwd_stop a)
  then have "flags S' = flags S" using act by (auto split: option.splits if_splits)
  then show ?thesis using S told_cong by blast
next
  case (kev_adder a i r)
  then have "flags S' = flags S" using act by (auto split: option.splits if_splits)
  then show ?thesis using S told_cong by blast
next
  case (kev_resume a i)
  then have "flags S' = flags S" using act by (auto split: option.splits if_splits)
  then show ?thesis using S told_cong by blast
next
  case (kev_fwd_start a)
  then have "flags S' = flags S" using act by (auto split: option.splits if_splits)
  then show ?thesis using S told_cong by blast
next
  case (kev_closure a i)
  then have "flags S' = flags S" using act by (auto split: option.splits if_splits)
  then show ?thesis using S told_cong by blast
qed

lemma flags_add_share: "flags (add_ctcp_share sid port S) = flags S"
  by (simp add: add_ctcp_share_def Let_def flags_def)

lemma flags_init: "flags (client_init cfg S) = flags S"
proof -
  have "flags (fold (\<lambda>(k, sh) S. add_ctcp_share k (sc_remote_port sh) S) m S) = flags S" for m
  proof (induction m arbitrary: S)
    case (Cons p m)
    then show ?case by (cases p) (simp add: flags_add_share)
  qed simp
  then show ?thesis by (simp add: client_init_def)
qed

lemma told_start: "told b (client_start cfg u)"
  using flags_init [of cfg "client_new u"]
  by (simp add: client_start_def client_run_def told_def flags_def client_new_def)

lemma told_stop: "told b S \<Longrightarrow> told True (client_try_grace_exit S)"
  by (auto simp: told_def client_try_grace_exit_def)

lemma told_steps:
  "client_steps J cfg evs S = Some S' \<Longrightarrow> told b S \<Longrightarrow> told (b \<or> (\<exists>t. (t, kev_stop) \<in> set evs)) S'"
proof (induction evs arbitrary: S b)
  case (Cons p evs)
  obtain t ev where p: "p = (t, ev)" by fastforce
  obtain T where T: "client_act J cfg t ev S = Some T" "client_steps J cfg evs (ccollect T) = Some S'"
    using Cons.prems(1) by (auto simp: p client_step_def split: option.splits)
  have "told (b \<or> ev = kev_stop) T"
  proof (cases "ev = kev_stop")
    case True
    then have "T = client_try_grace_exit S" using T(1) grace_exit_acts(1) [of J cfg t S] by simp
    then show ?thesis using True told_stop [OF Cons.prems(2)] by simp
  next
    case False
    then show ?thesis using told_act [OF Cons.prems(2) T(1)] by simp
  qed
  then have "told (b \<or> ev = kev_stop) (ccollect T)" using told_cong [OF flags_ops(5)] by blast
  from Cons.IH [OF T(2) this] show ?case by (rule back_subst [where P = "\<lambda>b. told b S'"]) (auto simp: p)
qed simp

lemma run_exit_status:
  assumes "client_main_run L J cfg evs = Some (exited n)"
  shows "n \<in> {0, 1} \<and> (n = 0 \<longrightarrow>
    (\<exists>e. ebind (client_setup L cfg) (\<lambda>S. os_sigint_thread L) = Inl e) \<or> (\<exists>t. (t, kev_stop) \<in> set evs))"
proof (cases "ebind (client_setup L cfg) (\<lambda>S. ebind (os_sigint_thread L) (\<lambda>_. Inr S))")
  case (Inl e)
  then have "\<exists>e. ebind (client_setup L cfg) (\<lambda>S. os_sigint_thread L) = Inl e"
    by (cases "client_setup L cfg"; cases "os_sigint_thread L") auto
  then show ?thesis using assms Inl by (simp add: client_main_run_def)
next
  case (Inr S)
  then obtain u where S: "S = client_start cfg u" by (auto simp: client_setup_def ebind_Inr_iff)
  obtain S' where S': "client_steps J cfg evs S = Some S'" "client_ended S'" "n = cl_exit_code S'"
    using assms Inr by (auto simp: client_main_run_def split: sum.splits option.splits prod.splits if_splits)
  have "told (\<exists>t. (t, kev_stop) \<in> set evs) S'" using told_steps [OF S'(1)] told_start [of False] S by force
  then show ?thesis using S'(2,3) by (auto simp: told_def client_ended_def ctrl_alive_def)
qed

text \<open>
  Property C24 (error): what the exit status of the client tells.  Whatever its command line, its
  configuration, its network and the signals, the client exits with status 0 or 1 or is terminated.
  Status 0 means that it printed help or an example, that it was stopped by SIGINT, or, which is
  a flaw, that its set-up failed, for example on an address that does not parse.
\<close>

theorem client_exit_status:
  assumes "zclient_main L stdio open_file F J msvc env args evs = Some (exited n)"
    and "parse_args args (parse_env msvc env (args_init msvc)) = (r, s)"
  shows "n \<in> {0, 1} \<and> (n = 0 \<longrightarrow> r = Inr () \<and> (program_action s = act_run \<longrightarrow>
    (\<exists>cfg. load_client_config stdio J (open_file (config_file_path s)) = Some (Inr cfg) \<and>
      ((\<exists>e. ebind (client_setup L cfg) (\<lambda>S. os_sigint_thread L) = Inl e) \<or> (\<exists>t. (t, kev_stop) \<in> set evs)))))"
proof (cases "r = Inr () \<and> program_action s = act_run")
  case False
  then show ?thesis using assms
    by (cases r; cases "program_action s") (auto simp: zclient_main_def split: sum.splits)
next
  case True
  show ?thesis
  proof (cases "load_client_config stdio J (open_file (config_file_path s))")
    case None
    then show ?thesis using True assms by (simp add: zclient_main_def)
  next
    case (Some l)
    then show ?thesis using True assms run_exit_status [of L J _ evs n]
      by (cases l) (auto simp: zclient_main_def)
  qed
qed

text \<open>A configuration that is loaded, on a system that does not know its address.\<close>

lemma letter_load: "load_client_config mem_stdio letter_json (Inr (bytes_of ''c'', False)) = Some (Inr client_example)"
  using parse_file_reads [OF c_stdio_mem letter_json_reads(2), of "(bytes_of ''c'', False)"] letter_json_reads
    config_back(1) [OF letter_json_reads(1)] client_example_ok
  by (simp add: load_client_config_def file_eof_def mem_stdio_def)

definition no_host :: "unit os_lib" where
  "no_host = \<lparr>os_from_string = (\<lambda>_. Inl (system_error (ec_other 22))), os_uuid = Inr ''u'', os_listen = (\<lambda>_ _. Inr ()),
     os_sigint_thread = Inr (), os_thread = (\<lambda>_. Inr ()), os_concurrency = 4, os_setrlimit = (\<lambda>_ _. None)\<rparr>"

lemma failed_setup_exits_zero:
  "zclient_main no_host mem_stdio (\<lambda>_. Inr (bytes_of ''c'', False)) F letter_json msvc env [''zclient'', ''run''] evs =
    Some (exited 0)"
  by (simp add: zclient_main_def parse_args_def parse_run_args_def Let_def letter_load client_main_run_def
      client_setup_def no_host_def)

theorem client_exit_status_witness:
  "\<exists>cfg. load_client_config mem_stdio letter_json (Inr (bytes_of ''c'', False)) = Some (Inr cfg) \<and>
    (\<exists>e. ebind (client_setup no_host cfg) (\<lambda>S. os_sigint_thread no_host) = Inl e)"
  using client_exit_status [OF failed_setup_exits_zero [where msvc = False and env = "\<lambda>_. False" and evs = "[]"]]
  by (simp add: parse_args_def parse_run_args_def Let_def)

end
