(* ===== verification/Server_Exit.thy ===== *)
theory Server_Exit
  imports Startup Server_Inv
begin

text \<open>
  What the exit status of the server process tells: \<open>exit_code_\<close>, \<open>stopping_\<close> and the
  coroutine \<open>serve\<close> of \<open>include/zrp/server.hpp\<close>, followed through every event to the end of
  \<open>main\<close> in \<open>src/zserver.cpp\<close>.
\<close>

section \<open>The flags that the exit status depends on\<close>

definition sflags :: "server \<Rightarrow> int \<times> bool \<times> bool" where
  "sflags S = (sv_exit_code S, sv_stopping S, sv_serving S)"

lemma sflags_upd [simp]:
  "sflags (upd_ctrl c f S) = sflags S" "sflags (upd_share a g S) = sflags S"
  "sflags (upd_worker w h S) = sflags S" "sflags (upd_conn k i S) = sflags S"
  "sflags (S\<lparr>hp_next := x1\<rparr>) = sflags S" "sflags (S\<lparr>hp_conns := x2\<rparr>) = sflags S"
  "sflags (S\<lparr>hp_ctrls := x3\<rparr>) = sflags S" "sflags (S\<lparr>hp_shares := x4\<rparr>) = sflags S"
  "sflags (S\<lparr>hp_workers := x5\<rparr>) = sflags S" "sflags (S\<lparr>sv_sockets := x6\<rparr>) = sflags S"
  "sflags (S\<lparr>sv_ctrls := x7\<rparr>) = sflags S" "sflags (S\<lparr>sv_tcp_shares := x8\<rparr>) = sflags S"
  "sflags (S\<lparr>sv_accepting := x9\<rparr>) = sflags S"
  by (simp_all add: sflags_def upd_ctrl_def upd_share_def upd_worker_def upd_conn_def)

lemma sflags_fold: "(\<And>x S. sflags (f x S) = sflags S) \<Longrightarrow> sflags (fold f xs S) = sflags S"
  by (induction xs arbitrary: S) simp_all

lemma sflags_stops [simp]:
  "sflags (stop_workers ws S) = sflags S" "sflags (share_try_stop a S) = sflags S"
  "sflags (stop_shares ss S) = sflags S" "sflags (ctrl_try_stop c S) = sflags S"
  "sflags (conn_try_stop k S) = sflags S"
proof -
  show w: "sflags (stop_workers ws S) = sflags S" for ws S
    by (auto simp: stop_workers_def intro!: sflags_fold)
  show s: "sflags (share_try_stop a S) = sflags S" for a S
    by (simp add: share_try_stop_def w split: option.split)
  show ss: "sflags (stop_shares ss S) = sflags S" for ss S
    by (auto simp: stop_shares_def s intro!: sflags_fold)
  show "sflags (ctrl_try_stop c S) = sflags S" by (simp add: ctrl_try_stop_def ss split: option.split)
  show "sflags (conn_try_stop k S) = sflags S" by (simp add: conn_try_stop_def)
qed

lemma sflags_errors [simp]:
  "sflags (ctrl_handle_error e c S) = sflags S" "sflags (share_handle_error e a S) = sflags S"
  "sflags (conn_handle_error e k S) = sflags S"
  by (simp_all add: ctrl_handle_error_def share_handle_error_def conn_handle_error_def split: option.split)

lemma sflags_try_stop: "sflags (server_try_stop S) = (sv_exit_code S, True, sv_serving S)"
proof -
  have "sflags (fold (\<lambda>(i, c) S. if live (hp_ctrls S) c then ctrl_try_stop c S else S) xs S) = sflags S"
    "sflags (fold (\<lambda>k S. if live (hp_conns S) k then conn_try_stop k S else S) ys S) = sflags S"
    for xs :: "(string, nat) smap" and ys S
    by (auto intro!: sflags_fold)
  then show ?thesis by (simp add: server_try_stop_def Let_def) (simp add: sflags_def)
qed

lemma sflags_collect [simp]: "sflags (collect S) = sflags S"
  by (simp add: collect_def collect_conns_def collect_ctrls_def collect_shares_def collect_workers_def Let_def sflags_def)

section \<open>Registration keeps them\<close>

lemma sflags_register_ctrl: "register_ctrl c u S = (e, S') \<Longrightarrow> sflags S' = sflags S"
  by (auto simp: register_ctrl_def split: option.splits if_splits)

lemma sflags_register_share: "register_share c it S = (e, S') \<Longrightarrow> sflags S' = sflags S"
  by (auto simp: register_share_def add_tcp_share_def Let_def split: option.splits if_splits)

lemma sflags_register_shares: "register_shares c its S = (e, S') \<Longrightarrow> sflags S' = sflags S"
  by (induction its arbitrary: S) (auto dest: sflags_register_share split: prod.splits option.splits)

lemma sflags_hello_client: "hello_client J wm now k h S = (e, S') \<Longrightarrow> sflags S' = sflags S"
  by (auto simp: hello_client_def Let_def dest!: sflags_register_ctrl sflags_register_shares
      split: option.splits prod.splits)

lemma sflags_hello_worker: "hello_worker now k h S = (e, S') \<Longrightarrow> sflags S' = sflags S"
  by (auto simp: hello_worker_def Let_def split: option.splits if_splits)

lemma sflags_hello_msg: "hello_msg J wm now k m S = (e, S') \<Longrightarrow> sflags S' = sflags S"
  by (cases m) (auto dest: sflags_hello_client sflags_hello_worker)

lemma sflags_on_hello [simp]: "sflags (conn_on_hello J wm now k r S) = sflags S"
  by (auto simp: conn_on_hello_def Let_def dest!: sflags_hello_msg split: sum.splits prod.splits option.splits)

lemma sflags_ctrl_step: "ctrl_step J now ev c ct S = Some S' \<Longrightarrow> sflags S' = sflags S"
proof (cases ev)
  case (cev_resume i)
  assume "ctrl_step J now ev c ct S = Some S'"
  then show ?thesis using cev_resume by (cases "ct_ready ct ! i") (auto split: if_splits)
qed (auto simp: ctrl_on_read_def ctrl_on_write_def split: if_splits sum.splits option.splits ctrl_send_pc.splits)

lemma sflags_share_ops [simp]:
  "sflags (got_worker a w S) = sflags S" "sflags (share_resume J now r epoch cpl a S) = sflags S"
  "sflags (run_forwarder_start a r' S) = sflags S" "sflags (run_forwarder_end a e S) = sflags S"
  "sflags (conn_on_timer k r' S) = sflags S" "sflags (handle_socket now S) = sflags S"
  by (simp_all add: got_worker_def Let_def run_forwarder_start_def run_forwarder_end_def conn_on_timer_def
      handle_socket_def cleanup_sockets_def split: option.split sum.split)
    (cases "(J, now, r, epoch, cpl, a, S)" rule: share_resume.cases; simp)

section \<open>The invariant\<close>

text \<open>A server that stopped by itself, which \<open>b\<close> does not ask of it, has exit code 1, and it does
  stop when it no longer serves.\<close>

definition served :: "bool \<Rightarrow> server \<Rightarrow> bool" where
  "served b S \<longleftrightarrow> sv_exit_code S \<in> {0, 1} \<and> (\<not> b \<and> sv_stopping S \<longrightarrow> sv_exit_code S = 1) \<and>
    (\<not> sv_serving S \<longrightarrow> sv_stopping S)"

lemma served_cong: "sflags S' = sflags S \<Longrightarrow> served b S' = served b S"
  by (simp add: served_def sflags_def)

lemma served_try_stop: "served b S \<Longrightarrow> served True (server_try_stop S)"
  using sflags_try_stop [of S] by (simp add: served_def sflags_def)

lemma served_failed: "served b S \<Longrightarrow> served b ((server_handle_error e S)\<lparr>sv_serving := False\<rparr>)"
  using sflags_try_stop [of "S\<lparr>sv_exit_code := 1\<rparr>"]
  by (auto simp: served_def sflags_def server_handle_error_def)

lemma served_act:
  assumes S: "served b S" and act: "server_act J wm now ev S = Some S'" and ev: "ev \<noteq> sev_stop"
  shows "served b S'"
proof (cases "\<exists>e. ev = sev_accept (Inl e)")
  case True
  then show ?thesis using S act by (auto simp: serve_accepted_def served_failed split: if_splits)
next
  case False
  have "sflags S' = sflags S"
  proof (cases ev)
    case (sev_accept r)
    then show ?thesis using act False by (cases r) (auto simp: serve_accepted_def split: if_splits)
  qed (use act ev in \<open>auto dest: sflags_ctrl_step split: option.splits if_splits\<close>)
  then show ?thesis using S served_cong by blast
qed

lemma served_steps:
  "server_steps J wm evs S = Some S' \<Longrightarrow> served b S \<Longrightarrow> served (b \<or> (\<exists>t. (t, sev_stop) \<in> set evs)) S'"
proof (induction evs arbitrary: S b)
  case (Cons p evs)
  obtain t ev where p: "p = (t, ev)" by fastforce
  obtain T where T: "server_act J wm t ev S = Some T" "server_steps J wm evs (collect T) = Some S'"
    using Cons.prems(1) by (auto simp: p server_step_def split: option.splits)
  have "served (b \<or> ev = sev_stop) T"
    using T(1) served_act [OF Cons.prems(2) T(1)] served_try_stop [OF Cons.prems(2)] by (cases "ev = sev_stop") auto
  then have "served (b \<or> ev = sev_stop) (collect T)" using served_cong [OF sflags_collect] by blast
  from Cons.IH [OF T(2) this] show ?case by (rule back_subst [where P = "\<lambda>b. served b S'"]) (auto simp: p)
qed simp

lemma server_run_exit_status:
  assumes "server_main_run L J cfg wm evs = Some (exited n)"
  shows "n \<in> {0, 1} \<and> (n = 0 \<longrightarrow>
    (\<exists>e. ebind (server_setup L cfg) (\<lambda>S. os_sigint_thread L) = Inl e) \<or> (\<exists>t. (t, sev_stop) \<in> set evs))"
proof (cases "ebind (server_setup L cfg) (\<lambda>S. ebind (os_sigint_thread L) (\<lambda>_. Inr S))")
  case (Inl e)
  then have "\<exists>e. ebind (server_setup L cfg) (\<lambda>S. os_sigint_thread L) = Inl e"
    by (cases "server_setup L cfg"; cases "os_sigint_thread L") auto
  then show ?thesis using assms Inl by (simp add: server_main_run_def)
next
  case (Inr S)
  then have S: "S = server_run server_new" by (auto simp: server_setup_def ebind_Inr_iff)
  obtain S' where S': "server_steps J wm evs S = Some S'" "server_ended S'" "n = sv_exit_code S'"
    using assms Inr by (auto simp: server_main_run_def split: sum.splits option.splits prod.splits if_splits)
  have "served False S" by (simp add: S served_def server_run_def server_new_def)
  from served_steps [OF S'(1) this] show ?thesis using S'(2,3) by (auto simp: served_def server_ended_def)
qed

section \<open>Properties\<close>

text \<open>
  Property C25 (error): what the exit status of the server tells.  Whatever its command line, its
  configuration, its network, its clients and the signals, a server that exits does so with status 0
  or 1.  Status 0 means that it printed help or an example, that it was stopped by SIGINT, or,
  which is a flaw, that its set-up failed, for example on a port that is taken.
\<close>

theorem server_exit_status:
  assumes "zserver_main L stdio open_file F J msvc env args evs = Some (exited n)"
    and "parse_args args (parse_env msvc env (args_init msvc)) = (r, s)"
  shows "n \<in> {0, 1} \<and> (n = 0 \<longrightarrow> r = Inr () \<and> (program_action s = act_run \<longrightarrow>
    (\<exists>cfg host welcome. load_server_config stdio J (os_from_string L) (open_file (config_file_path s)) =
        Some (Inr (cfg, host, welcome)) \<and>
      ((\<exists>e. ebind (server_setup L cfg) (\<lambda>S. os_sigint_thread L) = Inl e) \<or> (\<exists>t. (t, sev_stop) \<in> set evs)))))"
proof (cases "r = Inr () \<and> program_action s = act_run")
  case False
  then show ?thesis using assms
    by (cases r; cases "program_action s") (auto simp: zserver_main_def split: sum.splits)
next
  case True
  show ?thesis
  proof (cases "load_server_config stdio J (os_from_string L) (open_file (config_file_path s))")
    case None
    then show ?thesis using True assms by (simp add: zserver_main_def)
  next
    case (Some l)
    then show ?thesis using True assms server_run_exit_status [of L J _ _ evs n]
      by (cases l) (auto simp: zserver_main_def)
  qed
qed

text \<open>A configuration that is loaded, on a system where its port is taken.\<close>

lemma letter_json_server: "serialize letter_json (server_config_to_json letter_json server_example) = ''s''"
proof -
  define J where "J = std_json (\<lambda>_. []) (\<lambda>_. Inr JNull)"
  define v where "v = client_config_to_json J client_example"
  define v' where "v' = server_config_to_json J server_example"
  have L: "letter_json = std_json (\<lambda>x. if x = v then ''c'' else ''s'') (\<lambda>t. Inr (norm (if t = ''c'' then v else v')))"
    by (simp only: letter_json_def v_def v'_def J_def Let_def)
  have "server_config_to_json letter_json server_example = v'"
    unfolding L v'_def J_def by (rule config_to_json_std)
  moreover have "v \<noteq> v'" by (simp add: v_def v'_def J_def client_config_to_json_def server_config_to_json_def std_json_def)
  ultimately show ?thesis unfolding L by (simp add: std_json_def)
qed

lemma letter_load_server:
  "load_server_config mem_stdio letter_json (\<lambda>_. Inr ()) (Inr (bytes_of ''s'', False)) =
    Some (Inr (server_example, (), sc_welcome server_example))"
  using parse_file_reads [OF c_stdio_mem letter_json_reads(3), of "(bytes_of ''s'', False)"] letter_json_server
    config_back [OF letter_json_reads(1) disjI2 [OF refl] client_example_ok, of server_example]
  by (simp add: load_server_config_def file_eof_def mem_stdio_def)

definition taken_port :: "unit os_lib" where
  "taken_port = \<lparr>os_from_string = (\<lambda>_. Inr ()), os_uuid = Inr ''u'', os_listen = (\<lambda>_ _. Inl (system_error (ec_other 98))),
     os_sigint_thread = Inr (), os_thread = (\<lambda>_. Inr ()), os_concurrency = 4, os_setrlimit = (\<lambda>_ _. None)\<rparr>"

lemma taken_port_exits_zero:
  "zserver_main taken_port mem_stdio (\<lambda>_. Inr (bytes_of ''s'', False)) F letter_json msvc env [''zserver'', ''run''] evs =
    Some (exited 0)"
proof -
  have "os_from_string taken_port = (\<lambda>_. Inr ())" by (simp add: taken_port_def)
  then show ?thesis
    by (simp add: zserver_main_def parse_args_def parse_run_args_def Let_def letter_load_server server_main_run_def
        server_setup_def) (simp add: taken_port_def)
qed

theorem server_exit_status_witness:
  "\<exists>cfg host welcome. load_server_config mem_stdio letter_json (os_from_string taken_port)
      (Inr (bytes_of ''s'', False)) = Some (Inr (cfg, host, welcome)) \<and>
    (\<exists>e. ebind (server_setup taken_port cfg) (\<lambda>S. os_sigint_thread taken_port) = Inl e)"
  using server_exit_status [OF taken_port_exits_zero [where msvc = False and env = "\<lambda>_. False" and evs = "[]"]]
  by (simp add: parse_args_def parse_run_args_def Let_def)

text \<open>A server that is interrupted while it waits for clients exits with status 0, and one whose acceptor fails with status 1.\<close>

theorem idle_server_exits:
  "server_main_run plain_os J server_example wm [(1, sev_stop), (1, sev_accept (Inl (system_error operation_aborted)))] =
    Some (exited 0)"
  "server_main_run plain_os J server_example wm [(1, sev_accept (Inl (system_error (ec_other 24))))] = Some (exited 1)"
proof -
  have up: "server_setup plain_os server_example = Inr (server_run server_new)" "os_sigint_thread plain_os = Inr ()"
    by (simp_all add: server_setup_def plain_os_def)
  obtain p where "start_in_parallel plain_os (scast (forwarder_threads plain_os (sc_forwarder_threads server_example))) threadpool_new =
      (Inr (), p)" using plain_os_threads by blast
  note run = up this
  show "server_main_run plain_os J server_example wm [(1, sev_stop), (1, sev_accept (Inl (system_error operation_aborted)))] =
      Some (exited 0)"
    "server_main_run plain_os J server_example wm [(1, sev_accept (Inl (system_error (ec_other 24))))] = Some (exited 1)"
    by (simp_all add: server_main_run_def run server_eval server_try_stop_def server_handle_error_def server_ended_def)
qed

end
