(* ===== verification/Client_Exit.thy ===== *)
theory Client_Exit
  imports Startup
begin

text \<open>
  The client after SIGINT, from the first event of \<open>run\<close> in \<open>src/zclient.cpp\<close> on: a run in which it
  winds down and exits, and one in which \<open>ioc.run()\<close> never returns, because the stop came between the
  completion of a ping of the controller and the resumption of \<open>ping_actor\<close>
  (\<open>include/zrp/client.hpp\<close>).
\<close>

text \<open>What is left of the client with one share and one worker after the stop: every coroutine but \<open>ping_actor\<close> of the controller ends.\<close>

definition rest_ends :: "(nat \<times> client_event) list" where
  "rest_ends = [(21, kev_read (Inl (system_error operation_aborted))),
     (21, kev_worker 1 (cwe_timer (Inl (system_error operation_aborted)))),
     (21, kev_worker 1 (cwe_read (Inl (system_error operation_aborted)) (Inl (system_error not_connected)))),
     (21, kev_closure 0 0), (21, kev_resume 0 0), (21, kev_fwd_end 0), (21, kev_fwd_stop 0),
     (21, kev_fwd 0 fev_strand), (21, kev_fwd 0 fev_strand)]"

definition left_over :: "cping_pc \<Rightarrow> nat option \<Rightarrow> bool \<Rightarrow> message list \<Rightarrow> client" where
  "left_over pc expiry canc sent = \<lparr>kc_sock = sock_closed, kc_shares = [(''ssh'', 0)], kc_hello = demo_hello, kc_stopping = True,
     kc_ping = expiry, kc_ping_cancelled = canc, kc_main = kc_done, kc_ping_pc = pc, kc_sent = M_client_hello demo_hello # sent, cl_exit_code = 0,
     cl_shares = [], cl_workers = [], cl_next = 2\<rparr>"

lemmas stop_eval = rest_ends_def left_over_def demo_eval ctrl_alive_def fwd_step_def drop_pipes_def stop_pipes_def
  cshare_handle_error_def cctrl_on_timer_def cctrl_ping_check_def cctrl_on_ping_written_def

lemma idle_stop_run:
  "client_steps plain_json demo_config
    ((21, kev_stop) # (21, kev_timer (Inl (system_error operation_aborted))) # rest_ends) demo_client =
    Some (left_over pg_done (Some 20) True [])"
  by (simp add: stop_eval)

lemma pinging_stop_run:
  "client_steps plain_json demo_config
    ((20, kev_timer (Inr ())) # (21, kev_stop) # (21, kev_ping_written (Inr ())) # rest_ends) demo_client =
    Some (left_over pg_waiting None False [M_ping])"
  by (simp add: stop_eval)

text \<open>A client that is idle when SIGINT comes exits with status 0.\<close>

theorem interrupted_client_exits:
  "client_main_run plain_os plain_json demo_config
    (demo_start @ (21, kev_stop) # (21, kev_timer (Inl (system_error operation_aborted))) # rest_ends) = Some (exited 0)"
proof -
  have "client_setup plain_os demo_config = Inr (client_start demo_config ''u'')"
    by (simp add: client_setup_def plain_os_def demo_config_def)
  moreover have "os_sigint_thread plain_os = Inr ()" by (simp add: plain_os_def)
  moreover obtain p where "start_in_parallel plain_os (scast (forwarder_threads plain_os (cc_forwarder_threads demo_config))) threadpool_new =
      (Inr (), p)" using plain_os_threads by blast
  ultimately show ?thesis
    by (simp add: client_main_run_def client_steps_append demo_run idle_stop_run client_ended_def left_over_def ctrl_alive_def
        del: client_steps.simps)
qed

text \<open>
  A client whose controller was writing a ping may never exit.  After the stop everything of it has ended but
  \<open>ping_actor\<close> of the controller, which waits for a timer without a deadline, in a wait that began after the stop
  had cancelled the timer: nothing can happen any more but a stop, and SIGINT posts only one.
\<close>

theorem interrupted_client_hangs:
  "\<exists>S. client_steps plain_json demo_config
      (demo_start @ (20, kev_timer (Inr ())) # (21, kev_stop) # (21, kev_ping_written (Inr ())) # rest_ends)
      (client_start demo_config ''u'') = Some S \<and>
    kc_stopping S \<and> cl_workers S = [] \<and> cl_shares S = [] \<and> \<not> client_ended S \<and>
    (\<forall>now ev S'. client_act plain_json demo_config now ev S = Some S' \<longrightarrow> ev = kev_stop)"
proof -
  let ?S = "left_over pg_waiting None False [M_ping]"
  have "client_act plain_json demo_config now ev ?S = Some S' \<Longrightarrow> ev = kev_stop" for now ev S'
    by (cases ev) (auto simp: left_over_def hget_def split: if_splits)
  moreover have "\<not> client_ended ?S" by (simp add: client_ended_def left_over_def ctrl_alive_def)
  moreover have "client_steps plain_json demo_config
      (demo_start @ (20, kev_timer (Inr ())) # (21, kev_stop) # (21, kev_ping_written (Inr ())) # rest_ends)
      (client_start demo_config ''u'') = Some ?S"
    by (simp add: client_steps_append demo_run pinging_stop_run del: client_steps.simps)
  ultimately show ?thesis by (intro exI [of _ ?S]) (auto simp: left_over_def)
qed

end
