(* ===== verification/Client_Worker_Stop.thy ===== *)
theory Client_Worker_Stop
  imports Client_Worker
begin

text \<open>
  A worker of the client that was stopped (\<open>tcp_share_worker\<close> of \<open>include/zrp/client.hpp\<close>): that it winds
  down, by a measure of what its two coroutines have left to do, and the one case in which it does not.
\<close>

section \<open>A ping in the way\<close>

text \<open>
  A stop leaves the same gap.  \<open>try_stop\<close> cancels the timer of a \<open>ping_actor\<close> that is about to resume
  from a completed write; \<open>ping_actor\<close> does not look at \<open>stopping_\<close> either and waits at
  \<open>time_point::max()\<close>, a wait that began after the cancel.  Once the other coroutine has ended nothing but
  another stop moves the worker, so a client that was stopped by SIGINT does not return from \<open>ioc.run()\<close>.
\<close>

lemma waits_for_ever:
  "cw_main w = cm_done \<Longrightarrow> cw_ping_pc w = pg_waiting \<Longrightarrow> cw_ping w = None \<Longrightarrow> \<not> cw_ping_cancelled w \<Longrightarrow>
    cworker_step J now ev w = Some w' \<Longrightarrow> ev = cwe_stop"
  by (cases ev) (auto split: if_splits)

theorem late_ping_survives_stop:
  "\<exists>w. cworker_steps plain_json [(20, cwe_timer (Inr ())), (21, cwe_stop), (21, cwe_ping_written (Inr ())),
      (21, cwe_read (Inl (system_error operation_aborted)) (Inl (system_error not_connected)))] idle_cworker = Some w \<and>
    cw_main w = cm_done \<and> cw_stopping w \<and> cw_ping_pc w = pg_waiting \<and>
    (\<forall>J now ev w'. cworker_step J now ev w = Some w' \<longrightarrow> ev = cwe_stop)"
proof -
  obtain w where "cworker_steps plain_json [(20, cwe_timer (Inr ())), (21, cwe_stop), (21, cwe_ping_written (Inr ())),
      (21, cwe_read (Inl (system_error operation_aborted)) (Inl (system_error not_connected)))] idle_cworker = Some w"
    and w: "cw_main w = cm_done" "cw_stopping w" "cw_ping_pc w = pg_waiting" "cw_ping w = None" "\<not> cw_ping_cancelled w"
    by (simp add: idle_cworker_def cworker_eval)
  then show ?thesis using waits_for_ever [OF w(1,3-5)] by blast
qed

section \<open>Winding down\<close>

text \<open>
  How many events a stopped worker has left.  A read may have succeeded before the connection was closed,
  and is followed by one that fails; a read that begins on the closed connection fails.
\<close>

definition cworker_weight :: "cworker \<Rightarrow> nat" where
  "cworker_weight w =
    (case cw_main w of cm_hello \<Rightarrow> 2 | cm_reading \<Rightarrow> (if cc_main \<in> cw_cancelled w then 2 else 1)
     | cm_confirming \<Rightarrow> 2 | cm_providing \<Rightarrow> 1 | cm_done \<Rightarrow> 0) +
    (if cw_ping_pc w = pg_done then 0 else 1)"

definition cworker_stopped :: "cworker \<Rightarrow> bool" where
  "cworker_stopped w \<longleftrightarrow> cw_stopping w \<and> (cw_ping_pc w = pg_waiting \<longrightarrow> cw_ping_cancelled w)"

text \<open>
  The events that come by themselves, whatever the peer and the share do and however long it takes: the
  end of a wait that was cancelled, and the failure of a read or a write that was cancelled or whose
  socket is closed.
\<close>

fun cworker_due :: "cworker \<Rightarrow> cworker_event \<Rightarrow> bool" where
  "cworker_due w (cwe_hello_written r) \<longleftrightarrow> isl r \<and> (cw_sock w = sock_closed \<or> cc_main \<in> cw_cancelled w)"
| "cworker_due w (cwe_read r c) \<longleftrightarrow> isl r \<and> (cw_sock w = sock_closed \<or> cc_main \<in> cw_cancelled w)"
| "cworker_due w (cwe_confirmed r) \<longleftrightarrow> isl r \<and> (cw_sock w = sock_closed \<or> cc_main \<in> cw_cancelled w)"
| "cworker_due w (cwe_provided r) \<longleftrightarrow> False"
| "cworker_due w (cwe_timer r) \<longleftrightarrow> cw_ping_cancelled w"
| "cworker_due w (cwe_ping_written r) \<longleftrightarrow> isl r \<and> (cw_sock w = sock_closed \<or> cc_ping \<in> cw_cancelled w)"
| "cworker_due w cwe_stop \<longleftrightarrow> False"

text \<open>The events of the winding down: no stop again, and no ping that was written all the same.\<close>

definition cwind_down :: "cworker_event \<Rightarrow> bool" where
  "cwind_down ev \<longleftrightarrow> ev \<noteq> cwe_stop \<and> ev \<noteq> cwe_ping_written (Inr ())"

lemma stopped_cerror: "cw_stopping w \<Longrightarrow> cworker_handle_error e w = w"
  by (simp add: cworker_handle_error_def)

lemma stopped_read:
  assumes inv: "cworker_inv w" and st: "cworker_stopped w" and step: "cworker_step J now (cwe_read r c) w = Some w'"
  shows "cworker_stopped w' \<and> cworker_weight w' < cworker_weight w"
proof -
  have w: "cw_main w = cm_reading" "cw_stopping w" "cancel_ok w c" "w' = cworker_on_read J now r c w" "cmay_end cc_main r w"
    using st step by (auto simp: cworker_stopped_def split: if_splits)
  then have sock: "cw_sock w = sock_closed" "\<not> cw_visited w"
    using inv by (cases "cw_sock w"; auto simp: cworker_inv_def)+
  then obtain e where e: "c = Inl e" using w(3) by (cases c) (auto simp: cancel_ok_def)
  have "cc_main \<in> cw_cancelled w" if "r = Inr v" for v using w(5) sock that by (simp add: cmay_end_def)
  then show ?thesis using w(1,2,4) st sock e
    by (cases r) (auto simp: cworker_on_read_def cworker_on_visit_def cworker_failed_def stopped_cerror cworker_loop_def cworker_stopped_def
        cworker_weight_def Let_def split: sum.splits message.splits)
qed

lemma cworker_stopped_step:
  assumes inv: "cworker_inv w" and st: "cworker_stopped w" and ev: "cwind_down ev"
    and step: "cworker_step J now ev w = Some w'"
  shows "cworker_stopped w' \<and> cworker_weight w' < cworker_weight w"
proof (cases ev)
  case (cwe_read r c)
  then show ?thesis using stopped_read [OF inv st] step by blast
next
  case (cwe_timer r)
  have "cw_stopping w" using st by (simp add: cworker_stopped_def)
  then have "w' = w\<lparr>cw_ping_pc := pg_done\<rparr>" "cw_ping_pc w = pg_waiting"
    using step by (auto simp: cwe_timer cworker_on_timer_def cworker_ping_check_def stopped_cerror split: if_splits sum.splits)
  then show ?thesis using st by (simp add: cworker_stopped_def cworker_weight_def)
next
  case (cwe_hello_written r)
  then show ?thesis using step st
    by (auto simp: cworker_on_hello_written_def cworker_failed_def stopped_cerror cworker_stopped_def cworker_weight_def
        cworker_loop_def split: if_splits sum.splits)
next
  case (cwe_confirmed r)
  then show ?thesis using step st
    by (auto simp: cworker_on_confirmed_def cworker_failed_def stopped_cerror cworker_stopped_def cworker_weight_def
        split: if_splits sum.splits)
next
  case (cwe_provided r)
  then have "cw_main w = cm_providing" "cw_visited w" using step inv by (auto simp: cworker_inv_def split: if_splits)
  then show ?thesis using step st cwe_provided
    by (auto simp: cworker_on_provided_def cworker_failed_def stopped_cerror cworker_stopped_def cworker_weight_def
        cworker_loop_def split: if_splits sum.splits)
next
  case (cwe_ping_written r)
  then obtain e where "r = Inl e" using ev by (cases r) (auto simp: cwind_down_def)
  then show ?thesis using step st cwe_ping_written
    by (auto simp: cworker_on_ping_written_def stopped_cerror cworker_stopped_def cworker_weight_def split: if_splits)
qed (use ev in \<open>simp add: cwind_down_def\<close>)

lemma cworker_stopped_steps:
  assumes "boost_json J"
  shows "cworker_steps J evs w = Some w' \<Longrightarrow> cworker_inv w \<Longrightarrow> cworker_stopped w \<Longrightarrow>
    list_all (\<lambda>(now, ev). cwind_down ev) evs \<Longrightarrow>
    cworker_inv w' \<and> cworker_stopped w' \<and> length evs + cworker_weight w' \<le> cworker_weight w"
proof (induction evs arbitrary: w)
  case (Cons a evs)
  obtain now ev where a: "a = (now, ev)" by fastforce
  obtain w1 where s: "cworker_step J now ev w = Some w1" "cworker_steps J evs w1 = Some w'"
    using Cons.prems(1) by (auto simp: a split: option.splits)
  have "cworker_stopped w1 \<and> cworker_weight w1 < cworker_weight w"
    using cworker_stopped_step [OF Cons.prems(2,3) _ s(1)] Cons.prems(4) by (simp add: a)
  then show ?case
    using Cons.IH [OF s(2) cworker_step_inv [OF assms Cons.prems(2) s(1)]] Cons.prems(4) by (auto simp: a)
qed simp

lemma cworker_can_step:
  assumes inv: "cworker_inv w" and st: "cworker_stopped w"
    and left: "cworker_weight w > 0" "\<not> (cw_main w = cm_providing \<and> cw_ping_pc w = pg_done)"
  shows "\<exists>now ev w'. cworker_due w ev \<and> cworker_step J now ev w = Some w'"
proof (cases "cw_ping_pc w")
  case pg_waiting
  then show ?thesis using st
    by (intro exI [of _ 0] exI [of _ "cwe_timer (Inr ())"]) (simp add: cworker_stopped_def)
next
  case pg_sending
  then have "cc_ping \<in> cw_cancelled w" using inv st by (auto simp: cworker_inv_def cworker_stopped_def)
  then show ?thesis using pg_sending
    by (intro exI [of _ 0] exI [of _ "cwe_ping_written (Inl bad_args)"]) (simp add: cmay_end_def)
next
  case pg_done
  then have main: "cw_main w \<noteq> cm_done" "cw_main w \<noteq> cm_providing" using left by (auto simp: cworker_weight_def)
  then have sock: "cw_sock w = sock_closed"
    using inv st by (cases "cw_sock w"; cases "cw_main w"; auto simp: cworker_inv_def cworker_stopped_def)
  show ?thesis
  proof (cases "cw_main w")
    case cm_hello
    then show ?thesis using sock by (intro exI [of _ 0] exI [of _ "cwe_hello_written (Inl bad_args)"]) (simp add: cmay_end_def)
  next
    case cm_reading
    then show ?thesis using sock
      by (intro exI [of _ 0] exI [of _ "cwe_read (Inl bad_args) (Inl bad_args)"]) (simp add: cmay_end_def cancel_ok_def)
  next
    case cm_confirming
    then show ?thesis using sock by (intro exI [of _ 0] exI [of _ "cwe_confirmed (Inl bad_args)"]) (simp add: cmay_end_def)
  qed (use main in simp_all)
qed

text \<open>
  Property C13 (termination): a worker of the client that is stopped winds down, unless a ping that it is
  writing turns out to have been written.  From \<open>try_stop\<close> on, and but for another stop, the number of further events is bounded; until
  both coroutines have ended, either an event is due that needs neither the peer, the share nor time, since
  the stop has closed the socket and cancelled the timer, or all that is left is a
  connection in the queue of the share, which the closing of that queue resumes.  What a ping
  in the way does is \<open>late_ping_survives_stop\<close>.
\<close>

theorem stopped_client_worker_winds_down:
  assumes "boost_json J" "cworker_reachable J w"
    and "cworker_steps J evs (cworker_try_stop w) = Some w'" "list_all (\<lambda>(now, ev). cwind_down ev) evs"
  shows "length evs + cworker_weight w' \<le> cworker_weight (cworker_try_stop w) \<and>
    (cworker_weight w' = 0 \<longleftrightarrow> cw_main w' = cm_done \<and> cw_ping_pc w' = pg_done) \<and>
    (cworker_weight w' > 0 \<longrightarrow> cw_main w' = cm_providing \<and> cw_ping_pc w' = pg_done \<or>
      (\<exists>now ev w''. cworker_due w' ev \<and> cworker_step J now ev w' = Some w''))"
proof -
  have "cworker_stopped (cworker_try_stop w)" by (simp add: cworker_stopped_def cworker_ops)
  then have "cworker_inv w' \<and> cworker_stopped w' \<and> length evs + cworker_weight w' \<le> cworker_weight (cworker_try_stop w)"
    using cworker_stopped_steps [OF assms(1,3) cworker_stop_inv [OF cworker_reachable_inv [OF assms(1,2)]] _ assms(4)] by blast
  moreover have "cworker_weight w' = 0 \<longleftrightarrow> cw_main w' = cm_done \<and> cw_ping_pc w' = pg_done"
    by (cases "cw_main w'") (simp_all add: cworker_weight_def)
  ultimately show ?thesis using cworker_can_step [of w' J] by blast
qed

theorem stopped_client_worker_winds_down_witness:
  "cworker_weight (cworker_try_stop idle_cworker) = 3 \<and>
    (\<exists>w' now ev w''. cworker_steps plain_json [(21, cwe_timer (Inl (system_error operation_aborted)))]
        (cworker_try_stop idle_cworker) = Some w' \<and> cworker_weight w' \<le> 2 \<and>
      cworker_due w' ev \<and> cworker_step plain_json now ev w' = Some w'')"
proof -
  let ?w = "cworker_try_stop idle_cworker"
  let ?evs = "[(21, cwe_timer (Inl (system_error operation_aborted)))]"
  have w: "cworker_weight ?w = 3" by (simp add: idle_cworker_def cworker_ops cworker_weight_def)
  obtain w' where w': "cworker_steps plain_json ?evs ?w = Some w'" "cw_main w' = cm_reading"
    by (simp add: idle_cworker_def cworker_eval)
  have "list_all (\<lambda>(now, ev). cwind_down ev) ?evs" by (simp add: cwind_down_def)
  with stopped_client_worker_winds_down [OF boost_json_plain idle_cworker_reachable w'(1)] w w' show ?thesis by auto
qed

end
