(* ===== verification/Server_Worker_Props.thy ===== *)
theory Server_Worker_Props
  imports Server_Worker
begin

text \<open>
  What makes the server's end of a worker connection correct: its coroutines are never
  lost, a stopped worker winds down and is never handed out, a silent peer is cut off at
  its deadline, and a visit hands the socket over.  The last three properties are about
  what the code does not exclude: a confirmation that only the peer can end, two readers
  on one socket, and a visit whose message nobody sends.
\<close>

section \<open>Interpretation\<close>

interpretation worker_stop: stoppable worker_try_stop worker_handle_error w_stopping w_visited
  by unfold_locales
    (auto simp: worker_try_stop_def worker_handle_error_def worker_ops Let_def)

section \<open>Properties\<close>

text \<open>
  Property C11 (invariant): no coroutine of a worker is ever lost.  At every moment of
  every run, a coroutine is suspended in the queue exactly when the queue, one of its
  posted closures or one called handler holds its handler, and holds it once.
\<close>

theorem worker_coroutines_accounted:
  assumes "worker_reachable J w"
  shows "worker_handlers w = worker_suspended w \<and> (\<forall>c. count (worker_handlers w) c \<le> 1)"
proof -
  have "worker_handlers w = worker_suspended w"
    using worker_reachable_inv [OF assms] by (simp add: worker_inv_def worker_queue_inv_def)
  moreover have "count (worker_suspended w) c \<le> 1" for c
    by (cases c) (simp_all add: worker_suspended_def)
  ultimately show ?thesis by simp
qed

text \<open>The run of the witnesses: a worker whose queue has run its first closure.\<close>

definition idle_worker :: "nat \<Rightarrow> worker" where
  "idle_worker now = worker_run_closure 0 (worker_run now (worker_new sock_open 7 0))"

lemma idle_worker_eq:
  "idle_worker now = \<lparr>w_sock = sock_open, w_visited = False, w_visited_confirmed = False, w_id = 7,
     w_to_send = \<lparr>wq_q = [c_send], wq_vq = [], wq_closed = False\<rparr>, w_share = 0, w_stopping = False,
     w_ddl = Some (now + 60), w_ddl_action = ''recv_msgs()'', w_ddl_cancelled = False,
     w_recv = recv_reading, w_send = send_waiting, w_ddl_pc = ddl_waiting, w_visit = visit_none,
     w_posted = [], w_ready = [], w_cancelled = {}, w_sent = []\<rparr>"
  by (simp add: idle_worker_def worker_run_closure_def worker_run_def worker_new_def worker_ops
      wq_new_def run_wait_def)

lemma worker_steps_append:
  "worker_steps J (as @ bs) w = Option.bind (worker_steps J as w) (worker_steps J bs)"
  by (induction as arbitrary: w) (auto split: option.splits)

lemma worker_reachable_steps:
  "worker_reachable J w \<Longrightarrow> worker_steps J evs w = Some w' \<Longrightarrow> worker_reachable J w'"
  unfolding worker_reachable_def by (metis worker_steps_append bind.bind_lunit)

lemma worker_reachable_run: "s \<noteq> sock_moved \<Longrightarrow> worker_reachable J (worker_run now (worker_new s i share))"
  unfolding worker_reachable_def by (metis worker_steps.simps(1))

lemma idle_worker_reachable: "worker_reachable J (idle_worker now)"
  by (rule worker_reachable_steps [OF worker_reachable_run [of sock_open J now 7 0], of "[(0, ev_closure 0)]"])
    (simp_all add: idle_worker_def worker_run_def worker_new_def worker_ops)

theorem worker_coroutines_accounted_witness:
  "worker_handlers (idle_worker 3) = {#c_send#}"
  using worker_coroutines_accounted [OF idle_worker_reachable [of plain_json 3]]
  by (simp add: idle_worker_eq worker_suspended_def)

text \<open>As long as a stopped worker has something pending, an event is due that leads on.\<close>

lemma worker_can_step:
  assumes "worker_inv w" "worker_stopped w" "worker_weight w > 0"
  shows "\<exists>now ev w'. worker_due w ev \<and> worker_step J now ev w = Some w'"
proof -
  note rel = stopped_released [OF assms(1,2)]
  have read: "\<exists>now ev w'. worker_due w ev \<and> worker_step J now ev w = Some w'" if "w_recv w = recv_reading"
    using that rel(1) by (intro exI [of _ 0] exI [of _ "ev_read (Inl bad_args)"]) (simp add: may_end_def)
  have writ: "\<exists>now ev w'. worker_due w ev \<and> worker_step J now ev w = Some w'" if "w_send w = send_writing m" for m
    using that rel(1) by (intro exI [of _ 0] exI [of _ "ev_write (Inl bad_args)"]) (simp add: may_end_def)
  have timer: "\<exists>now ev w'. worker_due w ev \<and> worker_step J now ev w = Some w'" if "w_ddl_pc w = ddl_waiting"
    using that rel(3) by (intro exI [of _ 0] exI [of _ "ev_timer (Inr ())"]) simp
  have clos: "\<exists>now ev w'. worker_due w ev \<and> worker_step J now ev w = Some w'" if "w_posted w \<noteq> []"
    using that by (intro exI [of _ 0] exI [of _ "ev_closure 0"]) simp
  have res: "\<exists>now ev w'. worker_due w ev \<and> worker_step J now ev w = Some w'" if "w_ready w \<noteq> []"
    using that by (intro exI [of _ 0] exI [of _ "ev_resume 0"]) simp
  show ?thesis
  proof (cases "w_posted w = [] \<and> w_ready w = []")
    case True
    then have "w_recv w = recv_reading \<or> (\<exists>m. w_send w = send_writing m) \<or> w_ddl_pc w = ddl_waiting"
      using assms rel(2) by (auto simp: worker_weight_def worker_inv_def
          worker_queue_inv_def worker_queue_ok_def split: send_pc.splits if_splits)
    then show ?thesis using read writ timer by blast
  qed (use clos res in blast)
qed

text \<open>
  Property C12 (termination): a worker that is stopped before it was visited winds down.  From
  \<open>try_stop\<close> on, and but for another stop or a visit, whatever its socket and its timer answer and in
  whatever order its handlers run, the number of further events is bounded; as long as something is left an event is due that needs neither the
  peer nor time, since the stop has closed the socket, the queue and the wait for the deadline; and
  when nothing is left, all three coroutines have ended.
\<close>

theorem stopped_worker_winds_down:
  assumes "worker_reachable J w" "\<not> w_visited w"
    and "worker_steps J evs (worker_try_stop w) = Some w'" "list_all (\<lambda>(now, ev). wind_down ev) evs"
  shows "length evs + worker_weight w' \<le> worker_weight (worker_try_stop w) \<and>
    (worker_weight w' = 0 \<longrightarrow>
      w_recv w' = recv_done \<and> w_send w' = send_done \<and> w_ddl_pc w' = ddl_done) \<and>
    (worker_weight w' > 0 \<longrightarrow> (\<exists>now ev w''. worker_due w' ev \<and> worker_step J now ev w' = Some w''))"
proof -
  have st: "worker_stopped (worker_try_stop w)"
    using assms(2) by (simp add: worker_stopped_def worker_try_stop_def worker_ops Let_def)
  have inv: "worker_inv (worker_try_stop w)"
    using worker_step_inv [OF worker_reachable_inv [OF assms(1)], of J 0 ev_stop] by simp
  have run: "worker_stopped w' \<and> length evs + worker_weight w' \<le> worker_weight (worker_try_stop w)"
    using worker_stopped_steps [OF assms(3) inv st] assms(4) by (simp add: list_all_iff)
  have "worker_weight w' = 0 \<longrightarrow> w_recv w' = recv_done \<and> w_send w' = send_done \<and> w_ddl_pc w' = ddl_done"
    using worker_weight_0 [OF worker_steps_inv [OF assms(3) inv]] run by blast
  then show ?thesis using run worker_can_step [OF worker_steps_inv [OF assms(3) inv], of J] by auto
qed

theorem stopped_worker_winds_down_witness:
  "worker_weight (worker_try_stop (idle_worker 3)) = 7 \<and>
   (\<exists>now ev w''. worker_due (worker_try_stop (idle_worker 3)) ev \<and>
      worker_step plain_json now ev (worker_try_stop (idle_worker 3)) = Some w'')"
proof -
  have e: "\<not> w_visited (idle_worker 3)" "worker_weight (worker_try_stop (idle_worker 3)) = 7"
    by (simp_all add: idle_worker_eq worker_try_stop_def worker_ops worker_weight_def queued_def)
  show ?thesis
    using stopped_worker_winds_down [OF idle_worker_reachable e(1), where evs = "[]"] e(2) by simp
qed

lemma closed_stays_closed:
  assumes "worker_inv w" "w_sock w = sock_closed" "worker_step J now ev w = Some w'"
  shows "w_sock w' = sock_closed"
proof (cases ev)
  case (ev_resume i)
  with assms show ?thesis
    by (cases "w_ready w ! i")
      (auto simp: worker_ops worker_handle_error_def worker_try_stop_def Let_def split: if_splits)
next
  case (ev_visit_read r)
  with assms show ?thesis by (auto simp: worker_inv_def worker_flag_inv_def split: if_splits)
qed (use assms in \<open>auto simp: worker_ops worker_handle_error_def worker_try_stop_def Let_def worker_on_read_def
  worker_on_write_def worker_on_timer_def worker_ddl_check_def worker_run_closure_def worker_visit_def
  split: if_splits sum.splits send_pc.splits option.splits prod.splits\<close>)

lemma closed_stays_closed_steps:
  "worker_steps J evs w = Some w' \<Longrightarrow> worker_inv w \<Longrightarrow> w_sock w = sock_closed \<Longrightarrow> w_sock w' = sock_closed"
proof (induction evs arbitrary: w)
  case (Cons a evs)
  then show ?case
    by (cases a) (auto split: option.splits dest: worker_step_inv closed_stays_closed)
qed simp

text \<open>
  Property C19 (safety): a worker that was stopped before it was visited is never handed to
  a user: its socket is closed at once and stays closed, and a later visit fails,
  whatever happens.
\<close>

theorem stopped_worker_never_handed_out:
  assumes "worker_reachable J w" "w_stopping w" "\<not> w_visited w" "worker_steps J evs w = Some w'"
  shows "w_sock w' = sock_closed \<and> w_visit w' \<noteq> visit_returned \<and> \<not> w_visited_confirmed w'"
proof -
  have inv: "worker_inv w" by (rule worker_reachable_inv [OF assms(1)])
  then have "w_sock w = sock_closed" using assms(2,3) by (simp add: worker_inv_def worker_flag_inv_def)
  then have "w_sock w' = sock_closed" by (rule closed_stays_closed_steps [OF assms(4) inv])
  moreover have "worker_flag_inv w'" using worker_steps_inv [OF assms(4) inv] by (simp add: worker_inv_def)
  ultimately show ?thesis by (simp add: worker_flag_inv_def)
qed

theorem stopped_worker_never_handed_out_witness:
  "\<exists>w'. worker_steps plain_json
      [(5, ev_visit (Inr ()) 5 \<lparr>ep_ip = ''::1'', ep_port = 9\<rparr>), (5, ev_closure 0), (6, ev_resume 0)]
      (worker_try_stop (idle_worker 3)) = Some w' \<and> w_sock w' = sock_closed \<and> w_visit w' \<noteq> visit_returned"
proof -
  let ?w = "worker_try_stop (idle_worker 3)"
  let ?evs = "[(5, ev_visit (Inr ()) 5 \<lparr>ep_ip = ''::1'', ep_port = 9\<rparr>), (5, ev_closure 0), (6, ev_resume 0)]"
  have r: "worker_reachable plain_json ?w"
    by (rule worker_reachable_steps [OF idle_worker_reachable [of _ 3], where evs = "[(3, ev_stop)]"]) simp
  have e: "w_stopping ?w" "\<not> w_visited ?w"
    by (simp_all add: idle_worker_eq worker_try_stop_def worker_ops)
  have "worker_steps plain_json ?evs ?w \<noteq> None"
    by (simp add: idle_worker_eq worker_try_stop_def worker_ops worker_visit_def
        worker_run_closure_def run_defs)
  then obtain w' where w': "worker_steps plain_json ?evs ?w = Some w'" by blast
  with stopped_worker_never_handed_out [OF r e w'] show ?thesis by blast
qed

text \<open>The wait of \<open>ddl_actor\<close> ends before the deadline, by a change of the expiry: it waits again.\<close>

lemma early_timer:
  assumes "worker_step J now (ev_timer r) w = Some w'" "\<not> w_stopping w" "\<not> w_visited_confirmed w" "w_ddl w = Some d"
    and "now < d" "r = Inr () \<or> r = Inl (system_error operation_aborted)"
  shows "w' = worker_ddl_wait w"
  using assms by (auto simp: worker_on_timer_def worker_ddl_check_def split: if_splits)

lemma early_timers:
  assumes "worker_steps J (map (\<lambda>(now, r). (now, ev_timer r)) trs) w = Some w'" "\<not> w_stopping w"
    "\<not> w_visited_confirmed w" "w_ddl w = Some d"
    and "list_all (\<lambda>(now, r). now < d \<and> (r = Inr () \<or> r = Inl (system_error operation_aborted))) trs"
  shows "w' = (if trs = [] then w else worker_ddl_wait w)"
  using assms
proof (induction trs arbitrary: w)
  case (Cons tr trs)
  obtain now r where tr: "tr = (now, r)" by fastforce
  obtain w1 where w1: "worker_step J now (ev_timer r) w = Some w1"
    "worker_steps J (map (\<lambda>(now, r). (now, ev_timer r)) trs) w1 = Some w'"
    using Cons.prems(1) by (auto simp: tr simp del: worker_step.simps split: option.splits)
  have "w1 = worker_ddl_wait w"
    using early_timer [OF w1(1) Cons.prems(2-4)] Cons.prems(5) by (simp add: tr)
  then show ?case using Cons.IH [OF w1(2)] Cons.prems by (auto simp: worker_ddl_wait_def)
qed simp

text \<open>
  The deadline of a silent peer.  However often the timer's wait
  ends before sixty seconds have passed since the worker began to read, nothing
  changes but that it waits again; the first time it ends after that, the worker is stopped.
\<close>

theorem silent_worker_stopped_at_deadline:
  assumes "w = worker_recv_loop t w0" "w_ddl_pc w = ddl_waiting" "\<not> w_stopping w" "\<not> w_visited w"
    "\<not> w_visited_confirmed w"
    and "list_all (\<lambda>(now, r). now < t + 60 \<and> (r = Inr () \<or> r = Inl (system_error operation_aborted))) trs"
    and "worker_steps J (map (\<lambda>(now, r). (now, ev_timer r)) trs) w = Some w1" "t + 60 \<le> late"
  shows "w1 = (if trs = [] then w else worker_ddl_wait w) \<and>
    (\<exists>w'. worker_steps J [(late, ev_timer (Inr ()))] w1 = Some w' \<and>
      worker_stopped w' \<and> w_sock w' = sock_closed \<and> c_recv \<in> w_cancelled w' \<and> w_ddl_pc w' = ddl_done)"
proof -
  have d: "w_ddl w = Some (t + 60)" by (simp add: assms(1) worker_recv_loop_def worker_set_ddl_def)
  have early: "w1 = (if trs = [] then w else worker_ddl_wait w)"
    by (rule early_timers [OF assms(7,3,5) d assms(6)])
  have "w_recv w = recv_reading" by (simp add: assms(1) worker_recv_loop_def)
  then show ?thesis
    using assms(2-5,8) d
    by (simp add: early worker_on_timer_def worker_ddl_check_def worker_stopped_def worker_ddl_wait_def
        worker_try_stop_def worker_ops)
qed

theorem silent_worker_stopped_at_deadline_witness:
  "\<exists>w'. worker_steps plain_json [(63, ev_timer (Inr ()))]
      (worker_ddl_wait (worker_recv_loop 3 (idle_worker 2))) = Some w' \<and> w_sock w' = sock_closed"
proof -
  let ?w = "worker_recv_loop 3 (idle_worker 2)"
  have e: "w_ddl_pc ?w = ddl_waiting" "\<not> w_stopping ?w" "\<not> w_visited ?w" "\<not> w_visited_confirmed ?w"
    "worker_steps plain_json (map (\<lambda>(now, r). (now, ev_timer r)) [(50, Inl (system_error operation_aborted))]) ?w =
      Some (worker_ddl_wait ?w)"
    by (simp_all add: idle_worker_eq worker_ops worker_on_timer_def worker_ddl_check_def)
  show ?thesis
    using silent_worker_stopped_at_deadline [OF refl e(1-4) _ e(5), of 63] by (simp del: worker_steps.simps) blast
qed

definition worker_idle :: "worker \<Rightarrow> bool" where
  "worker_idle w \<longleftrightarrow> w_sock w = sock_open \<and> w_visit w = visit_none \<and> w_recv w = recv_reading \<and>
    w_send w = send_waiting \<and> w_to_send w = \<lparr>wq_q = [c_send], wq_vq = [], wq_closed = False\<rparr> \<and>
    w_posted w = [] \<and> w_ready w = []"

definition handshake :: "nat \<Rightarrow> u64 \<Rightarrow> tcp_endpoint \<Rightarrow> json list \<Rightarrow> json \<Rightarrow> (nat \<times> worker_event) list" where
  "handshake t epoch ep pings conf =
    [(t, ev_visit (Inr ()) epoch ep), (t, ev_read (Inl (system_error operation_aborted))),
     (t, ev_closure 0), (t, ev_resume 0), (t, ev_resume 0), (t, ev_write (Inr ()))] @
    map (\<lambda>p. (t, ev_visit_read (Inr p))) pings @ [(t, ev_visit_read (Inr conf))]"

lemma skip_pings:
  "w_visit w = visit_reading \<Longrightarrow> c_visit \<notin> w_cancelled w \<Longrightarrow> w_sock w = sock_open \<Longrightarrow>
    list_all (\<lambda>p. unmarshal_msg J [T_ping, T_visit_confirmed] p = Inr M_ping) pings \<Longrightarrow>
    worker_steps J (map (\<lambda>p. (t, ev_visit_read (Inr p))) pings) w = Some w"
  by (induction pings) (auto simp: may_end_def worker_on_visit_read_def)

lemma handshake_start:
  assumes "worker_idle w" "marshal_msg J (M_visit_tcp_share \<lparr>vt_epoch = epoch, vt_peer = ep\<rparr>) = Inr m"
  shows "\<exists>w1. worker_steps J [(t, ev_visit (Inr ()) epoch ep), (t, ev_read (Inl (system_error operation_aborted))),
     (t, ev_closure 0), (t, ev_resume 0), (t, ev_resume 0), (t, ev_write (Inr ()))] w = Some w1 \<and>
     w_visit w1 = visit_reading \<and> c_visit \<notin> w_cancelled w1 \<and> w_sent w1 = w_sent w @ [m] \<and>
     w_recv w1 = recv_done \<and> w_stopping w1 = w_stopping w \<and> w_sock w1 = sock_open"
  using assms
  by (simp add: worker_idle_def worker_visit_def worker_ops may_end_def worker_on_read_def
      worker_handle_error_def worker_run_closure_def run_provide_def worker_on_write_def insert_Diff_if)

text \<open>
  The handover.  A visit to an idle worker aborts its read
  without stopping it, sends exactly the visit message, skips the pings that the peer
  may still have sent, and on the confirmation gives the socket out.
\<close>

theorem visit_hands_socket_over:
  assumes "boost_json J" "worker_idle w"
    and "list_all (\<lambda>p. unmarshal_msg J [T_ping, T_visit_confirmed] p = Inr M_ping) pings"
    and "unmarshal_msg J [T_ping, T_visit_confirmed] conf = Inr M_visit_confirmed"
  shows "\<exists>m w'. marshal_msg J (M_visit_tcp_share \<lparr>vt_epoch = epoch, vt_peer = ep\<rparr>) = Inr m \<and>
    worker_steps J (handshake t epoch ep pings conf) w = Some w' \<and>
    w_visit w' = visit_returned \<and> w_sock w' = sock_moved \<and> w_sent w' = w_sent w @ [m] \<and>
    w_recv w' = recv_done \<and> w_stopping w' = w_stopping w \<and> w_ddl w' = None"
proof -
  obtain m where m: "marshal_msg J (M_visit_tcp_share \<lparr>vt_epoch = epoch, vt_peer = ep\<rparr>) = Inr m"
    using value_from_object [OF assms(1)] marshal_msg_object [OF assms(1)] by blast
  obtain w1 where w1: "worker_steps J [(t, ev_visit (Inr ()) epoch ep), (t, ev_read (Inl (system_error operation_aborted))),
     (t, ev_closure 0), (t, ev_resume 0), (t, ev_resume 0), (t, ev_write (Inr ()))] w = Some w1"
    and v: "w_visit w1 = visit_reading" "c_visit \<notin> w_cancelled w1" "w_sent w1 = w_sent w @ [m]"
     "w_recv w1 = recv_done" "w_stopping w1 = w_stopping w" "w_sock w1 = sock_open"
    using handshake_start [OF assms(2) m] by blast
  show ?thesis
    using m v assms(4) skip_pings [OF v(1,2,6) assms(3)]
    unfolding handshake_def worker_steps_append w1
    by (simp add: worker_steps_append may_end_def worker_on_visit_read_def worker_cancel_ddl_def)
qed

lemma plain_visit_reads:
  "unmarshal_msg plain_json [T_ping, T_visit_confirmed] ping_json = Inr M_ping"
  "unmarshal_msg plain_json [T_ping, T_visit_confirmed]
    (JObject [(''msg_type'', JString ''visit_confirmed'')]) = Inr M_visit_confirmed"
  by (simp_all add: plain_eval visit_confirmed_of_json_def)

theorem visit_hands_socket_over_witness:
  "\<exists>w'. worker_steps plain_json (handshake 9 5 \<lparr>ep_ip = ''::1'', ep_port = 9\<rparr> [ping_json, ping_json]
      (JObject [(''msg_type'', JString ''visit_confirmed'')])) (idle_worker 3) = Some w' \<and>
    w_visit w' = visit_returned \<and> w_sock w' = sock_moved"
proof -
  have "worker_idle (idle_worker 3)" by (simp add: worker_idle_def idle_worker_eq)
  moreover have "list_all (\<lambda>p. unmarshal_msg plain_json [T_ping, T_visit_confirmed] p = Inr M_ping)
      [ping_json, ping_json]" by (simp add: plain_visit_reads)
  ultimately show ?thesis
    using visit_hands_socket_over [OF boost_json_plain _ _ plain_visit_reads(2)] by blast
qed

lemma visit_keeps_reading:
  assumes "worker_inv w" "w_visit w = visit_reading" "worker_step J now ev w = Some w'" "\<forall>r. ev \<noteq> ev_visit_read r"
  shows "w_visit w' = visit_reading"
proof (cases ev)
  case (ev_resume i)
  have "w_visit w' = w_visit w" if "completed (w_ready w ! i) \<noteq> c_visit"
    using assms(3) ev_resume that
    by (cases "w_ready w ! i") (auto simp: worker_recv_loop_def worker_set_ddl_def split: if_splits)
  moreover have "completed (w_ready w ! i) \<noteq> c_visit"
    using assms ev_resume ready_suspended [of w "w_ready w ! i"] by (auto simp: worker_inv_def split: if_splits)
  ultimately show ?thesis using assms(2) by simp
qed (use assms in \<open>auto simp: worker_on_read_def worker_on_write_def worker_send_loop_def worker_on_timer_def
  worker_ddl_check_def worker_run_closure_def split: if_splits sum.splits send_pc.splits option.splits prod.splits\<close>)

lemma visit_keeps_reading_steps:
  "worker_steps J evs w = Some w' \<Longrightarrow> worker_inv w \<Longrightarrow> w_visit w = visit_reading \<Longrightarrow>
    \<forall>now r. (now, ev_visit_read r) \<notin> set evs \<Longrightarrow> w_visit w' = visit_reading"
proof (induction evs arbitrary: w)
  case (Cons a evs)
  obtain now ev where a: "a = (now, ev)" by (cases a)
  with Cons.prems obtain w1 where s: "worker_step J now ev w = Some w1" "worker_steps J evs w1 = Some w'"
    by (auto split: option.splits)
  have "w_visit w1 = visit_reading"
    using visit_keeps_reading [OF Cons.prems(2,3) s(1)] Cons.prems(4) a by auto
  then show ?case using Cons.IH [OF s(2) worker_step_inv [OF Cons.prems(2) s(1)]] Cons.prems(4) by auto
qed simp

text \<open>
  Once a visit waits for its confirmation, only the peer ends it.
  Neither the deadline that \<open>visit\<close> sets, nor the stop of the worker or of its share, nor
  any other event ends the wait or closes the socket, and the read is never aborted.
\<close>

theorem visit_ends_only_by_peer:
  assumes "worker_reachable J w" "w_visit w = visit_reading"
    and "worker_steps J evs w = Some w'" "\<forall>now r. (now, ev_visit_read r) \<notin> set evs"
  shows "w_visit w' = visit_reading \<and> w_sock w' = sock_open \<and>
    worker_step J now (ev_visit_read (Inl (system_error operation_aborted))) w' = None"
proof -
  have inv: "worker_inv w" by (rule worker_reachable_inv [OF assms(1)])
  have v: "w_visit w' = visit_reading" by (rule visit_keeps_reading_steps [OF assms(3) inv assms(2,4)])
  have "worker_flag_inv w'" using worker_steps_inv [OF assms(3) inv] by (simp add: worker_inv_def)
  then have "c_visit \<notin> w_cancelled w'" "w_sock w' = sock_open"
    using v by (cases "w_sock w'"; simp add: worker_flag_inv_def)+
  then show ?thesis using v by (simp add: may_end_def)
qed

definition visited_worker :: worker where
  "visited_worker = the (worker_steps plain_json
    [(9, ev_visit (Inr ()) 5 \<lparr>ep_ip = ''::1'', ep_port = 9\<rparr>), (9, ev_closure 0), (9, ev_resume 1)] (idle_worker 3))"

lemma visited_worker_steps:
  "worker_steps plain_json
    [(9, ev_visit (Inr ()) 5 \<lparr>ep_ip = ''::1'', ep_port = 9\<rparr>), (9, ev_closure 0), (9, ev_resume 1)] (idle_worker 3)
    = Some visited_worker \<and> w_visit visited_worker = visit_reading \<and> w_visited visited_worker \<and>
    w_ddl visited_worker = Some 29 \<and> w_ddl_pc visited_worker = ddl_waiting \<and> \<not> w_stopping visited_worker \<and>
    \<not> w_visited_confirmed visited_worker"
  unfolding visited_worker_def
  by (simp add: idle_worker_eq worker_visit_def plain_visit worker_ops worker_run_closure_def run_provide_def)

theorem visit_ends_only_by_peer_witness:
  "\<exists>w'. worker_steps plain_json [(100, ev_timer (Inr ())), (101, ev_stop)] visited_worker = Some w' \<and>
    w_visit w' = visit_reading \<and> w_sock w' = sock_open"
proof -
  have r: "worker_reachable plain_json visited_worker"
    using worker_reachable_steps [OF idle_worker_reachable] visited_worker_steps by blast
  have "worker_steps plain_json [(100, ev_timer (Inr ())), (101, ev_stop)] visited_worker \<noteq> None"
    using visited_worker_steps by (simp add: worker_on_timer_def worker_ddl_check_def)
  then obtain w' where "worker_steps plain_json [(100, ev_timer (Inr ())), (101, ev_stop)] visited_worker = Some w'"
    by blast
  with visit_ends_only_by_peer [OF r _ this] visited_worker_steps show ?thesis by auto
qed

definition pong_then_visit :: "(nat \<times> worker_event) list" where
  "pong_then_visit =
    [(0, ev_closure 0), (1, ev_read (Inr ping_json)), (1, ev_closure 0), (1, ev_resume 0),
     (2, ev_visit (Inr ()) 5 \<lparr>ep_ip = ''::1'', ep_port = 9\<rparr>), (2, ev_write (Inr ())),
     (2, ev_resume 0), (2, ev_closure 0), (2, ev_closure 0), (2, ev_resume 1)]"

text \<open>
  Two coroutines can read the same socket.  When the visit begins
  while \<open>recv_msgs\<close> is waiting for its pong to be taken, \<open>recv_msgs\<close> goes on reading
  after that, next to the visit that waits for the confirmation: a state in which
  both read, neither cancelled, is reached.
\<close>

theorem two_readers_reachable:
  "\<exists>w. worker_steps plain_json pong_then_visit (worker_run 0 (worker_new sock_open 7 0)) = Some w \<and>
    w_recv w = recv_reading \<and> w_visit w = visit_reading \<and> w_sock w = sock_open \<and>
    c_recv \<notin> w_cancelled w \<and> c_visit \<notin> w_cancelled w"
  by (simp add: pong_then_visit_def worker_run_def worker_new_def worker_ops wq_new_def
      worker_run_closure_def run_defs worker_on_read_def plain_ping plain_pong may_end_def
      worker_visit_def plain_visit worker_on_write_def)

definition visit_stuck :: "worker \<Rightarrow> bool" where
  "visit_stuck w \<longleftrightarrow> w_visit w = visit_providing \<and> w_send w = send_done \<and> w_visited w \<and>
    \<not> wq_closed (w_to_send w) \<and> wq_q (w_to_send w) = [] \<and>
    list_all (\<lambda>t. \<exists>h m. t = provide_task h m) (w_posted w) \<and> w_ready w = []"

lemma visit_stuck_step:
  assumes "visit_stuck w" "worker_step J now ev w = Some w'"
  shows "visit_stuck w'"
proof (cases ev)
  case (ev_closure i)
  then have i: "i < length (w_posted w)" using assms(2) by (auto split: if_splits)
  then obtain h m where t: "w_posted w ! i = provide_task h m"
    using assms(1) nth_mem [OF i] unfolding visit_stuck_def list_all_iff by blast
  have "list_all (\<lambda>t. \<exists>h m. t = provide_task h m) (remove_nth i (w_posted w))"
    using assms(1) set_remove_nth [of i "w_posted w"] by (auto simp: visit_stuck_def list_all_iff)
  then show ?thesis
    using assms i t ev_closure by (auto simp: visit_stuck_def worker_run_closure_def run_provide_def)
qed (use assms in \<open>auto simp: visit_stuck_def worker_on_read_def worker_handle_error_def worker_post_def
  worker_on_timer_def worker_ddl_check_def worker_try_stop_def Let_def
  split: if_splits sum.splits option.splits\<close>)

lemma visit_stuck_steps: "worker_steps J evs w = Some w' \<Longrightarrow> visit_stuck w \<Longrightarrow> visit_stuck w'"
proof (induction evs arbitrary: w)
  case (Cons a evs)
  then show ?case by (cases a) (auto simp del: worker_step.simps split: option.splits dest: visit_stuck_step)
qed simp

definition cancelled_mid_write :: "(nat \<times> worker_event) list" where
  "cancelled_mid_write =
    [(0, ev_closure 0), (1, ev_read (Inr ping_json)), (1, ev_closure 0), (1, ev_resume 0), (1, ev_resume 0),
     (2, ev_visit (Inr ()) 5 \<lparr>ep_ip = ''::1'', ep_port = 9\<rparr>),
     (2, ev_write (Inl (system_error operation_aborted)))]"

text \<open>
  A visit can wait for ever to send its message.  When the
  \<open>s_.cancel()\<close> of the visit hits \<open>send_msgs\<close> in the middle of a write, \<open>send_msgs\<close> ends
  without stopping the worker, and nothing takes the message any more: from the state
  reached, no sequence of events gets the visit any further, a stop included.
\<close>

theorem visit_can_hang:
  "\<exists>w. worker_steps plain_json cancelled_mid_write (worker_run 0 (worker_new sock_open 7 0)) = Some w \<and>
    (\<forall>J evs w'. worker_steps J evs w = Some w' \<longrightarrow> w_visit w' = visit_providing)"
proof -
  have "\<exists>w. worker_steps plain_json cancelled_mid_write (worker_run 0 (worker_new sock_open 7 0)) = Some w \<and>
      visit_stuck w"
    by (simp add: cancelled_mid_write_def worker_run_def worker_new_def worker_ops wq_new_def
        worker_run_closure_def run_defs worker_on_read_def plain_ping plain_pong may_end_def
        worker_visit_def plain_visit worker_on_write_def worker_handle_error_def visit_stuck_def)
  then show ?thesis using visit_stuck_steps by (metis visit_stuck_def)
qed

theorem visit_can_hang_witness:
  "\<exists>w w'. worker_steps plain_json cancelled_mid_write (worker_run 0 (worker_new sock_open 7 0)) = Some w \<and>
    worker_steps plain_json [(100, ev_stop)] w = Some w' \<and> w_visit w' = visit_providing"
proof -
  obtain w where w: "worker_steps plain_json cancelled_mid_write (worker_run 0 (worker_new sock_open 7 0)) = Some w"
    and stuck: "\<forall>J evs w'. worker_steps J evs w = Some w' \<longrightarrow> w_visit w' = visit_providing"
    using visit_can_hang by blast
  have "worker_steps plain_json [(100, ev_stop)] w = Some (worker_try_stop w)" by simp
  then show ?thesis using w stuck by blast
qed

end
