(* ===== verification/Session.thy ===== *)
theory Session
  imports Server_Worker_Props Client_Worker
begin

text \<open>
  A session: both ends of one worker connection, the server's of \<open>Server_Worker\<close> and the client's
  of \<open>Client_Worker\<close>, with the frames that are on their way in each direction.

  The session begins when the server has read the greeting of the client.  A frame is on its way from the
  moment it is handed to \<open>send_msg\<close>; it arrives as the value its text parses to, in the order
  in which it was sent, or not at all (\<open>Framing.frames_arrive_in_order\<close>).  Each end moves by its own
  steps; the only thing that ties them is that a read that succeeds takes the next frame.  Frames are
  whole: what a cancelled read or write has already moved of one is the concern of
  \<open>Framing.cut_frame_misread\<close>.  What comes after the handover are the bytes of the user, which no
  longer concern the two workers.
\<close>

section \<open>State and steps\<close>

record session =
  ss_srv :: worker
  ss_cli :: cworker
  ss_up :: "json list"
  ss_down :: "json list"

text \<open>The values that the client has handed to \<open>send_msg\<close>.\<close>

fun sent_value :: "json_lib \<Rightarrow> action \<Rightarrow> json list" where
  "sent_value J (a_send m) = (case marshal_msg J m of Inr jv \<Rightarrow> [norm jv] | Inl e \<Rightarrow> [])"
| "sent_value J _ = []"

definition client_sent :: "json_lib \<Rightarrow> cworker \<Rightarrow> json list" where
  "client_sent J w = concat (map (sent_value J) (cw_trace w))"

definition server_sent :: "worker \<Rightarrow> json list" where
  "server_sent w = map norm (w_sent w)"

definition session_start :: "json_lib \<Rightarrow> nat \<Rightarrow> worker \<Rightarrow> cworker \<Rightarrow> session" where
  "session_start J now w c = \<lparr>ss_srv = worker_run now w, ss_cli = cworker_run J c, ss_up = [], ss_down = []\<rparr>"

datatype session_event = sse_server worker_event | sse_client cworker_event

text \<open>What an event takes from the frames on their way: \<open>None\<close> if it reads what is not there.\<close>

fun server_takes :: "worker_event \<Rightarrow> json list \<Rightarrow> json list option" where
  "server_takes (ev_read (Inr jv)) (x # up) = (if jv = x then Some up else None)"
| "server_takes (ev_read (Inr jv)) [] = None"
| "server_takes (ev_visit_read (Inr jv)) (x # up) = (if jv = x then Some up else None)"
| "server_takes (ev_visit_read (Inr jv)) [] = None"
| "server_takes _ up = Some up"

fun client_takes :: "cworker_event \<Rightarrow> json list \<Rightarrow> json list option" where
  "client_takes (cwe_read (Inr jv) c) (x # down) = (if jv = x then Some down else None)"
| "client_takes (cwe_read (Inr jv) c) [] = None"
| "client_takes _ down = Some down"

fun session_step :: "json_lib \<Rightarrow> nat \<Rightarrow> session_event \<Rightarrow> session \<Rightarrow> session option" where
  "session_step J now (sse_server ev) s =
     (case (server_takes ev (ss_up s), worker_step J now ev (ss_srv s)) of
       (Some up, Some w) \<Rightarrow> Some (s\<lparr>ss_srv := w, ss_up := up,
         ss_down := ss_down s @ drop (length (server_sent (ss_srv s))) (server_sent w)\<rparr>)
     | _ \<Rightarrow> None)"
| "session_step J now (sse_client ev) s =
     (case (client_takes ev (ss_down s), cworker_step J now ev (ss_cli s)) of
       (Some down, Some c) \<Rightarrow> Some (s\<lparr>ss_cli := c, ss_down := down,
         ss_up := ss_up s @ drop (length (client_sent J (ss_cli s))) (client_sent J c)\<rparr>)
     | _ \<Rightarrow> None)"

fun session_steps :: "json_lib \<Rightarrow> (nat \<times> session_event) list \<Rightarrow> session \<Rightarrow> session option" where
  "session_steps J [] s = Some s"
| "session_steps J ((now, ev) # evs) s =
     (case session_step J now ev s of None \<Rightarrow> None | Some s' \<Rightarrow> session_steps J evs s')"

definition session_reachable :: "json_lib \<Rightarrow> session \<Rightarrow> bool" where
  "session_reachable J s \<longleftrightarrow> (\<exists>now sock i a share sid j evs. sock \<noteq> sock_moved \<and>
    session_steps J evs (session_start J now (worker_new sock i share) (cworker_new a sid j)) = Some s)"

lemma session_reachable_start:
  "sock \<noteq> sock_moved \<Longrightarrow> session_reachable J (session_start J now (worker_new sock i share) (cworker_new a sid j))"
  unfolding session_reachable_def by (intro exI conjI) (assumption, rule session_steps.simps(1))

section \<open>What the ends send\<close>

text \<open>The values that the server's worker holds or has sent.\<close>

definition worker_values :: "worker \<Rightarrow> json set" where
  "worker_values w = {m. \<exists>h. provide_task h m \<in> set (w_posted w)} \<union> snd ` set (wq_vq (w_to_send w)) \<union>
    {m. \<exists>h. wait_done h m \<in> set (w_ready w)} \<union> set (w_sent w)"

text \<open>Pongs, and visits once there was one.\<close>

definition worker_says :: "json_lib \<Rightarrow> worker \<Rightarrow> json \<Rightarrow> bool" where
  "worker_says J w m \<longleftrightarrow> marshal_msg J M_pong = Inr m \<or>
    w_visited w \<and> (\<exists>v. marshal_msg J (M_visit_tcp_share v) = Inr m)"

definition worker_polite :: "json_lib \<Rightarrow> worker \<Rightarrow> bool" where
  "worker_polite J w \<longleftrightarrow> (\<forall>m\<in>worker_values w. worker_says J w m)"

lemma worker_values_upd [simp]:
  "worker_values (w\<lparr>w_sock := a\<rparr>) = worker_values w" "worker_values (w\<lparr>w_visited := b\<rparr>) = worker_values w"
  "worker_values (w\<lparr>w_visited_confirmed := b1\<rparr>) = worker_values w" "worker_values (w\<lparr>w_stopping := b2\<rparr>) = worker_values w"
  "worker_values (w\<lparr>w_ddl := c\<rparr>) = worker_values w" "worker_values (w\<lparr>w_ddl_action := d\<rparr>) = worker_values w"
  "worker_values (w\<lparr>w_recv := e\<rparr>) = worker_values w" "worker_values (w\<lparr>w_send := f\<rparr>) = worker_values w"
  "worker_values (w\<lparr>w_ddl_pc := g\<rparr>) = worker_values w" "worker_values (w\<lparr>w_visit := h\<rparr>) = worker_values w"
  "worker_values (w\<lparr>w_cancelled := i\<rparr>) = worker_values w" "worker_values (w\<lparr>w_ddl_cancelled := b3\<rparr>) = worker_values w"
  by (simp_all add: worker_values_def)

lemma worker_values_post [simp]:
  "worker_values (worker_post (provide_task h m) w) = insert m (worker_values w)"
  "worker_values (worker_post (wait_task h) w) = worker_values w"
  "worker_values (worker_close_queue w) = worker_values w"
  by (auto simp: worker_post_def worker_close_queue_def worker_values_def)

lemma worker_values_ops [simp]:
  "worker_values (worker_try_stop w) = worker_values w" "worker_values (worker_handle_error x w) = worker_values w"
  "worker_values (worker_recv_loop now w) = worker_values w" "worker_values (worker_send_loop w) = worker_values w"
  "worker_values (worker_set_ddl act after now w) = worker_values w" "worker_values (worker_cancel_ddl w) = worker_values w"
  "worker_values (worker_cancel_socket w) = worker_values w"
  by (simp_all add: worker_try_stop_def worker_handle_error_def worker_recv_loop_def worker_send_loop_def
      worker_set_ddl_def worker_cancel_ddl_def worker_close_socket_def worker_cancel_socket_def Let_def)

lemma visited_ops [simp]:
  "w_visited (worker_try_stop w) = w_visited w" "w_visited (worker_handle_error x w) = w_visited w"
  "w_visited (worker_recv_loop now w) = w_visited w" "w_visited (worker_send_loop w) = w_visited w"
  "w_visited (worker_post t w) = w_visited w" "w_visited (worker_close_queue w) = w_visited w"
  "w_visited (worker_cancel_ddl w) = w_visited w" "w_visited (worker_set_ddl act after now w) = w_visited w"
  by (simp_all add: worker_try_stop_def worker_handle_error_def worker_recv_loop_def worker_send_loop_def
      worker_set_ddl_def worker_cancel_ddl_def worker_close_socket_def worker_cancel_socket_def worker_post_def
      worker_close_queue_def Let_def)

lemma values_iff:
  "m \<in> worker_values w \<longleftrightarrow> (\<exists>h. provide_task h m \<in> set (w_posted w)) \<or> (\<exists>h. (h, m) \<in> set (wq_vq (w_to_send w))) \<or>
    (\<exists>h. wait_done h m \<in> set (w_ready w)) \<or> m \<in> set (w_sent w)"
  by (force simp: worker_values_def)

lemma run_task_values:
  assumes "run_task t q = (q', cs)" "(h, m) \<in> set (wq_vq q') \<or> wait_done h m \<in> set cs"
  shows "(\<exists>h. (h, m) \<in> set (wq_vq q)) \<or> (\<exists>h. t = provide_task h m)"
  using assms by (cases t) (auto simp: run_defs split: if_splits list.splits)

lemma worker_values_closure:
  assumes "i < length (w_posted w)"
  shows "worker_values (worker_run_closure i w) \<subseteq> worker_values w"
proof
  fix m assume m: "m \<in> worker_values (worker_run_closure i w)"
  obtain q' cs where r: "run_task (w_posted w ! i) (w_to_send w) = (q', cs)" by fastforce
  have t: "w_posted w ! i \<in> set (w_posted w)" using assms by simp
  consider h where "provide_task h m \<in> set (remove_nth i (w_posted w))"
    | h where "(h, m) \<in> set (wq_vq q') \<or> wait_done h m \<in> set cs" | h where "wait_done h m \<in> set (w_ready w)"
    | "m \<in> set (w_sent w)"
    using m unfolding values_iff worker_run_closure_def r by auto
  then show "m \<in> worker_values w"
  proof cases
    case (2 h)
    then show ?thesis using run_task_values [OF r 2] t unfolding values_iff by metis
  qed (use set_remove_nth [of i "w_posted w"] in \<open>unfold values_iff, blast+\<close>)
qed

lemma values_sent: "w_sent w = xs \<Longrightarrow> worker_values (w\<lparr>w_sent := xs @ [m]\<rparr>) = insert m (worker_values w)"
  by (auto simp: worker_values_def)

lemma worker_values_resume:
  assumes "i < length (w_ready w)"
  shows "worker_values (worker_resume now (w_ready w ! i) (w\<lparr>w_ready := remove_nth i (w_ready w)\<rparr>)) \<subseteq> worker_values w"
proof -
  have v: "worker_values (w\<lparr>w_ready := remove_nth i (w_ready w)\<rparr>) \<subseteq> worker_values w"
    using set_remove_nth [of i "w_ready w"] unfolding subset_iff values_iff by simp blast
  have "m \<in> worker_values w" if "w_ready w ! i = wait_done h m" for h m
    using nth_mem [OF assms] that unfolding values_iff by metis
  then show ?thesis using v by (cases "w_ready w ! i") (simp_all add: values_sent)
qed

lemma visited_step: "worker_step J now ev w = Some w' \<Longrightarrow> w_visited w \<Longrightarrow> w_visited w'"
proof (cases ev)
  case (ev_resume i)
  assume "worker_step J now ev w = Some w'" "w_visited w"
  then show ?thesis using ev_resume by (cases "w_ready w ! i") (auto split: if_splits)
qed (auto simp: worker_on_read_def worker_on_write_def worker_on_visit_read_def worker_on_timer_def worker_ddl_check_def
  worker_run_closure_def worker_visit_def worker_cancel_socket_def Let_def
  split: if_splits sum.splits send_pc.splits option.splits prod.splits)

lemma worker_polite_step:
  assumes "worker_polite J w" "worker_step J now ev w = Some w'"
  shows "worker_polite J w'"
proof -
  have says: "worker_says J w' m" if "worker_says J w m" for m
    using that visited_step [OF assms(2)] by (auto simp: worker_says_def)
  have "worker_values w' \<subseteq> worker_values w \<union> {m. worker_says J w' m}"
  proof (cases ev)
    case (ev_read r)
    then show ?thesis using assms(2)
      by (auto simp: worker_on_read_def worker_says_def ebind_Inr_iff split: if_splits sum.splits)
  next
    case (ev_write r)
    then show ?thesis using assms(2) by (auto simp: worker_on_write_def split: if_splits sum.splits send_pc.splits)
  next
    case (ev_visit_read r)
    then show ?thesis using assms(2) by (auto simp: worker_on_visit_read_def split: if_splits sum.splits)
  next
    case (ev_timer r)
    then show ?thesis using assms(2)
      by (auto simp: worker_on_timer_def worker_ddl_check_def split: if_splits sum.splits option.splits)
  next
    case (ev_closure i)
    then show ?thesis using assms(2) worker_values_closure by (auto split: if_splits)
  next
    case (ev_resume i)
    then show ?thesis using assms(2) worker_values_resume by (auto split: if_splits)
  next
    case (ev_visit c epoch ep)
    then show ?thesis using assms(2)
      by (auto simp: worker_visit_def worker_says_def worker_cancel_socket_def Let_def split: if_splits sum.splits)
  next
    case ev_stop
    then show ?thesis using assms(2) by auto
  qed
  then show ?thesis using assms(1) says unfolding worker_polite_def by blast
qed

text \<open>What a step of the client adds to its trace.\<close>

lemma client_trace_step:
  assumes "cworker_step J now ev c = Some c'"
  shows "\<exists>as. cw_trace c' = cw_trace c @ as \<and> (\<forall>m. a_send m \<in> set as \<longrightarrow> m = M_ping \<or> m = M_visit_confirmed) \<and>
    (\<forall>v. a_recv (M_visit_tcp_share v) \<in> set as \<longrightarrow>
      (\<exists>jv q. ev = cwe_read (Inr jv) q \<and> unmarshal_msg J [T_visit_tcp_share, T_pong] jv = Inr (M_visit_tcp_share v)))"
proof -
  have stop: "\<exists>as. cw_trace (cworker_try_stop x) = cw_trace x @ as \<and> set as \<subseteq> {a_close}" for x
    by (simp add: cworker_ops)
  have err: "\<exists>as. cw_trace (cworker_handle_error e x) = cw_trace x @ as \<and> set as \<subseteq> {a_close}" for e x
    using stop by (simp add: cworker_handle_error_def)
  have fail: "\<exists>as. cw_trace (cworker_failed e x) = cw_trace x @ as \<and> set as \<subseteq> {a_close}" for e x
    using err by (simp add: cworker_failed_def)
  have send: "\<exists>as. cw_trace (cworker_send J m pc x) = cw_trace x @ as \<and> set as \<subseteq> {a_close, a_send m}" for m pc x
    using fail [of _ x] by (fastforce simp: cworker_send_def split: sum.split)
  have loop: "cw_trace (cworker_loop t x) = cw_trace x" for t x by (simp add: cworker_loop_def)
  show ?thesis
  proof (cases ev)
    case (cwe_hello_written r)
    then show ?thesis using assms fail [of _ c]
      by (cases r) (fastforce simp: cworker_on_hello_written_def loop split: if_splits)+
  next
    case (cwe_read r q)
    show ?thesis
    proof (cases "ebind r (unmarshal_msg J [T_visit_tcp_share, T_pong])")
      case (Inl e)
      then show ?thesis using assms cwe_read fail [of e c] by (fastforce simp: cworker_on_read_def split: if_splits)
    next
      case (Inr m)
      then obtain jv where jv: "r = Inr jv" "unmarshal_msg J [T_visit_tcp_share, T_pong] jv = Inr m"
        by (auto simp: ebind_Inr_iff)
      show ?thesis
      proof (cases "\<exists>v. m = M_visit_tcp_share v")
        case True
        then obtain v where v: "m = M_visit_tcp_share v" by blast
        let ?c = "cworker_act (a_recv m) c"
        have "\<exists>as. cw_trace (cworker_on_visit J q ?c) = cw_trace ?c @ as \<and> set as \<subseteq> {a_close, a_send M_visit_confirmed}"
          using fail [of _ "?c\<lparr>cw_visited := True, cw_ping := None, cw_ping_cancelled := True\<rparr>"]
            send [of M_visit_confirmed cm_confirming "?c\<lparr>cw_visited := True, cw_ping := None, cw_ping_cancelled := True,
              cw_cancelled := cworker_in_flight (?c\<lparr>cw_visited := True, cw_ping := None, cw_ping_cancelled := True\<rparr>) - {cc_main}\<rparr>"]
          by (fastforce simp: cworker_on_visit_def Let_def split: sum.split)
        then obtain as where "cw_trace (cworker_on_visit J q ?c) = cw_trace ?c @ as"
          "set as \<subseteq> {a_close, a_send M_visit_confirmed}" by blast
        moreover have "c' = cworker_on_visit J q ?c"
          using assms cwe_read Inr v by (auto simp: cworker_on_read_def split: if_splits)
        ultimately show ?thesis using jv cwe_read v by (intro exI [of _ "a_recv m # as"]) auto
      next
        case False
        then have "c' = cworker_loop now (cworker_act (a_recv m) c)"
          using assms cwe_read Inr by (auto simp: cworker_on_read_def split: if_splits message.splits)
        then show ?thesis using False by (intro exI [of _ "[a_recv m]"]) (auto simp: loop)
      qed
    qed
  next
    case (cwe_confirmed r)
    then show ?thesis using assms fail [of _ c]
      by (cases r) (fastforce simp: cworker_on_confirmed_def split: if_splits)+
  next
    case (cwe_provided r)
    then show ?thesis using assms fail [of _ c]
      by (cases r) (fastforce simp: cworker_on_provided_def loop split: if_splits)+
  next
    case (cwe_timer r)
    have "\<exists>as. cw_trace (cworker_ping_check J now c) = cw_trace c @ as \<and> set as \<subseteq> {a_close, a_send M_ping}"
      using err [of _ "c\<lparr>cw_ping := None\<rparr>"]
      by (fastforce simp: cworker_ping_check_def Let_def split: option.split sum.split)
    then show ?thesis using assms cwe_timer err [of _ c]
      by (fastforce simp: cworker_on_timer_def split: if_splits sum.splits)
  next
    case (cwe_ping_written r)
    then show ?thesis using assms err [of _ c]
      by (cases r) (fastforce simp: cworker_on_ping_written_def split: if_splits)+
  next
    case cwe_stop
    then show ?thesis using assms stop [of c] by fastforce
  qed
qed

section \<open>The invariant\<close>

text \<open>
  What is on its way up are pings, and the confirmation once the client has sent it; what is on its
  way down are pongs, and the visit once there was one.  Each end's view of the handshake is backed
  by the other's.
\<close>

definition up_ok :: "json_lib \<Rightarrow> cworker \<Rightarrow> json \<Rightarrow> bool" where
  "up_ok J c jv \<longleftrightarrow> (\<exists>m j. (m = M_ping \<or> m = M_visit_confirmed \<and> a_send m \<in> set (cw_trace c)) \<and>
    marshal_msg J m = Inr j \<and> jv = norm j)"

definition down_ok :: "json_lib \<Rightarrow> worker \<Rightarrow> json \<Rightarrow> bool" where
  "down_ok J w jv \<longleftrightarrow> (\<exists>j\<in>set (w_sent w). worker_says J w j \<and> jv = norm j)"

text \<open>The server has sent the visit \<open>v\<close>.\<close>

definition visit_sent :: "json_lib \<Rightarrow> worker \<Rightarrow> visit_tcp_share \<Rightarrow> bool" where
  "visit_sent J w v \<longleftrightarrow> (\<exists>j\<in>set (w_sent w). w_visited w \<and> marshal_msg J (M_visit_tcp_share v) = Inr j)"

definition session_inv :: "json_lib \<Rightarrow> session \<Rightarrow> bool" where
  [zrp_inv]: "session_inv J s \<longleftrightarrow> worker_inv (ss_srv s) \<and> worker_polite J (ss_srv s) \<and>
    cworker_inv (ss_cli s) \<and> follows (ss_cli s) \<and>
    (\<forall>jv\<in>set (ss_up s). up_ok J (ss_cli s) jv) \<and> (\<forall>jv\<in>set (ss_down s). down_ok J (ss_srv s) jv) \<and>
    (\<forall>v. a_recv (M_visit_tcp_share v) \<in> set (cw_trace (ss_cli s)) \<longrightarrow> visit_sent J (ss_srv s) v) \<and>
    (w_visit (ss_srv s) = visit_returned \<longrightarrow> a_send M_visit_confirmed \<in> set (cw_trace (ss_cli s)))"

lemma server_takes_sub: "server_takes ev up = Some up' \<Longrightarrow> set up' \<subseteq> set up"
  by (cases "(ev, up)" rule: server_takes.cases) (auto split: if_splits)

lemma client_takes_sub: "client_takes ev down = Some down' \<Longrightarrow> set down' \<subseteq> set down"
  by (cases "(ev, down)" rule: client_takes.cases) (auto split: if_splits)

lemma server_takes_read:
  "server_takes (ev_visit_read (Inr jv)) up = Some up' \<Longrightarrow> jv \<in> set up"
  by (cases up) (auto split: if_splits)

lemma client_takes_read: "client_takes (cwe_read (Inr jv) q) down = Some down' \<Longrightarrow> jv \<in> set down"
  by (cases down) (auto split: if_splits)

lemma visit_returns:
  assumes "worker_step J now ev w = Some w'" "w_visit w' = visit_returned" "w_visit w \<noteq> visit_returned"
  shows "\<exists>jv. ev = ev_visit_read (Inr jv) \<and> unmarshal_msg J [T_ping, T_visit_confirmed] jv = Inr M_visit_confirmed"
proof (cases ev)
  case (ev_visit_read r)
  obtain m where "ebind r (unmarshal_msg J [T_ping, T_visit_confirmed]) = Inr m" "m \<noteq> M_ping"
    using assms ev_visit_read by (auto simp: worker_on_visit_read_def split: if_splits sum.splits)
  then obtain jv where "r = Inr jv" "unmarshal_msg J [T_ping, T_visit_confirmed] jv = Inr m" "m \<noteq> M_ping"
    by (auto simp: ebind_Inr_iff)
  moreover from this have "m = M_visit_confirmed" using unmarshal_type by (cases m) force+
  ultimately show ?thesis using ev_visit_read by blast
next
  case (ev_resume i)
  then show ?thesis using assms by (cases "w_ready w ! i") (auto simp: worker_recv_loop_def worker_set_ddl_def split: if_splits)
qed (use assms in \<open>auto simp: worker_on_read_def worker_on_write_def worker_send_loop_def worker_on_timer_def
  worker_ddl_check_def worker_run_closure_def worker_visit_def worker_set_ddl_def worker_cancel_socket_def Let_def
  split: if_splits sum.splits send_pc.splits option.splits prod.splits\<close>)

lemma sent_ops [simp]:
  "w_sent (worker_try_stop w) = w_sent w" "w_sent (worker_handle_error x w) = w_sent w"
  "w_sent (worker_post t w) = w_sent w" "w_sent (worker_close_queue w) = w_sent w" "w_sent (worker_cancel_ddl w) = w_sent w"
  by (simp_all add: worker_try_stop_def worker_handle_error_def worker_close_socket_def worker_cancel_socket_def
      worker_post_def worker_close_queue_def worker_cancel_ddl_def Let_def)

lemma sent_step: "worker_step J now ev w = Some w' \<Longrightarrow> \<exists>xs. w_sent w' = w_sent w @ xs"
proof (cases ev)
  case (ev_resume i)
  assume "worker_step J now ev w = Some w'"
  then show ?thesis using ev_resume
    by (cases "w_ready w ! i") (auto simp: worker_recv_loop_def worker_send_loop_def worker_set_ddl_def split: if_splits)
qed (auto simp: worker_on_read_def worker_on_write_def worker_send_loop_def worker_on_visit_read_def worker_on_timer_def
  worker_ddl_check_def worker_run_closure_def worker_visit_def worker_set_ddl_def worker_cancel_socket_def Let_def
  split: if_splits sum.splits send_pc.splits option.splits prod.splits)

lemma session_server_inv:
  assumes J: "boost_json J" and inv: "session_inv J s" and st: "session_step J now (sse_server ev) s = Some s'"
  shows "session_inv J s'"
proof -
  obtain up w where t: "server_takes ev (ss_up s) = Some up" "worker_step J now ev (ss_srv s) = Some w"
    and s': "s' = s\<lparr>ss_srv := w, ss_up := up, ss_down := ss_down s @ drop (length (server_sent (ss_srv s))) (server_sent w)\<rparr>"
    using st by (auto split: option.splits)
  note i = inv [unfolded session_inv_def]
  have vis: "w_visited (ss_srv s) \<Longrightarrow> w_visited w" by (rule visited_step [OF t(2)])
  have polite: "worker_polite J w" using worker_polite_step [OF _ t(2)] i by blast
  have mono: "set (w_sent (ss_srv s)) \<subseteq> set (w_sent w)" using sent_step [OF t(2)] by auto
  have "down_ok J w jv" if "jv \<in> set (ss_down s')" for jv
  proof -
    have "jv \<in> set (ss_down s) \<or> jv \<in> set (server_sent w)" using that s' by (auto dest: in_set_dropD)
    then show ?thesis
    proof
      assume "jv \<in> set (ss_down s)"
      then show ?thesis using i vis mono unfolding down_ok_def worker_says_def by blast
    next
      assume "jv \<in> set (server_sent w)"
      then show ?thesis using polite by (auto simp: down_ok_def worker_polite_def server_sent_def values_iff)
    qed
  qed
  moreover have "a_send M_visit_confirmed \<in> set (cw_trace (ss_cli s))" if ret: "w_visit w = visit_returned"
  proof (cases "w_visit (ss_srv s) = visit_returned")
    case True
    then show ?thesis using i by blast
  next
    case False
    then obtain jv where jv: "ev = ev_visit_read (Inr jv)"
      "unmarshal_msg J [T_ping, T_visit_confirmed] jv = Inr M_visit_confirmed"
      using visit_returns [OF t(2) ret] by blast
    then have "up_ok J (ss_cli s) jv" using i server_takes_read t(1) by blast
    then show ?thesis using jv(2) by (auto simp: up_ok_def unmarshal_norm [OF J])
  qed
  moreover have "worker_inv w" using worker_step_inv [OF _ t(2)] i by blast
  moreover have "\<forall>jv\<in>set up. up_ok J (ss_cli s) jv" using i server_takes_sub [OF t(1)] by blast
  moreover have "visit_sent J w v" if "visit_sent J (ss_srv s) v" for v
    using that vis mono by (auto simp: visit_sent_def)
  ultimately show ?thesis using i polite s' by (auto simp: session_inv_def)
qed

lemma client_sent_new:
  "cw_trace c' = cw_trace c @ as \<Longrightarrow> drop (length (client_sent J c)) (client_sent J c') = concat (map (sent_value J) as)"
  by (simp add: client_sent_def)

lemma set_sent_value: "jv \<in> set (concat (map (sent_value J) as)) \<longleftrightarrow> (\<exists>m j. a_send m \<in> set as \<and> marshal_msg J m = Inr j \<and> jv = norm j)"
proof
  assume "jv \<in> set (concat (map (sent_value J) as))"
  then obtain a where "a \<in> set as" "jv \<in> set (sent_value J a)" by auto
  moreover from this(2) obtain m j where "a = a_send m" "marshal_msg J m = Inr j" "jv = norm j"
    by (cases a) (force split: sum.splits)+
  ultimately show "\<exists>m j. a_send m \<in> set as \<and> marshal_msg J m = Inr j \<and> jv = norm j" by blast
qed force

lemma session_client_inv:
  assumes J: "boost_json J" and inv: "session_inv J s" and st: "session_step J now (sse_client ev) s = Some s'"
  shows "session_inv J s'"
proof -
  obtain down c where t: "client_takes ev (ss_down s) = Some down" "cworker_step J now ev (ss_cli s) = Some c"
    and s': "s' = s\<lparr>ss_cli := c, ss_down := down, ss_up := ss_up s @ drop (length (client_sent J (ss_cli s))) (client_sent J c)\<rparr>"
    using st by (auto split: option.splits)
  note i = inv [unfolded session_inv_def]
  obtain as where as: "cw_trace c = cw_trace (ss_cli s) @ as" "\<forall>m. a_send m \<in> set as \<longrightarrow> m = M_ping \<or> m = M_visit_confirmed"
    "\<forall>v. a_recv (M_visit_tcp_share v) \<in> set as \<longrightarrow>
      (\<exists>jv q. ev = cwe_read (Inr jv) q \<and> unmarshal_msg J [T_visit_tcp_share, T_pong] jv = Inr (M_visit_tcp_share v))"
    using client_trace_step [OF t(2)] by blast
  have "up_ok J c jv" if "jv \<in> set (ss_up s')" for jv
  proof -
    have "jv \<in> set (ss_up s) \<or> jv \<in> set (concat (map (sent_value J) as))"
      using that s' client_sent_new [OF as(1), of J] by auto
    then show ?thesis
    proof
      assume "jv \<in> set (ss_up s)"
      then show ?thesis using i as(1) by (fastforce simp: up_ok_def)
    next
      assume "jv \<in> set (concat (map (sent_value J) as))"
      then obtain m j where m: "a_send m \<in> set as" "marshal_msg J m = Inr j" "jv = norm j"
        unfolding set_sent_value by blast
      then have "m = M_ping \<or> m = M_visit_confirmed \<and> a_send m \<in> set (cw_trace c)" using as(1,2) by auto
      then show ?thesis unfolding up_ok_def using m(2,3) by blast
    qed
  qed
  moreover have "visit_sent J (ss_srv s) v" if v: "a_recv (M_visit_tcp_share v) \<in> set as" for v
  proof -
    obtain jv q where jv: "ev = cwe_read (Inr jv) q" "unmarshal_msg J [T_visit_tcp_share, T_pong] jv = Inr (M_visit_tcp_share v)"
      using as(3) v by blast
    then have "down_ok J (ss_srv s) jv" using i client_takes_read t(1) by blast
    then obtain j where j: "j \<in> set (w_sent (ss_srv s))" "worker_says J (ss_srv s) j" "jv = norm j"
      by (auto simp: down_ok_def)
    moreover have "marshal_msg J M_pong \<noteq> Inr j"
      using jv(2) j(3) unmarshal_norm [OF J, of M_pong j "[T_visit_tcp_share, T_pong]"] by auto
    ultimately obtain v' where "w_visited (ss_srv s)" "marshal_msg J (M_visit_tcp_share v') = Inr j"
      by (auto simp: worker_says_def)
    moreover from this have "v' = v" using jv(2) j(3) unmarshal_norm [OF J, of _ j "[T_visit_tcp_share, T_pong]"] by force
    ultimately show ?thesis using j(1) by (auto simp: visit_sent_def)
  qed
  moreover have "cworker_inv c" "follows c"
    using cworker_step_inv [OF J _ t(2)] follows_step [OF J _ _ t(2)] i by auto
  moreover have "\<forall>jv\<in>set down. down_ok J (ss_srv s) jv" using i client_takes_sub [OF t(1)] by blast
  ultimately show ?thesis using i as(1) s' by (auto simp: session_inv_def)
qed

lemma session_step_inv: "boost_json J \<Longrightarrow> session_inv J s \<Longrightarrow> session_step J now ev s = Some s' \<Longrightarrow> session_inv J s'"
  by (cases ev) (auto simp del: session_step.simps intro: session_server_inv session_client_inv)

lemma session_start_inv:
  assumes "boost_json J" "sock \<noteq> sock_moved"
  shows "session_inv J (session_start J now (worker_new sock i share) (cworker_new a sid j))"
proof -
  obtain m where m: "marshal_msg J (M_worker_hello (hello_of (cworker_new a sid j\<lparr>cw_ping := None\<rparr>))) = Inr m"
    using marshal_total [OF assms(1)] by blast
  have "cw_trace (cworker_run J (cworker_new a sid j)) = [a_send (M_worker_hello (hello_of (cworker_new a sid j\<lparr>cw_ping := None\<rparr>)))]"
    using m by (simp add: cworker_run_def cworker_send_def cworker_new_def)
  moreover have "worker_polite J (worker_run now (worker_new sock i share))"
    by (simp add: worker_polite_def worker_run_def worker_new_def worker_values_def wq_new_def worker_ops)
  moreover have "w_visit (worker_run now (worker_new sock i share)) = visit_none"
    by (simp add: worker_run_def worker_new_def worker_ops)
  ultimately show ?thesis
    using worker_run_inv [OF assms(2)] cworker_inv_run [OF assms(1)] follows_run [OF assms(1)]
    by (simp add: session_inv_def session_start_def)
qed

lemma session_steps_inv: "session_steps J evs s = Some s' \<Longrightarrow> boost_json J \<Longrightarrow> session_inv J s \<Longrightarrow> session_inv J s'"
proof (induction evs arbitrary: s)
  case (Cons p evs)
  then show ?case
    by (cases p) (auto simp del: session_step.simps split: option.splits dest: session_step_inv)
qed simp

lemma session_reachable_inv: "boost_json J \<Longrightarrow> session_reachable J s \<Longrightarrow> session_inv J s"
  unfolding session_reachable_def using session_steps_inv session_start_inv by blast

section \<open>Properties\<close>

text \<open>Of the visits and confirmations, a client that follows the protocol takes and sends one each, in this order.\<close>

fun visit_traffic :: "action \<Rightarrow> bool" where
  "visit_traffic (a_recv (M_visit_tcp_share v)) \<longleftrightarrow> True"
| "visit_traffic (a_send M_visit_confirmed) \<longleftrightarrow> True"
| "visit_traffic _ \<longleftrightarrow> False"

lemma proto_visits:
  "proto_run as p \<Longrightarrow>
    (let vs = filter visit_traffic as in
     if p = ph_new \<or> p = ph_idle \<or> p = ph_closed False then vs = []
     else (\<exists>v. vs = [a_recv (M_visit_tcp_share v)] \<and> (p = ph_visited \<or> p = ph_dead) \<or>
       vs = [a_recv (M_visit_tcp_share v), a_send M_visit_confirmed] \<and> p \<noteq> ph_visited))"
proof (induction rule: proto_run.induct)
  case (proto_snoc as p a q)
  from proto_snoc.hyps(2) show ?case using proto_snoc.IH by cases (auto simp: Let_def)
qed simp

lemma follows_visits:
  assumes "follows c" "a_send M_visit_confirmed \<in> set (cw_trace c)"
  shows "\<exists>v. filter visit_traffic (cw_trace c) = [a_recv (M_visit_tcp_share v), a_send M_visit_confirmed]"
proof -
  obtain p where "proto_run (cw_trace c) p" using assms(1) by (auto simp: follows_def split: if_splits)
  then have "filter visit_traffic (cw_trace c) = [] \<or> (\<exists>v. filter visit_traffic (cw_trace c) = [a_recv (M_visit_tcp_share v)] \<or>
      filter visit_traffic (cw_trace c) = [a_recv (M_visit_tcp_share v), a_send M_visit_confirmed])"
    using proto_visits [of "cw_trace c" p] by (auto simp: Let_def split: if_splits)
  moreover have "filter visit_traffic (cw_trace c) = vs \<Longrightarrow> a_send M_visit_confirmed \<in> set vs" for vs
    using assms(2) by auto
  ultimately show ?thesis by fastforce
qed

lemma confirmed_visited:
  assumes "session_inv J s" "a_send M_visit_confirmed \<in> set (cw_trace (ss_cli s))"
  shows "w_visited (ss_srv s)"
proof -
  have "follows (ss_cli s)" using assms(1) by (simp add: session_inv_def)
  then obtain v where v: "filter visit_traffic (cw_trace (ss_cli s)) = [a_recv (M_visit_tcp_share v), a_send M_visit_confirmed]"
    using follows_visits assms(2) by blast
  then have "a_recv (M_visit_tcp_share v) \<in> set (filter visit_traffic (cw_trace (ss_cli s)))" by simp
  then show ?thesis using assms(1) by (auto simp: session_inv_def visit_sent_def)
qed

text \<open>
  A visit from end to end: the server's steps up to the end of its write, the frames that the client
  finds before the visit and the visit, the confirmation, and what the server finds before it.
\<close>

definition visit_run :: "nat \<Rightarrow> u64 \<Rightarrow> tcp_endpoint \<Rightarrow> json list \<Rightarrow> json list \<Rightarrow> json \<Rightarrow> json \<Rightarrow> (nat \<times> session_event) list" where
  "visit_run t epoch ep up down v c =
    map (\<lambda>e. (t, sse_server e)) [ev_visit (Inr ()) epoch ep, ev_read (Inl (system_error operation_aborted)),
      ev_closure 0, ev_resume 0, ev_resume 0, ev_write (Inr ())] @
    map (\<lambda>x. (t, sse_client (cwe_read (Inr x) (Inr ())))) (down @ [v]) @
    [(t, sse_client (cwe_confirmed (Inr ())))] @
    map (\<lambda>x. (t, sse_server (ev_visit_read (Inr x)))) (up @ [c])"

lemma session_steps_append:
  "session_steps J (as @ bs) s = Option.bind (session_steps J as s) (session_steps J bs)"
  by (induction as arbitrary: s) (auto simp del: session_step.simps split: option.splits)

lemma session_steps_then: "session_steps J as s = Some s1 \<Longrightarrow> session_steps J (as @ bs) s = session_steps J bs s1"
  by (simp add: session_steps_append)

lemma visit_run_parts:
  "visit_run t epoch ep up down v c =
    map (\<lambda>e. (t, sse_server e)) [ev_visit (Inr ()) epoch ep, ev_read (Inl (system_error operation_aborted)),
      ev_closure 0, ev_resume 0, ev_resume 0, ev_write (Inr ())] @
    map (\<lambda>x. (t, sse_client (cwe_read (Inr x) (Inr ())))) down @
    [(t, sse_client (cwe_read (Inr v) (Inr ()))), (t, sse_client (cwe_confirmed (Inr ())))] @
    map (\<lambda>x. (t, sse_server (ev_visit_read (Inr x)))) up @ [(t, sse_server (ev_visit_read (Inr c)))]"
  by (simp add: visit_run_def)

lemma server_alone:
  assumes "worker_steps J (map (Pair t) es) (ss_srv s) = Some w" "\<forall>e\<in>set es. \<forall>up. server_takes e up = Some up"
  shows "session_steps J (map (\<lambda>e. (t, sse_server e)) es) s = Some (s\<lparr>ss_srv := w,
      ss_down := ss_down s @ drop (length (server_sent (ss_srv s))) (server_sent w)\<rparr>) \<and>
    (\<exists>xs. w_sent w = w_sent (ss_srv s) @ xs)"
  using assms
proof (induction es arbitrary: s)
  case (Cons e es)
  then obtain w1 where w1: "worker_step J t e (ss_srv s) = Some w1" "worker_steps J (map (Pair t) es) w1 = Some w"
    by (auto split: option.splits)
  obtain ys where ys: "w_sent w1 = w_sent (ss_srv s) @ ys" using sent_step [OF w1(1)] by blast
  let ?s = "s\<lparr>ss_srv := w1, ss_down := ss_down s @ drop (length (server_sent (ss_srv s))) (server_sent w1)\<rparr>"
  have step: "session_step J t (sse_server e) s = Some ?s" using w1(1) Cons.prems(2) by simp
  have IH: "session_steps J (map (\<lambda>e. (t, sse_server e)) es) ?s = Some (?s\<lparr>ss_srv := w,
      ss_down := ss_down ?s @ drop (length (server_sent w1)) (server_sent w)\<rparr>) \<and> (\<exists>xs. w_sent w = w_sent w1 @ xs)"
    using Cons.IH [of ?s] w1(2) Cons.prems(2) by simp
  then obtain xs where "w_sent w = w_sent w1 @ xs" by blast
  then show ?case using IH step ys by (simp del: session_step.simps add: server_sent_def)
qed simp

lemma client_takes_pongs:
  assumes "list_all (\<lambda>x. unmarshal_msg J [T_visit_tcp_share, T_pong] x = Inr M_pong) down" "ss_down s = down @ rest"
    and "cw_main (ss_cli s) = cm_reading" "cw_sock (ss_cli s) = sock_open" "\<not> cw_visited (ss_cli s)"
  shows "\<exists>c. session_steps J (map (\<lambda>x. (t, sse_client (cwe_read (Inr x) (Inr ())))) down) s =
      Some (s\<lparr>ss_cli := c, ss_down := rest\<rparr>) \<and>
    cw_main c = cm_reading \<and> cw_sock c = sock_open \<and> \<not> cw_visited c \<and>
    cw_stopping c = cw_stopping (ss_cli s) \<and> cw_trace c = cw_trace (ss_cli s) @ replicate (length down) (a_recv M_pong)"
  using assms
proof (induction down arbitrary: s)
  case Nil
  then show ?case by (intro exI [of _ "ss_cli s"]) simp
next
  case (Cons x down)
  let ?c = "cworker_loop t (cworker_act (a_recv M_pong) (ss_cli s))"
  let ?s = "s\<lparr>ss_cli := ?c, ss_down := down @ rest\<rparr>"
  have "session_step J t (sse_client (cwe_read (Inr x) (Inr ()))) s = Some ?s"
    using Cons.prems
    by (simp add: cmay_end_def cancel_ok_def cworker_on_read_def cworker_loop_def client_sent_def)
  moreover have "cw_main ?c = cm_reading" "cw_sock ?c = sock_open" "\<not> cw_visited ?c" "cw_stopping ?c = cw_stopping (ss_cli s)"
    "cw_trace ?c = cw_trace (ss_cli s) @ [a_recv M_pong]"
    using Cons.prems by (simp_all add: cworker_loop_def)
  ultimately show ?case
    using Cons.IH [of ?s] Cons.prems(1) by (simp del: session_step.simps)
qed

lemma server_takes_pings:
  assumes "list_all (\<lambda>x. unmarshal_msg J [T_ping, T_visit_confirmed] x = Inr M_ping) up" "ss_up s = up @ rest"
    and "w_visit (ss_srv s) = visit_reading" "c_visit \<notin> w_cancelled (ss_srv s)" "w_sock (ss_srv s) = sock_open"
  shows "session_steps J (map (\<lambda>x. (t, sse_server (ev_visit_read (Inr x)))) up) s = Some (s\<lparr>ss_up := rest\<rparr>)"
  using assms
  by (induction up arbitrary: s) (auto simp: may_end_def worker_on_visit_read_def)

lemma idle_frames:
  assumes "boost_json J" "session_inv J s" "\<not> w_visited (ss_srv s)"
  shows "list_all (\<lambda>x. unmarshal_msg J [T_visit_tcp_share, T_pong] x = Inr M_pong) (ss_down s)"
    and "list_all (\<lambda>x. unmarshal_msg J [T_ping, T_visit_confirmed] x = Inr M_ping) (ss_up s)"
  using assms(2,3) confirmed_visited [OF assms(2)] unmarshal_norm [OF assms(1)]
  by (force simp: session_inv_def list_all_iff up_ok_def down_ok_def worker_says_def)+

lemma client_takes_visit:
  assumes "boost_json J" "ss_down s = [x]" "unmarshal_msg J [T_visit_tcp_share, T_pong] x = Inr (M_visit_tcp_share v)"
    and "cw_main (ss_cli s) = cm_reading" "cw_sock (ss_cli s) = sock_open" "\<not> cw_visited (ss_cli s)"
  shows "\<exists>c j. marshal_msg J M_visit_confirmed = Inr j \<and>
    session_steps J [(t, sse_client (cwe_read (Inr x) (Inr ()))), (t, sse_client (cwe_confirmed (Inr ())))] s =
      Some (s\<lparr>ss_cli := c, ss_down := [], ss_up := ss_up s @ [norm j]\<rparr>) \<and>
    cw_main c = cm_providing \<and>
    cw_trace c = cw_trace (ss_cli s) @ [a_recv (M_visit_tcp_share v), a_send M_visit_confirmed, a_provide True]"
proof -
  obtain j where "marshal_msg J M_visit_confirmed = Inr j" using marshal_total [OF assms(1)] by blast
  then show ?thesis using assms
    by (simp add: cworker_on_read_def cworker_on_visit_def cworker_send_def cmay_end_def cancel_ok_def Let_def
        cworker_on_confirmed_def cworker_act_def client_sent_def)
      (rule exI, rule conjI, rule refl, simp)
qed

lemma visit_carried_through:
  assumes "boost_json J" "session_reachable J s" "worker_idle (ss_srv s)"
    and "cw_main (ss_cli s) = cm_reading" "cw_sock (ss_cli s) = sock_open"
  shows "\<exists>v j s'. marshal_msg J (M_visit_tcp_share \<lparr>vt_epoch = epoch, vt_peer = ep\<rparr>) = Inr v \<and>
    marshal_msg J M_visit_confirmed = Inr j \<and>
    session_steps J (visit_run t epoch ep (ss_up s) (ss_down s) (norm v) (norm j)) s = Some s' \<and>
    w_visit (ss_srv s') = visit_returned \<and> w_sock (ss_srv s') = sock_moved \<and> cw_main (ss_cli s') = cm_providing \<and>
    cw_trace (ss_cli s') = cw_trace (ss_cli s) @ replicate (length (ss_down s)) (a_recv M_pong) @
      [a_recv (M_visit_tcp_share \<lparr>vt_epoch = epoch, vt_peer = ep\<rparr>), a_send M_visit_confirmed, a_provide True] \<and>
    ss_up s' = [] \<and> ss_down s' = []"
proof -
  let ?v = "\<lparr>vt_epoch = epoch, vt_peer = ep\<rparr>"
  note inv = session_reachable_inv [OF assms(1,2)]
  have fresh: "\<not> w_visited (ss_srv s)" "\<not> cw_visited (ss_cli s)"
    using inv assms(3,4) by (auto simp: session_inv_def worker_inv_def worker_flag_inv_def worker_idle_def cworker_inv_def)
  note frames = idle_frames [OF assms(1) inv fresh(1)]
  obtain m where m: "marshal_msg J (M_visit_tcp_share ?v) = Inr m" using marshal_total [OF assms(1)] by blast
  let ?es = "[ev_visit (Inr ()) epoch ep, ev_read (Inl (system_error operation_aborted)),
      ev_closure 0, ev_resume 0, ev_resume 0, ev_write (Inr ())]"
  obtain w where w: "worker_steps J (map (Pair t) ?es) (ss_srv s) = Some w" "w_visit w = visit_reading"
    "c_visit \<notin> w_cancelled w" "w_sent w = w_sent (ss_srv s) @ [m]" "w_sock w = sock_open"
    using handshake_start [OF assms(3) m, of t] by auto
  let ?s1 = "s\<lparr>ss_srv := w, ss_down := ss_down s @ [norm m]\<rparr>"
  have 1: "session_steps J (map (\<lambda>e. (t, sse_server e)) ?es) s = Some ?s1"
    using server_alone [OF w(1)] w(4) by (simp add: server_sent_def)
  obtain c where c: "session_steps J (map (\<lambda>x. (t, sse_client (cwe_read (Inr x) (Inr ())))) (ss_down s)) ?s1 =
      Some (?s1\<lparr>ss_cli := c, ss_down := [norm m]\<rparr>)" "cw_main c = cm_reading" "cw_sock c = sock_open" "\<not> cw_visited c"
    "cw_trace c = cw_trace (ss_cli s) @ replicate (length (ss_down s)) (a_recv M_pong)"
    using client_takes_pongs [OF frames(1), of ?s1 "[norm m]"] assms(4,5) fresh(2) by auto
  let ?s2 = "?s1\<lparr>ss_cli := c, ss_down := [norm m]\<rparr>"
  have u: "unmarshal_msg J [T_visit_tcp_share, T_pong] (norm m) = Inr (M_visit_tcp_share ?v)"
    using unmarshal_norm [OF assms(1) m] by simp
  obtain c' j where c': "marshal_msg J M_visit_confirmed = Inr j"
    "session_steps J [(t, sse_client (cwe_read (Inr (norm m)) (Inr ()))), (t, sse_client (cwe_confirmed (Inr ())))] ?s2 =
      Some (?s2\<lparr>ss_cli := c', ss_down := [], ss_up := ss_up s @ [norm j]\<rparr>)" "cw_main c' = cm_providing"
    "cw_trace c' = cw_trace c @ [a_recv (M_visit_tcp_share ?v), a_send M_visit_confirmed, a_provide True]"
    using client_takes_visit [OF assms(1) _ u, of ?s2 t] c(2-4) by (auto simp del: session_steps.simps)
  let ?s3 = "?s2\<lparr>ss_cli := c', ss_down := [], ss_up := ss_up s @ [norm j]\<rparr>"
  have 3: "session_steps J (map (\<lambda>x. (t, sse_server (ev_visit_read (Inr x)))) (ss_up s)) ?s3 =
      Some (?s3\<lparr>ss_up := [norm j]\<rparr>)"
    using server_takes_pings [OF frames(2), of ?s3] w(2,3,5) by simp
  let ?w = "worker_on_visit_read J (Inr (norm j)) w"
  have 4: "session_steps J [(t, sse_server (ev_visit_read (Inr (norm j))))] (?s3\<lparr>ss_up := [norm j]\<rparr>) =
      Some (?s3\<lparr>ss_srv := ?w, ss_up := []\<rparr>)" "w_visit ?w = visit_returned" "w_sock ?w = sock_moved"
    using w(2,3,5) unmarshal_norm [OF assms(1) c'(1)]
    by (simp_all add: may_end_def worker_on_visit_read_def server_sent_def worker_cancel_ddl_def)
  have "session_steps J (visit_run t epoch ep (ss_up s) (ss_down s) (norm m) (norm j)) s =
      Some (?s3\<lparr>ss_srv := ?w, ss_up := []\<rparr>)"
    unfolding visit_run_parts session_steps_then [OF 1] session_steps_then [OF c(1)]
      session_steps_then [OF c'(2)] session_steps_then [OF 3] by (rule 4(1))
  then show ?thesis using m c'(1,3,4) c(5) 4(2,3) by auto
qed

text \<open>A session whose server waits and whose client has sent a ping.\<close>

definition demo_events :: "(nat \<times> session_event) list" where
  "demo_events = [(0, sse_server (ev_closure 0)), (0, sse_client (cwe_hello_written (Inr ()))),
    (20, sse_client (cwe_timer (Inr ()))), (21, sse_client (cwe_ping_written (Inr ())))]"

lemma session_reachable_steps:
  "session_reachable J s \<Longrightarrow> session_steps J evs s = Some s' \<Longrightarrow> session_reachable J s'"
  unfolding session_reachable_def by (metis session_steps_append bind.bind_lunit)

lemma demo_session:
  "\<exists>s. session_steps plain_json demo_events (session_start plain_json 0 (worker_new sock_open 7 0) (cworker_new 0 ''ssh'' 4)) = Some s \<and>
    session_reachable plain_json s \<and> worker_idle (ss_srv s) \<and> cw_main (ss_cli s) = cm_reading \<and>
    cw_sock (ss_cli s) = sock_open \<and> length (ss_up s) = 1"
proof -
  have i: "worker_step plain_json 0 (ev_closure 0) (worker_run 0 (worker_new sock_open 7 0)) = Some (idle_worker 0)"
    by (simp add: idle_worker_def worker_run_def worker_new_def worker_ops)
  have "\<exists>s. session_steps plain_json demo_events (session_start plain_json 0 (worker_new sock_open 7 0) (cworker_new 0 ''ssh'' 4)) = Some s \<and>
    ss_srv s = idle_worker 0 \<and> cw_main (ss_cli s) = cm_reading \<and> cw_sock (ss_cli s) = sock_open \<and> length (ss_up s) = 1"
    using i by (simp add: demo_events_def session_start_def cworker_run_def cworker_new_def cworker_eval client_sent_def
        del: worker_step.simps)
  moreover have "worker_idle (idle_worker 0)" by (simp add: worker_idle_def idle_worker_eq)
  moreover have "session_reachable plain_json (session_start plain_json 0 (worker_new sock_open 7 0) (cworker_new 0 ''ssh'' 4))"
    by (rule session_reachable_start) simp
  ultimately show ?thesis using session_reachable_steps by metis
qed

text \<open>
  Property C8 (safety): the two ends agree.  However the steps of the two ends of a worker
  connection interleave, a connection that the server has handed to a user was confirmed by the
  client, once and after it took exactly one visit; and every visit that a client takes is one
  that the server has sent on this connection, epoch and address of the user included.
\<close>

theorem session_agreement:
  assumes "boost_json J" "session_reachable J s"
  shows "(w_visit (ss_srv s) = visit_returned \<longrightarrow> (\<exists>v. filter visit_traffic (cw_trace (ss_cli s)) =
      [a_recv (M_visit_tcp_share v), a_send M_visit_confirmed])) \<and>
    (\<forall>v. a_recv (M_visit_tcp_share v) \<in> set (cw_trace (ss_cli s)) \<longrightarrow>
      (\<exists>j\<in>set (w_sent (ss_srv s)). marshal_msg J (M_visit_tcp_share v) = Inr j))"
  using session_reachable_inv [OF assms] follows_visits [of "ss_cli s"]
  by (auto simp: session_inv_def visit_sent_def)

theorem session_agreement_witness:
  "\<exists>s v. session_reachable plain_json s \<and> w_visit (ss_srv s) = visit_returned \<and>
    filter visit_traffic (cw_trace (ss_cli s)) = [a_recv (M_visit_tcp_share v), a_send M_visit_confirmed]"
proof -
  obtain s where s: "session_reachable plain_json s" "worker_idle (ss_srv s)" "cw_main (ss_cli s) = cm_reading"
    "cw_sock (ss_cli s) = sock_open"
    using demo_session by blast
  obtain s' where "session_reachable plain_json s'" "w_visit (ss_srv s') = visit_returned"
    using visit_carried_through [OF boost_json_plain s] session_reachable_steps [OF s(1)] by blast
  with session_agreement [OF boost_json_plain this(1)] show ?thesis by blast
qed

text \<open>What either end does with a frame that is on its way to it.\<close>

lemma down_frame_read:
  assumes J: "boost_json J" and inv: "session_inv J s" and x: "x \<in> set (ss_down s)"
    and cli: "cw_main (ss_cli s) = cm_reading" "cw_sock (ss_cli s) = sock_open"
  shows "\<exists>c m as. cworker_on_read J now (Inr x) (Inr ()) (ss_cli s) = c \<and>
    cw_trace c = cw_trace (ss_cli s) @ a_recv m # as \<and> cw_main c \<in> {cm_reading, cm_confirming} \<and> \<not> cw_stopping c"
proof -
  have fresh: "\<not> cw_visited (ss_cli s)" "\<not> cw_stopping (ss_cli s)"
    using inv cli by (auto simp: session_inv_def cworker_inv_def)
  obtain j where "marshal_msg J M_visit_confirmed = Inr j" using marshal_total [OF J] by blast
  moreover obtain m where "unmarshal_msg J [T_visit_tcp_share, T_pong] x = Inr m" "m = M_pong \<or> (\<exists>v. m = M_visit_tcp_share v)"
    using inv x unmarshal_norm [OF J] by (fastforce simp: session_inv_def down_ok_def worker_says_def)
  ultimately show ?thesis using fresh
    by (auto simp: cworker_on_read_def cworker_loop_def cworker_on_visit_def cworker_send_def cworker_act_def Let_def)
qed

lemma up_frame_read:
  assumes J: "boost_json J" and inv: "session_inv J s" and x: "x \<in> set (ss_up s)" and new: "\<not> w_visited (ss_srv s)"
  shows "\<exists>pong. marshal_msg J M_pong = Inr pong \<and>
    worker_on_read J (Inr x) (ss_srv s) = (worker_post (provide_task c_recv pong) (ss_srv s))\<lparr>w_recv := recv_replying\<rparr>"
proof -
  have "unmarshal_msg J [T_ping] x = Inr M_ping"
    using inv x new confirmed_visited [OF inv] unmarshal_norm [OF J] by (force simp: session_inv_def up_ok_def)
  moreover obtain pong where "marshal_msg J M_pong = Inr pong" using marshal_total [OF J] by blast
  ultimately show ?thesis by (simp add: worker_on_read_def)
qed

lemma up_frame_visit:
  assumes J: "boost_json J" and inv: "session_inv J s" and x: "x \<in> set (ss_up s)" and v: "w_visit (ss_srv s) = visit_reading"
  shows "w_visit (worker_on_visit_read J (Inr x) (ss_srv s)) \<in> {visit_reading, visit_returned}"
proof -
  obtain m where "unmarshal_msg J [T_ping, T_visit_confirmed] x = Inr m"
    using inv x unmarshal_norm [OF J] by (fastforce simp: session_inv_def up_ok_def)
  then show ?thesis using v by (simp add: worker_on_visit_read_def)
qed

text \<open>
  Property C20 (type): neither end surprises the other, as long as the right coroutine reads.  The client,
  reading on its open connection, accepts every frame that is on its way to it, and goes on to read or to
  confirm; the server's \<open>recv_msgs\<close> answers every frame that is on its way up with a pong as long as
  there was no visit; and a visit that reads takes every such frame as a ping or as its
  confirmation and does not fail.  That \<open>recv_msgs\<close> may be the one that reads during a visit,
  and what that leads to, is \<open>confirmation_taken_by_recv_msgs\<close>.
\<close>

theorem neither_end_surprised:
  assumes "boost_json J" "session_reachable J s"
  shows "(\<forall>x\<in>set (ss_down s). cw_main (ss_cli s) = cm_reading \<and> cw_sock (ss_cli s) = sock_open \<longrightarrow>
      (\<exists>c m as. cworker_on_read J now (Inr x) (Inr ()) (ss_cli s) = c \<and>
        cw_trace c = cw_trace (ss_cli s) @ a_recv m # as \<and> cw_main c \<in> {cm_reading, cm_confirming} \<and> \<not> cw_stopping c)) \<and>
    (\<forall>x\<in>set (ss_up s).
      (\<not> w_visited (ss_srv s) \<longrightarrow> (\<exists>pong. marshal_msg J M_pong = Inr pong \<and>
        worker_on_read J (Inr x) (ss_srv s) = (worker_post (provide_task c_recv pong) (ss_srv s))\<lparr>w_recv := recv_replying\<rparr>)) \<and>
      (w_visit (ss_srv s) = visit_reading \<longrightarrow>
        w_visit (worker_on_visit_read J (Inr x) (ss_srv s)) \<in> {visit_reading, visit_returned}))"
  using session_reachable_inv [OF assms] down_frame_read [OF assms(1)] up_frame_read [OF assms(1)] up_frame_visit [OF assms(1)]
  by blast

theorem neither_end_surprised_witness:
  "\<exists>s x pong. session_reachable plain_json s \<and> ss_up s = [x] \<and>
    worker_on_read plain_json (Inr x) (ss_srv s) = (worker_post (provide_task c_recv pong) (ss_srv s))\<lparr>w_recv := recv_replying\<rparr>"
proof -
  obtain s where s: "session_reachable plain_json s" "worker_idle (ss_srv s)" "length (ss_up s) = 1"
    using demo_session by blast
  then obtain x where x: "ss_up s = [x]" by (auto simp: length_Suc_conv)
  moreover have "\<not> w_visited (ss_srv s)"
    using session_reachable_inv [OF boost_json_plain s(1)] s(2)
    by (auto simp: session_inv_def worker_inv_def worker_flag_inv_def worker_idle_def)
  ultimately obtain pong where "worker_on_read plain_json (Inr x) (ss_srv s) =
      (worker_post (provide_task c_recv pong) (ss_srv s))\<lparr>w_recv := recv_replying\<rparr>"
    using neither_end_surprised [OF boost_json_plain s(1)] by fastforce
  then show ?thesis using s(1) x by blast
qed

text \<open>
  The confirmation can be lost to \<open>recv_msgs\<close>.  A visit that begins while \<open>recv_msgs\<close> waits for its pong to be
  taken does not stop it; \<open>recv_msgs\<close> goes on to read next to the visit.  When the confirmation reaches it
  first it refuses it as an unexpected message and ends without a trace, since the errors of a visited
  worker are ignored.  The visit then waits with nothing on its way in either direction and a client
  that has given its connection away, and only the peer can end the wait.
\<close>

definition stolen_confirmation :: "(nat \<times> session_event) list" where
  "stolen_confirmation = demo_events @
    [(21, sse_server (ev_read (Inr (norm (msg_json M_ping))))), (21, sse_server (ev_closure 0)),
     (21, sse_server (ev_resume 0)), (22, sse_server (ev_visit (Inr ()) 5 \<lparr>ep_ip = ''::1'', ep_port = 9\<rparr>)),
     (22, sse_server (ev_write (Inr ()))), (22, sse_server (ev_resume 0)), (22, sse_server (ev_closure 0)),
     (22, sse_server (ev_closure 0)), (22, sse_server (ev_resume 1)), (22, sse_server (ev_resume 0)),
     (22, sse_server (ev_write (Inr ()))), (23, sse_client (cwe_read (Inr (norm (msg_json M_pong))) (Inr ()))),
     (23, sse_client (cwe_read (Inr (norm (msg_json a_visit))) (Inr ()))), (23, sse_client (cwe_confirmed (Inr ()))),
     (24, sse_server (ev_read (Inr (norm (msg_json M_visit_confirmed)))))]"

lemmas unmarshal_plain_norm = unmarshal_norm [OF boost_json_plain marshal_msg_plain]

theorem confirmation_taken_by_recv_msgs:
  "\<exists>s. session_steps plain_json stolen_confirmation
      (session_start plain_json 0 (worker_new sock_open 7 0) (cworker_new 0 ''ssh'' 4)) = Some s \<and>
    ss_up s = [] \<and> ss_down s = [] \<and> cw_main (ss_cli s) = cm_providing \<and> w_recv (ss_srv s) = recv_done \<and>
    w_visit (ss_srv s) = visit_reading \<and> \<not> w_stopping (ss_srv s)"
  by (simp add: stolen_confirmation_def demo_events_def session_start_def cworker_run_def cworker_new_def cworker_eval
      client_sent_def server_sent_def worker_run_def worker_new_def worker_ops wq_new_def worker_run_closure_def run_defs
      worker_on_read_def may_end_def worker_visit_def worker_on_write_def worker_handle_error_def
      unmarshal_plain_norm a_visit_def)

text \<open>
  Property C18 (functional): a visit completes end to end.  Whatever pings and pongs are still
  on their way, a visit to an idle connection whose client reads can be carried through:
  the visit reaches the client, the client gives the connection to its share, the confirmation
  reaches the server behind the pings, the server hands its socket to the user, and no frame
  is left between them to mix with the bytes of the user.
\<close>

theorem visit_session_completes:
  assumes "boost_json J" "session_reachable J s" "worker_idle (ss_srv s)"
    and "cw_main (ss_cli s) = cm_reading" "cw_sock (ss_cli s) = sock_open"
  shows "\<exists>v j s'. marshal_msg J (M_visit_tcp_share \<lparr>vt_epoch = epoch, vt_peer = ep\<rparr>) = Inr v \<and>
    marshal_msg J M_visit_confirmed = Inr j \<and>
    session_steps J (visit_run t epoch ep (ss_up s) (ss_down s) (norm v) (norm j)) s = Some s' \<and>
    w_visit (ss_srv s') = visit_returned \<and> w_sock (ss_srv s') = sock_moved \<and> cw_main (ss_cli s') = cm_providing \<and>
    cw_trace (ss_cli s') = cw_trace (ss_cli s) @ replicate (length (ss_down s)) (a_recv M_pong) @
      [a_recv (M_visit_tcp_share \<lparr>vt_epoch = epoch, vt_peer = ep\<rparr>), a_send M_visit_confirmed, a_provide True] \<and>
    ss_up s' = [] \<and> ss_down s' = []"
  by (rule visit_carried_through [OF assms])

theorem visit_session_completes_witness:
  "\<exists>s v j s'. length (ss_up s) = 1 \<and> session_steps plain_json
      (visit_run 30 5 \<lparr>ep_ip = ''::1'', ep_port = 9\<rparr> (ss_up s) (ss_down s) (norm v) (norm j)) s = Some s' \<and>
    w_visit (ss_srv s') = visit_returned \<and> cw_main (ss_cli s') = cm_providing \<and> ss_up s' = []"
proof -
  obtain s where s: "session_reachable plain_json s" "worker_idle (ss_srv s)" "cw_main (ss_cli s) = cm_reading"
    "cw_sock (ss_cli s) = sock_open" "length (ss_up s) = 1"
    using demo_session by blast
  with visit_session_completes [OF boost_json_plain s(1-4), of 5 "\<lparr>ep_ip = ''::1'', ep_port = 9\<rparr>" 30]
  show ?thesis by blast
qed

end
