(* ===== verification/Control.thy ===== *)
theory Control
  imports Session Server_Registry Client_Props
begin

text \<open>
  The two programs at both ends of their connections.  What the client's controller sends, after its way
  through the text of a frame, is read by the server's \<open>recv_hello\<close>, and the answer by the client's
  controller; the greeting of a worker is read by \<open>recv_hello\<close> too, and makes the two workers
  the two ends of a \<open>Session\<close>.  This composition has no code of its own.
\<close>

section \<open>What the client's controller sends\<close>

text \<open>The hello that a configuration gives.\<close>

definition config_hello :: "client_config \<Rightarrow> string \<Rightarrow> client_hello" where
  "config_hello cfg u = \<lparr>ch_version = 0, ch_client_uuid = u,
     ch_tcp_shares = map (\<lambda>(k, sh). \<lparr>ts_id = k, ts_port = sc_remote_port sh\<rparr>) (cc_tcp_shares cfg)\<rparr>"

lemma start_hello: "kc_hello (client_start cfg u) = config_hello cfg u"
proof -
  have h: "kc_hello (fold (\<lambda>(k, sh) S. add_ctcp_share k (sc_remote_port sh) S) m S) = (kc_hello S)\<lparr>ch_tcp_shares :=
      ch_tcp_shares (kc_hello S) @ map (\<lambda>(k, sh). \<lparr>ts_id = k, ts_port = sc_remote_port sh\<rparr>) m\<rparr>" for m S
    by (induction m arbitrary: S) (auto simp: add_ctcp_share_def Let_def)
  show ?thesis
    unfolding client_start_def client_run_def client_init_def
    by (simp add: h) (simp add: client_new_def config_hello_def)
qed

text \<open>The part of the state that the messages of the controller depend on.\<close>

definition kview :: "client \<Rightarrow> kc_pc \<times> nat option \<times> message list \<times> client_hello" where
  "kview S = (kc_main S, kc_ping S, kc_sent S, kc_hello S)"

lemma kview_upd [simp]:
  "kview (upd_cshare a f S) = kview S" "kview (upd_cworker w g S) = kview S"
  "kview (S\<lparr>kc_stopping := b, kc_sock := x\<rparr>) = kview S" "kview (S\<lparr>cl_exit_code := i\<rparr>) = kview S"
  "kview (S\<lparr>kc_ping_cancelled := c\<rparr>) = kview S" "kview (S\<lparr>kc_ping_pc := p\<rparr>) = kview S" "kview (S\<lparr>kc_stopping := b\<rparr>) = kview S" "kview (S\<lparr>kc_sock := x\<rparr>) = kview S"
  by (simp_all add: kview_def upd_cshare_def upd_cworker_def)

lemma kview_stop [simp]: "kview (cctrl_try_stop S) = kview S"
proof -
  have w: "kview (stop_cworkers ws S) = kview S" for ws S
    by (induction ws arbitrary: S) (auto simp: stop_cworkers_def)
  have s: "kview (cshare_try_stop a S) = kview S" for a S
    using w by (simp add: cshare_try_stop_def split: option.split)
  have "kview (stop_cshares xs S) = kview S" for xs S
    by (rule stop_cshares_induct [where P = "\<lambda>T. kview T = kview S"]) (auto simp: s)
  then show ?thesis by (simp add: cctrl_try_stop_eq)
qed

lemma kview_errors [simp]: "kview (cctrl_handle_error e S) = kview S" "kview (cshare_handle_error e a S) = kview S"
  by (simp_all add: cctrl_handle_error_def cshare_handle_error_def split: option.split)

lemma kview_add [simp]: "kview (add_cworker J a S) = kview S" "kview (cleanup_cworkers a S) = kview S"
  by (simp_all add: add_cworker_def cleanup_cworkers_def Let_def split: option.split) (simp add: kview_def)

lemma kview_adder [simp]: "kview (adder_step J cfg r a s i S) = kview S"
  by (simp add: adder_step_def adder_loop_def drop_adder_def set_adder_def split: adder.split sum.split)

lemma kview_resume [simp]: "kview (cshare_resume cfg now c a S) = kview S"
  by (cases "(cfg, now, c, a, S)" rule: cshare_resume.cases) simp_all

lemma kview_collect [simp]: "kview (ccollect S) = kview S"
  by (simp add: kview_def ccollect_def collect_cshares_def collect_cworkers_def Let_def)

text \<open>First the hello, nothing else before the server's answer, then pings.\<close>

definition sends_in_order :: "client \<Rightarrow> bool" where
  [zrp_inv]: "sends_in_order S \<longleftrightarrow>
    (case kc_main S of
      kc_connecting \<Rightarrow> kc_sent S = [] \<and> kc_ping S = None
    | kc_reading \<Rightarrow> \<exists>n. kc_sent S = M_client_hello (kc_hello S) # replicate n M_ping
    | kc_done \<Rightarrow> kc_sent S = [] \<and> kc_ping S = None \<or> (\<exists>n. kc_sent S = M_client_hello (kc_hello S) # replicate n M_ping)
    | _ \<Rightarrow> kc_sent S = [M_client_hello (kc_hello S)] \<and> kc_ping S = None)"

lemma order_view: "kview T = kview S \<Longrightarrow> sends_in_order T = sends_in_order S"
  by (simp add: kview_def sends_in_order_def split: kc_pc.split)

lemma order_ping [simp]:
  "sends_in_order (S\<lparr>kc_ping_pc := p\<rparr>) = sends_in_order S"
  "sends_in_order (S\<lparr>kc_ping_cancelled := b\<rparr>) = sends_in_order S"
  by (rule order_view, simp)+

lemma order_done: "sends_in_order S \<Longrightarrow> sends_in_order (T\<lparr>kc_main := kc_done\<rparr>)" if "kview T = kview S"
  using that by (auto simp: kview_def sends_in_order_def intro: exI [of _ 0] split: kc_pc.splits)

lemma order_failed: "sends_in_order S \<Longrightarrow> sends_in_order (cctrl_failed e S)"
  unfolding cctrl_failed_def by (rule order_done) simp

lemma order_loop:
  "sends_in_order S \<Longrightarrow> kc_main S \<noteq> kc_connecting \<Longrightarrow> kc_main S \<noteq> kc_done \<Longrightarrow> sends_in_order (cctrl_loop now S)"
  by (auto simp: cctrl_loop_def sends_in_order_def intro: exI [of _ 0] split: kc_pc.splits)

lemma order_add:
  assumes "sends_in_order S" "kc_main S = kc_greeted \<or> (\<exists>b k bs. kc_main S = kc_adding b k bs)"
  shows "sends_in_order (cctrl_add cfg now as S)"
  using assms
proof (induction as arbitrary: S)
  case Nil
  then show ?case by (auto intro: order_loop)
next
  case (Cons a as)
  let ?T = "cleanup_cworkers a S" and ?k = "worker_count (cc_worker_count_initial cfg)"
  have v: "kview ?T = kview S" by simp
  then have T: "sends_in_order ?T" "kc_main ?T = kc_main S" "kc_sent ?T = kc_sent S" "kc_hello ?T = kc_hello S"
    "kc_ping ?T = kc_ping S"
    using Cons.prems(1) order_view [OF v] by (auto simp: kview_def)
  have "sends_in_order (?T\<lparr>kc_main := kc_adding a ?k as\<rparr>)"
    using T Cons.prems by (auto simp: sends_in_order_def)
  moreover have "sends_in_order (cctrl_add cfg now as ?T)" using Cons.IH [of ?T] T(1,2) Cons.prems(2) by simp
  moreover have "sends_in_order (cctrl_add cfg now as S)" using Cons.IH [of S] Cons.prems by simp
  ultimately show ?case by (simp add: Let_def)
qed

lemma order_timer:
  assumes "boost_json J" "sends_in_order S"
  shows "sends_in_order (cctrl_on_timer J now r S)"
proof -
  obtain jv where jv: "marshal_msg J M_ping = Inr jv" using marshal_total [OF assms(1)] by blast
  have more: "replicate n M_ping @ [M_ping] = replicate (Suc n) M_ping" for n by (simp add: replicate_append_same)
  have "sends_in_order (S\<lparr>kc_ping := None, kc_ping_pc := pg_sending, kc_sent := kc_sent S @ [M_ping]\<rparr>)" if "kc_ping S \<noteq> None"
  proof -
    from that assms(2) obtain n where "kc_sent S = M_client_hello (kc_hello S) # replicate n M_ping"
      and m: "kc_main S = kc_reading \<or> kc_main S = kc_done"
      by (auto simp: sends_in_order_def split: kc_pc.splits)
    then have "kc_sent S @ [M_ping] = M_client_hello (kc_hello S) # replicate (Suc n) M_ping"
      by (simp only: append_Cons more)
    then show ?thesis using m by (auto simp: sends_in_order_def simp del: replicate.simps order_ping)
  qed
  then have "sends_in_order (cctrl_ping_check J now S)"
    using assms(2) jv by (simp add: cctrl_ping_check_def Let_def split: option.split)
  moreover have "sends_in_order (cctrl_handle_error e S\<lparr>kc_ping_pc := pg_done\<rparr>)" for e
    using assms order_view [of "cctrl_handle_error e S\<lparr>kc_ping_pc := pg_done\<rparr>" S] by simp
  ultimately show ?thesis by (simp add: cctrl_on_timer_def split: sum.split)
qed

lemma order_act:
  assumes "boost_json J" "sends_in_order S" "client_act J cfg now ev S = Some S'"
  shows "sends_in_order S' \<and> kc_hello S' = kc_hello S"
proof -
  have same: ?thesis if "kview S' = kview S"
    using that assms(2) order_view [OF that] by (simp add: kview_def)
  have failed: "sends_in_order (cctrl_failed e S)" "kc_hello (cctrl_failed e S) = kc_hello S" for e
    using order_failed [OF assms(2)] kview_errors(1) [of e S] by (auto simp: cctrl_failed_def kview_def)
  have add: "kc_hello (cctrl_add cfg now as T) = kc_hello T" for as T
  proof (induction as arbitrary: T)
    case (Cons a as)
    have "kc_hello (cleanup_cworkers a T) = kc_hello T" using kview_add(2) [of a T] by (simp add: kview_def)
    then show ?case using Cons by (simp add: Let_def)
  qed (simp add: cctrl_loop_def)
  show ?thesis
  proof (cases ev)
    case (kev_connected r)
    then show ?thesis using assms(2,3) failed
      by (auto simp: cctrl_on_connected_def sends_in_order_def split: if_splits sum.splits)
  next
    case (kev_hello_written r)
    then show ?thesis using assms(2,3) failed
      by (auto simp: cctrl_on_hello_written_def sends_in_order_def split: if_splits sum.splits)
  next
    case (kev_read r)
    then show ?thesis using assms(2,3) failed order_add [OF assms(2)] order_loop [OF assms(2)] add
      by (auto simp: cctrl_on_read_def cctrl_loop_def split: if_splits sum.splits)
  next
    case (kev_worker_connected r)
    then obtain a k as where pc: "kc_main S = kc_adding a k as" and S': "S' = cctrl_on_worker_connected J cfg now r a k as S"
      using assms(3) by (auto split: kc_pc.splits)
    let ?T = "add_cworker J a S"
    have T: "kview ?T = kview S" by simp
    then have T': "sends_in_order ?T" "kc_main ?T = kc_main S" "kc_hello ?T = kc_hello S" "kc_sent ?T = kc_sent S"
      "kc_ping ?T = kc_ping S"
      using assms(2) order_view [OF T] by (auto simp: kview_def)
    have "sends_in_order (cctrl_add cfg now as ?T)" using order_add [OF T'(1), of cfg now as] T'(2) pc by simp
    moreover have "sends_in_order (?T\<lparr>kc_main := kc_adding a (k - 1) as\<rparr>)"
      using T' pc by (simp add: sends_in_order_def)
    ultimately show ?thesis using S' failed add T'(3)
      by (simp add: cctrl_on_worker_connected_def Let_def split: sum.split)
  next
    case (kev_timer r)
    then have S': "S' = cctrl_on_timer J now r S" using assms(3) by (auto split: if_splits)
    have "kc_hello (cctrl_handle_error e T) = kc_hello T" for e T
      using kview_errors(1) [of e T] by (simp add: kview_def)
    then have "kc_hello S' = kc_hello S"
      by (simp add: S' cctrl_on_timer_def cctrl_ping_check_def Let_def split: sum.split option.split)
    then show ?thesis using S' order_timer [OF assms(1,2)] by simp
  next
    case (kev_worker w wev)
    then have "kview S' = kview S" using assms(3)
      by (auto simp: cworker_act_step_def Let_def split: option.splits if_splits)
    then show ?thesis by (rule same)
  qed (use assms(3) same in \<open>auto simp: cctrl_on_ping_written_def split: option.splits if_splits sum.splits\<close>)
qed

lemma client_sends_in_order:
  assumes "client_steps J cfg evs (client_start cfg u) = Some S" "boost_json J"
  shows "sends_in_order S \<and> kc_hello S = config_hello cfg u"
proof -
  have step: "client_steps J cfg evs T = Some S \<Longrightarrow> sends_in_order T \<Longrightarrow> sends_in_order S \<and> kc_hello S = kc_hello T" for T
  proof (induction evs arbitrary: T)
    case (Cons p evs)
    obtain now ev where p: "p = (now, ev)" by fastforce
    then obtain U where U: "client_act J cfg now ev T = Some U" "client_steps J cfg evs (ccollect U) = Some S"
      using Cons.prems(1) by (auto simp: client_step_def split: option.splits)
    have "kview (ccollect U) = kview U" by simp
    then have "sends_in_order (ccollect U) = sends_in_order U" "kc_hello (ccollect U) = kc_hello U"
      using order_view [of "ccollect U" U] by (simp_all add: kview_def)
    then show ?case using Cons.IH [OF U(2)] order_act [OF assms(2) Cons.prems(2) U(1)] by metis
  qed simp
  have sent: "kc_sent (fold (\<lambda>(k, sh) S. add_ctcp_share k (sc_remote_port sh) S) m S) = kc_sent S" for m S
    by (induction m arbitrary: S) (auto simp: add_ctcp_share_def Let_def)
  have "kc_sent (client_init cfg (client_new u)) = []" unfolding client_init_def sent by (simp add: client_new_def)
  then have "sends_in_order (client_start cfg u)"
    by (simp add: sends_in_order_def client_start_def client_run_def)
  then show ?thesis using step [OF assms(1)] start_hello by simp
qed

section \<open>What the server's controller sends\<close>

text \<open>A controller that was not run yet, as it stays when its hello was refused.\<close>

definition ctrl_unrun :: "ctrl \<Rightarrow> bool" where
  "ctrl_unrun ct \<longleftrightarrow> ct_sent ct = [] \<and> ct_recv ct = recv_done \<and> ct_send ct = cs_done \<and>
    set (ct_posted ct) \<subseteq> {close_task} \<and> ct_ready ct = [] \<and> queued (ct_to_send ct) = []"

text \<open>The values that a controller holds.\<close>

definition ctrl_holds :: "json \<Rightarrow> ctrl \<Rightarrow> bool" where
  "ctrl_holds m ct \<longleftrightarrow> (\<exists>h. provide_task h m \<in> set (ct_posted ct) \<or> (h, m) \<in> set (wq_vq (ct_to_send ct)) \<or>
    wait_done h m \<in> set (ct_ready ct))"

definition ctrl_polite :: "json_lib \<Rightarrow> string \<Rightarrow> ctrl \<Rightarrow> bool" where
  [zrp_inv]: "ctrl_polite J wm ct \<longleftrightarrow> (\<forall>m. ctrl_holds m ct \<longrightarrow> marshal_msg J M_pong = Inr m) \<and>
    (ctrl_unrun ct \<or> (\<exists>g p n. marshal_msg J (M_server_hello \<lparr>sh_version = 0, sh_welcome = wm\<rparr>) = Inr g \<and>
      marshal_msg J M_pong = Inr p \<and> ct_sent ct = g # replicate n p))"

lemma polite_sel [simp]:
  "ctrl_polite J wm (ct\<lparr>ct_shares := x1\<rparr>) = ctrl_polite J wm ct" "ctrl_polite J wm (ct\<lparr>ct_ddl := x2\<rparr>) = ctrl_polite J wm ct"
  "ctrl_polite J wm (ct\<lparr>ct_ddl_action := x3\<rparr>) = ctrl_polite J wm ct" "ctrl_polite J wm (ct\<lparr>ct_sock := x4\<rparr>) = ctrl_polite J wm ct"
  "ctrl_polite J wm (ct\<lparr>ct_stopping := x5\<rparr>) = ctrl_polite J wm ct"
  by (simp_all add: ctrl_polite_def ctrl_holds_def ctrl_unrun_def)

lemma polite_done: "ctrl_polite J wm ct \<Longrightarrow> ctrl_polite J wm (ct\<lparr>ct_recv := recv_done\<rparr>)"
  "ctrl_polite J wm ct \<Longrightarrow> ctrl_polite J wm (ct\<lparr>ct_send := cs_done\<rparr>)"
  by (auto simp: ctrl_polite_def ctrl_holds_def ctrl_unrun_def)

lemma polite_close: "ctrl_polite J wm ct \<Longrightarrow> ctrl_polite J wm (ctrl_close ct)"
  by (auto simp: ctrl_polite_def ctrl_holds_def ctrl_unrun_def ctrl_close_def ctrl_post_def queued_def Let_def)

lemma polite_run:
  "ctrl_polite J wm ct \<Longrightarrow> \<not> ctrl_unrun ct \<Longrightarrow> ctrl_polite J wm (ct\<lparr>ct_recv := x, ct_send := y\<rparr>)"
  "ctrl_polite J wm ct \<Longrightarrow> \<not> ctrl_unrun ct \<Longrightarrow> ctrl_polite J wm (ctrl_send_loop ct)"
  "ctrl_polite J wm ct \<Longrightarrow> \<not> ctrl_unrun ct \<Longrightarrow> ctrl_polite J wm (ctrl_recv_loop now ct)"
  "ctrl_polite J wm ct \<Longrightarrow> \<not> ctrl_unrun ct \<Longrightarrow> marshal_msg J M_pong = Inr m \<Longrightarrow>
    ctrl_polite J wm ((ctrl_post (provide_task h m) ct)\<lparr>ct_recv := x\<rparr>)"
  by (auto simp: ctrl_polite_def ctrl_holds_def ctrl_send_loop_def ctrl_recv_loop_def ctrl_set_ddl_def ctrl_post_def)

lemma polite_closure:
  assumes "ctrl_polite J wm ct" "i < length (ct_posted ct)"
  shows "ctrl_polite J wm (ctrl_run_closure i ct)"
proof -
  obtain q' cs where r: "run_task (ct_posted ct ! i) (ct_to_send ct) = (q', cs)" by fastforce
  have t: "ct_posted ct ! i \<in> set (ct_posted ct)" using assms(2) by simp
  have "ctrl_holds m ct" if "ctrl_holds m (ctrl_run_closure i ct)" for m
    using that run_task_values [OF r] t set_remove_nth [of i "ct_posted ct"]
    by (fastforce simp: ctrl_holds_def ctrl_run_closure_def r)
  moreover have "ctrl_unrun (ctrl_run_closure i ct)" if "ctrl_unrun ct"
  proof -
    have "ct_posted ct ! i = close_task" using t that by (auto simp: ctrl_unrun_def)
    then show ?thesis using that r set_remove_nth [of i "ct_posted ct"]
      by (auto simp: ctrl_unrun_def ctrl_run_closure_def run_defs queued_def)
  qed
  ultimately show ?thesis using assms(1) by (auto simp: ctrl_polite_def ctrl_run_closure_def r)
qed

definition ctrls_polite :: "json_lib \<Rightarrow> string \<Rightarrow> server \<Rightarrow> bool" where
  "ctrls_polite J wm S \<longleftrightarrow> (\<forall>c ct. hget (hp_ctrls S) c = Some ct \<longrightarrow> ctrl_polite J wm ct)"

lemma ctrls_same: "hp_ctrls S' = hp_ctrls S \<Longrightarrow> ctrls_polite J wm S' = ctrls_polite J wm S"
  by (simp add: ctrls_polite_def)

lemma ctrls_upd:
  "ctrls_polite J wm S \<Longrightarrow> (\<And>ct. ctrl_polite J wm ct \<Longrightarrow> ctrl_polite J wm (f ct)) \<Longrightarrow> ctrls_polite J wm (upd_ctrl c f S)"
  by (auto simp: ctrls_polite_def upd_ctrl_def split: if_splits)

lemma ctrls_upd_at:
  "ctrls_polite J wm S \<Longrightarrow> (\<And>ct. hget (hp_ctrls S) c = Some ct \<Longrightarrow> ctrl_polite J wm ct \<Longrightarrow> ctrl_polite J wm (f ct)) \<Longrightarrow>
    ctrls_polite J wm (upd_ctrl c f S)"
  by (auto simp: ctrls_polite_def upd_ctrl_def split: if_splits)

lemma hp_ctrls_shares [simp]:
  "hp_ctrls (upd_share a f S) = hp_ctrls S" "hp_ctrls (upd_worker w g S) = hp_ctrls S"
  "hp_ctrls (stop_workers ws S) = hp_ctrls S" "hp_ctrls (share_try_stop a S) = hp_ctrls S"
  "hp_ctrls (stop_shares ss S) = hp_ctrls S"
proof -
  show "hp_ctrls (upd_share a f S) = hp_ctrls S" for f a S by (simp add: upd_share_def)
  show "hp_ctrls (upd_worker w g S) = hp_ctrls S" for w g S by (simp add: upd_worker_def)
  show w: "hp_ctrls (stop_workers ws S) = hp_ctrls S" for ws S
    by (induction ws arbitrary: S) (auto simp: stop_workers_def upd_worker_def)
  show s: "hp_ctrls (share_try_stop a S) = hp_ctrls S" for a S
    using w by (simp add: share_try_stop_def upd_share_def split: option.split)
  show "hp_ctrls (stop_shares ss S) = hp_ctrls S" for ss S
    by (induction ss arbitrary: S) (auto simp: stop_shares_def s)
qed

lemma ctrls_stop: "ctrls_polite J wm S \<Longrightarrow> ctrls_polite J wm (ctrl_try_stop c S)"
  using ctrls_upd [of J wm S ctrl_close c] polite_close
  by (auto simp: ctrl_try_stop_def ctrls_same [of "stop_shares ss T" T for ss T] split: option.split)

lemma ctrls_errors:
  "ctrls_polite J wm S \<Longrightarrow> ctrls_polite J wm (ctrl_handle_error e c S)"
  "ctrls_polite J wm S \<Longrightarrow> ctrls_polite J wm (share_handle_error e a S)"
  using ctrls_stop by (auto simp: ctrl_handle_error_def share_handle_error_def split: option.split)

lemma hp_ctrls_conns [simp]:
  "hp_ctrls (upd_conn k f S) = hp_ctrls S" "hp_ctrls (conn_try_stop k S) = hp_ctrls S"
  "hp_ctrls (conn_handle_error e k S) = hp_ctrls S"
  by (simp_all add: conn_handle_error_def conn_try_stop_def upd_conn_def split: option.split)

lemma ctrls_server_stop: "ctrls_polite J wm S \<Longrightarrow> ctrls_polite J wm (server_try_stop S)"
proof -
  assume S: "ctrls_polite J wm S"
  have c: "ctrls_polite J wm (fold (\<lambda>(i, c) S. if live (hp_ctrls S) c then ctrl_try_stop c S else S) cs T)"
    if "ctrls_polite J wm T" for cs T
    using that by (induction cs arbitrary: T) (auto simp: ctrls_stop)
  have k: "ctrls_polite J wm (fold (\<lambda>k S. if live (hp_conns S) k then conn_try_stop k S else S) ks T)"
    if "ctrls_polite J wm T" for ks T
    using that by (induction ks arbitrary: T) (auto simp: ctrls_same [of "conn_try_stop a T" T for a T])
  have "ctrls_polite J wm (S\<lparr>sv_stopping := True\<rparr>)" using S by (simp add: ctrls_polite_def)
  from k [OF c [OF this]] show ?thesis by (simp add: server_try_stop_def Let_def ctrls_polite_def)
qed

lemma ctrls_step:
  assumes "ctrls_polite J wm S" "hget (hp_ctrls S) c = Some ct" "ctrl_step J now ev c ct S = Some S'"
  shows "ctrls_polite J wm S'"
proof -
  have ok: "ctrl_polite J wm ct" using assms(1,2) by (simp add: ctrls_polite_def)
  have ended: "ctrls_polite J wm (upd_ctrl c (\<lambda>ct. ct\<lparr>ct_recv := recv_done\<rparr>) (ctrl_handle_error e c T))"
    "ctrls_polite J wm (upd_ctrl c (\<lambda>ct. ct\<lparr>ct_send := cs_done\<rparr>) (ctrl_handle_error e c T))"
    "ctrls_polite J wm (upd_ctrl c (\<lambda>ct. ct\<lparr>ct_send := cs_done\<rparr>) T)"
    if "ctrls_polite J wm T" for e T
    using that polite_done by (auto intro!: ctrls_upd ctrls_errors)
  show ?thesis
  proof (cases ev)
    case (cev_read r)
    then have run: "\<not> ctrl_unrun ct" and S': "S' = ctrl_on_read J r c S"
      using assms(3) by (auto simp: ctrl_unrun_def split: if_splits)
    show ?thesis
    proof (cases "ebind r (\<lambda>jv. ebind (unmarshal_msg J [T_ping] jv) (\<lambda>m. marshal_msg J M_pong))")
      case (Inl e)
      then show ?thesis using ended(1) [OF assms(1)] by (simp add: S' ctrl_on_read_def)
    next
      case (Inr pong)
      then have "marshal_msg J M_pong = Inr pong" by (auto simp: ebind_Inr_iff)
      then show ?thesis using Inr assms(1,2) run
        by (auto simp: S' ctrl_on_read_def intro!: ctrls_upd_at polite_run)
    qed
  next
    case (cev_write r)
    then have run: "\<not> ctrl_unrun ct" and S': "S' = ctrl_on_write r c S"
      using assms(3) by (auto simp: ctrl_unrun_def split: ctrl_send_pc.splits)
    show ?thesis
    proof (cases r)
      case (Inl e)
      then show ?thesis using ended(2,3) [OF assms(1)] assms(2)
        by (simp add: S' ctrl_on_write_def split: ctrl_send_pc.split)
    next
      case (Inr u)
      then show ?thesis using assms(1,2) run
        by (auto simp: S' ctrl_on_write_def intro!: ctrls_upd_at polite_run)
    qed
  next
    case (cev_closure i)
    then show ?thesis using assms by (auto intro!: ctrls_upd_at polite_closure split: if_splits)
  next
    case (cev_resume i)
    then have i: "i < length (ct_ready ct)" using assms(3) by (auto split: if_splits)
    let ?T = "upd_ctrl c (\<lambda>ct. ct\<lparr>ct_ready := remove_nth i (ct_ready ct)\<rparr>) S"
    have mem: "ct_ready ct ! i \<in> set (ct_ready ct)" using i by simp
    then have run: "\<not> ctrl_unrun ct" by (auto simp: ctrl_unrun_def)
    let ?ct = "ct\<lparr>ct_ready := remove_nth i (ct_ready ct)\<rparr>"
    obtain g p n where g: "marshal_msg J (M_server_hello \<lparr>sh_version = 0, sh_welcome = wm\<rparr>) = Inr g"
      "marshal_msg J M_pong = Inr p" "ct_sent ct = g # replicate n p"
      using ok run by (auto simp: ctrl_polite_def)
    have ct: "ctrl_polite J wm ?ct" "\<not> ctrl_unrun ?ct"
      using ok g set_remove_nth [of i "ct_ready ct"] unfolding ctrl_polite_def ctrl_holds_def ctrl_unrun_def by auto
    have T: "ctrls_polite J wm ?T" "hget (hp_ctrls ?T) c = Some ?ct"
      using assms(1,2) ct(1) by (auto simp: upd_ctrl_def ctrls_polite_def)
    have S': "S' = ctrl_resume now (ct_ready ct ! i) c ?T" using assms(3) cev_resume i by simp
    show ?thesis
    proof (cases "ct_ready ct ! i")
      case (wait_done h m)
      then have "m = p" using mem ok g(2) by (fastforce simp: ctrl_polite_def ctrl_holds_def)
      then have "ctrl_polite J wm (?ct\<lparr>ct_send := cs_writing m, ct_sent := ct_sent ?ct @ [m]\<rparr>)"
        using ct g by (auto simp: ctrl_polite_def ctrl_holds_def replicate_append_same intro!: exI [of _ "Suc n"])
      then show ?thesis using T by (auto simp: S' wait_done intro!: ctrls_upd_at)
    next
      case (wait_aborted h)
      then show ?thesis using ended(2) [OF T(1)] by (simp add: S')
    next
      case (provide_done h)
      then show ?thesis using T ct by (auto simp: S' intro!: ctrls_upd_at polite_run)
    next
      case (provide_aborted h)
      then show ?thesis using ended(1) [OF T(1)] by (simp add: S')
    qed
  qed
qed

lemma polite_new: "ctrl_polite J wm (ctrl_new s u)"
  by (simp add: ctrl_polite_def ctrl_holds_def ctrl_unrun_def ctrl_new_def wq_new_def queued_def)

lemma register_share_unrun:
  assumes "register_share c it S = (r, S')" "hget (hp_ctrls S') d = Some ct"
  shows "\<exists>ct0 ss. hget (hp_ctrls S) d = Some ct0 \<and> ct = ct0\<lparr>ct_shares := ss\<rparr>"
  using assms
  by (auto simp: register_share_def add_tcp_share_def upd_ctrl_def Let_def split: option.splits if_splits)
    (rule ctrl_same | (rule exI, rule refl))+

lemma register_shares_unrun:
  "register_shares c its S = (r, S') \<Longrightarrow> hget (hp_ctrls S') d = Some ct \<Longrightarrow>
    \<exists>ct0 ss. hget (hp_ctrls S) d = Some ct0 \<and> ct = ct0\<lparr>ct_shares := ss\<rparr>"
proof (induction its arbitrary: S)
  case Nil
  then show ?case using ctrl_same [of ct] by auto
next
  case (Cons it its)
  obtain x T where T: "register_share c it S = (x, T)" by fastforce
  have "\<exists>ct1 ss. hget (hp_ctrls T) d = Some ct1 \<and> ct = ct1\<lparr>ct_shares := ss\<rparr>"
    using Cons T ctrl_same [of ct] by (cases x) auto
  then obtain ct1 ss where 1: "hget (hp_ctrls T) d = Some ct1" "ct = ct1\<lparr>ct_shares := ss\<rparr>" by blast
  then obtain ct0 ss0 where "hget (hp_ctrls S) d = Some ct0" "ct1 = ct0\<lparr>ct_shares := ss0\<rparr>"
    using register_share_unrun [OF T] by blast
  then show ?case using 1(2) by (intro exI [of _ ct0] exI [of _ ss]) simp
qed

lemma ctrls_hello_client:
  assumes J: "boost_json J" and S: "ctrls_polite J wm S" and h: "hello_client J wm now k hello S = (r, S')"
  shows "ctrls_polite J wm S'"
proof (cases "hget (hp_conns S) k")
  case None
  then show ?thesis using S h by (simp add: hello_client_def)
next
  case (Some cn)
  let ?c = "hp_next S"
  let ?S = "hello_start k cn hello S"
  have start: "ctrls_polite J wm ?S" using S polite_new by (auto simp: ctrls_polite_def hello_start_def split: if_splits)
  obtain x T where T: "register_ctrl ?c (ch_client_uuid hello) ?S = (x, T)" by fastforce
  then have hp: "hp_ctrls T = hp_ctrls ?S" by (auto simp: register_ctrl_def split: option.splits if_splits)
  then have polT: "ctrls_polite J wm T" using start ctrls_same by blast
  obtain y U where U: "register_shares ?c (ch_tcp_shares hello) T = (y, U)" by fastforce
  have polU: "ctrls_polite J wm U"
    using polT register_shares_unrun [OF U] unfolding ctrls_polite_def by (metis polite_sel(1))
  have run: "ctrls_polite J wm (upd_ctrl ?c (ctrl_run J wm now) U)"
  proof (rule ctrls_upd_at [OF polU])
    fix ct assume "hget (hp_ctrls U) ?c = Some ct"
    then obtain ss where ct: "ct = (ctrl_new (cn_sock cn) (ch_client_uuid hello))\<lparr>ct_shares := ss\<rparr>"
      using register_shares_unrun [OF U, of ?c ct] hp by (auto simp: hello_start_def)
    obtain g p where "marshal_msg J (M_server_hello \<lparr>sh_version = 0, sh_welcome = wm\<rparr>) = Inr g" "marshal_msg J M_pong = Inr p"
      using marshal_total [OF J] by meson
    then show "ctrl_polite J wm (ctrl_run J wm now ct)"
      by (simp add: ct ctrl_polite_def ctrl_holds_def ctrl_run_def ctrl_recv_loop_def ctrl_set_ddl_def ctrl_new_def
          wq_new_def Let_def)
  qed
  show ?thesis
    using h Some T U polT polU run
    by (auto simp: hello_client_def hello_start_def Let_def ctrls_same [of "upd_conn k f V" V for f V] split: option.splits)
qed

lemma hp_ctrls_misc [simp]:
  "hp_ctrls (conn_on_timer k r S) = hp_ctrls S" "hp_ctrls (handle_socket now S) = hp_ctrls S"
  "hp_ctrls (got_worker a w S) = hp_ctrls S" "hp_ctrls (share_resume J now x epoch cpl a S) = hp_ctrls S"
proof -
  show "hp_ctrls (conn_on_timer k r S) = hp_ctrls S" by (simp add: conn_on_timer_def Let_def split: option.split sum.split)
  show "hp_ctrls (handle_socket now S) = hp_ctrls S" by (simp add: handle_socket_def cleanup_sockets_def Let_def)
  show "hp_ctrls (got_worker a w S) = hp_ctrls S" by (simp add: got_worker_def split: option.split)
  show "hp_ctrls (share_resume J now x epoch cpl a S) = hp_ctrls S"
    by (cases "(J, now, x, epoch, cpl, a, S)" rule: share_resume.cases) simp_all
qed

lemma ctrls_hello:
  assumes "boost_json J" "ctrls_polite J wm S"
  shows "ctrls_polite J wm (conn_on_hello J wm now k r S)"
proof -
  let ?S = "upd_conn k (\<lambda>cn. cn\<lparr>cn_recv := False\<rparr>) S"
  have S: "ctrls_polite J wm ?S" using assms(2) by (simp add: ctrls_polite_def)
  have h: "ctrls_polite J wm T" if T: "hello_msg J wm now k m ?S = (x, T)" for m x T
  proof (cases m)
    case (M_client_hello h)
    then show ?thesis using ctrls_hello_client [OF assms(1) S] T by simp
  next
    case (M_worker_hello h)
    then have "hp_ctrls T = hp_ctrls ?S"
      using T by (auto simp: hello_worker_def Let_def split: option.splits if_splits)
    then show ?thesis using S ctrls_same by blast
  qed (use T S in auto)
  show ?thesis
    using S h by (auto simp: conn_on_hello_def Let_def ctrls_polite_def split: sum.splits option.splits prod.splits)
qed

lemma ctrls_act:
  assumes J: "boost_json J" and S: "ctrls_polite J wm S" and st: "server_act J wm now ev S = Some S'"
  shows "ctrls_polite J wm S'"
proof -
  have same: "hp_ctrls T = hp_ctrls S \<Longrightarrow> ctrls_polite J wm T" for T using S ctrls_same by blast
  show ?thesis
  proof (cases ev)
    case (sev_accept r)
    have "ctrls_polite J wm (server_handle_error e S)" for e
      using ctrls_server_stop [of J wm "S\<lparr>sv_exit_code := 1\<rparr>"] S by (simp add: server_handle_error_def ctrls_polite_def)
    then show ?thesis using sev_accept st same
      by (auto simp: serve_accepted_def ctrls_polite_def split: if_splits sum.splits)
  next
    case (sev_hello k r)
    then show ?thesis using st ctrls_hello [OF J S] by (auto split: option.splits if_splits)
  next
    case (sev_ctrl c cev)
    then show ?thesis using st ctrls_step [OF S] by (auto split: option.splits)
  next
    case (sev_fwd_start a r)
    then show ?thesis using st S ctrls_errors(2) [OF S]
      by (auto simp: run_forwarder_start_def ctrls_same [of "upd_share b f T" T for b f T] split: option.splits if_splits sum.splits)
  next
    case (sev_fwd_end a e)
    then show ?thesis using st S ctrls_errors(2) [OF S]
      by (auto simp: run_forwarder_end_def ctrls_same [of "upd_share b f T" T for b f T] split: option.splits if_splits)
  next
    case sev_stop
    then show ?thesis using st ctrls_server_stop [OF S] by simp
  qed (use st same in \<open>auto split: option.splits if_splits\<close>)
qed

lemma ctrls_collect: "ctrls_polite J wm S \<Longrightarrow> ctrls_polite J wm (collect S)"
proof -
  have "hget (hp_ctrls (collect S)) c = Some ct \<Longrightarrow> hget (hp_ctrls S) c = Some ct" for c ct
    by (auto simp: collect_def collect_conns_def collect_ctrls_def collect_shares_def collect_workers_def hget_keep Let_def
        split: option.splits if_splits)
  then show "ctrls_polite J wm S \<Longrightarrow> ctrls_polite J wm (collect S)" by (auto simp: ctrls_polite_def)
qed

lemma server_ctrls_polite:
  assumes "boost_json J" "server_reachable J wm S"
  shows "ctrls_polite J wm S"
proof -
  have "server_steps J wm evs T = Some S \<Longrightarrow> ctrls_polite J wm T \<Longrightarrow> ctrls_polite J wm S" for evs T
  proof (induction evs arbitrary: T)
    case (Cons p evs)
    then show ?case using ctrls_act [OF assms(1)] ctrls_collect
      by (cases p) (auto simp: server_step_def split: option.splits)
  qed simp
  moreover have "ctrls_polite J wm (server_run server_new)" by (simp add: ctrls_polite_def server_run_def server_new_def)
  ultimately show ?thesis using assms(2) unfolding server_reachable_def by blast
qed

section \<open>Properties\<close>



text \<open>
  Property C10 (functional): a configuration reaches the server.  When a client with some configuration
  has connected and greeted, and its uuid and the names of its shares are free, then the server,
  reading that greeting, registers every share of the configuration with its remote port
  under one new controller, and answers with a hello on which the client begins to add workers.
\<close>

theorem configuration_reaches_server:
  assumes "boost_json J" "map_ok (cc_tcp_shares cfg)"
    and "client_steps J cfg evs (client_start cfg u) = Some C" "kc_main C = kc_greeted"
    and "server_reachable J wm S" "hget (hp_conns S) k = Some cn"
    and "\<forall>c. map_find u (sv_ctrls S) = Some c \<longrightarrow> \<not> live (hp_ctrls S) c"
    and "\<forall>sid a. sid \<in> fst ` set (cc_tcp_shares cfg) \<and> map_find sid (sv_tcp_shares S) = Some a \<longrightarrow> \<not> live (hp_shares S) a"
  shows "\<exists>m jv S' c ct g. kc_sent C = [m] \<and> marshal_msg J m = Inr jv \<and>
    S' = conn_on_hello J wm now k (Inr (norm jv)) S \<and>
    map_find u (sv_ctrls S') = Some c \<and> hget (hp_ctrls S') c = Some ct \<and> ct_sock ct = cn_sock cn \<and> ct_sent ct = [g] \<and>
    (\<forall>(sid, sh)\<in>set (cc_tcp_shares cfg). \<exists>a. map_find sid (sv_tcp_shares S') = Some a \<and>
      hget (hp_shares S') a = Some (share_new c sid (sc_remote_port sh))) \<and>
    cctrl_on_read J cfg now' (Inr (norm g)) C = cctrl_add cfg now' (map snd (kc_shares C)) C"
proof -
  let ?h = "config_hello cfg u"
  have C: "kc_sent C = [M_client_hello ?h]"
    using client_sends_in_order [OF assms(3,1)] assms(4) by (simp add: sends_in_order_def)
  obtain jv where jv: "marshal_msg J (M_client_hello ?h) = Inr jv" using marshal_total [OF assms(1)] by blast
  obtain g where g: "marshal_msg J (M_server_hello \<lparr>sh_version = 0, sh_welcome = wm\<rparr>) = Inr g"
    using marshal_total [OF assms(1)] by blast
  let ?S = "upd_conn k (\<lambda>cn. cn\<lparr>cn_recv := False\<rparr>) S"
  have S: "server_inv {} ?S" "hget (hp_conns ?S) k = Some (cn\<lparr>cn_recv := False\<rparr>)" "sv_ctrls ?S = sv_ctrls S"
    "hp_ctrls ?S = hp_ctrls S" "sv_tcp_shares ?S = sv_tcp_shares S" "hp_shares ?S = hp_shares S"
    using server_inv_shape [OF shape_upd_conn server_reachable_inv [OF assms(5)]] assms(6) by (simp_all add: upd_conn_def)
  have ids: "map ts_id (ch_tcp_shares ?h) = map fst (cc_tcp_shares cfg)"
    by (simp add: config_hello_def comp_def case_prod_beta)
  have free: "\<forall>it\<in>set (ch_tcp_shares ?h). \<forall>a. map_find (ts_id it) (sv_tcp_shares ?S) = Some a \<longrightarrow> \<not> live (hp_shares ?S) a"
    using assms(8) S by (force simp: config_hello_def)
  have "distinct (map ts_id (ch_tcp_shares ?h))" unfolding ids by (rule map_ok_distinct [OF assms(2)])
  then obtain S1 c ct where S1: "hello_client J wm now k ?h ?S = (None, S1)" "hget (hp_ctrls S1) c = Some ct"
    "map_find u (sv_ctrls S1) = Some c" "ct_sock ct = cn_sock cn" "ct_sent ct = [g]"
    "\<forall>it\<in>set (ch_tcp_shares ?h). \<exists>a. map_find (ts_id it) (sv_tcp_shares S1) = Some a \<and>
      hget (hp_shares S1) a = Some (share_new c (ts_id it) (ts_port it))"
    using hello_registers_all [OF S(1,2) _ _ free g, of now] assms(7) S(3,4)
    by (auto simp: config_hello_def)
  let ?S' = "conn_on_hello J wm now k (Inr (norm jv)) S"
  have "?S' = conn_try_stop k (upd_conn k (\<lambda>cn. cn\<lparr>cn_finished := True\<rparr>) S1)"
    using S1(1) unmarshal_norm [OF assms(1) jv] by (simp add: conn_on_hello_def)
  then have same: "sv_ctrls ?S' = sv_ctrls S1" "hp_ctrls ?S' = hp_ctrls S1" "sv_tcp_shares ?S' = sv_tcp_shares S1"
    "hp_shares ?S' = hp_shares S1"
    by (simp_all add: conn_try_stop_def upd_conn_def)
  have shares: "\<forall>(sid, sh)\<in>set (cc_tcp_shares cfg). \<exists>a. map_find sid (sv_tcp_shares ?S') = Some a \<and>
      hget (hp_shares ?S') a = Some (share_new c sid (sc_remote_port sh))"
    using S1(6) same by (force simp: config_hello_def)
  have "cctrl_on_read J cfg now' (Inr (norm g)) C = cctrl_add cfg now' (map snd (kc_shares C)) C"
    using assms(4) unmarshal_norm [OF assms(1) g] by (simp add: cctrl_on_read_def)
  then show ?thesis
    using C jv S1 same shares
    by (intro exI [of _ "M_client_hello ?h"] exI [of _ jv] exI [of _ ?S'] exI [of _ c] exI [of _ ct] exI [of _ g]) simp
qed

text \<open>
  Property C22 (functional): a worker joins its share.  The worker that a client adds to a share
  greets with the name of that share; the server, reading the greeting, attaches the connection to the share
  registered under that name, as a worker with the client's id, and the two workers are the two
  ends of a session.
\<close>

theorem worker_joins_its_share:
  assumes "boost_json J" "hget (cl_shares C) a = Some s"
    and "server_reachable J wm S" "hget (hp_conns S) k = Some cn"
    and "\<not> cn_stopping cn" "\<not> cn_finished cn" "cn_sock cn = sock_open"
    and "map_find (cs_id s) (sv_tcp_shares S) = Some b" "live (hp_shares S) b"
  shows "\<exists>m jv wc ws w sh. hget (cl_workers (add_cworker J a C)) (cl_next C) = Some wc \<and> cw_share wc = a \<and>
    cw_trace wc = [a_send m] \<and> marshal_msg J m = Inr jv \<and>
    hget (hp_workers (conn_on_hello J wm now k (Inr (norm jv)) S)) w = Some ws \<and> w_share ws = b \<and>
    w_id ws = word_of_int (cs_next_id s) \<and>
    hget (hp_shares (conn_on_hello J wm now k (Inr (norm jv)) S)) b = Some sh \<and> w \<in> set (shr_arriving sh) \<and> shr_id sh = cs_id s \<and>
    session_reachable J \<lparr>ss_srv = ws, ss_cli = wc, ss_up = [], ss_down = []\<rparr>"
proof -
  let ?wc = "cworker_new a (cs_id s) (cs_next_id s)"
  let ?h = "\<lparr>wh_tcp_share_id = cs_id s, wh_worker_id = word_of_int (cs_next_id s)\<rparr>"
  let ?ws = "worker_run now (worker_new sock_open (word_of_int (cs_next_id s)) b)"
  obtain jv where jv: "marshal_msg J (M_worker_hello ?h) = Inr jv" using marshal_total [OF assms(1)] by blast
  have wc: "cw_trace (cworker_run J ?wc) = [a_send (M_worker_hello ?h)]" "cw_share (cworker_run J ?wc) = a"
    using jv by (simp_all add: cworker_run_def cworker_send_def cworker_new_def hello_of_def)
  have add: "hget (cl_workers (add_cworker J a C)) (cl_next C) = Some (cworker_run J ?wc)"
    using assms(2) by (simp add: add_cworker_def Let_def upd_cshare_def)
  have u: "unmarshal_msg J [T_client_hello, T_worker_hello] (norm jv) = Inr (M_worker_hello ?h)"
    using unmarshal_norm [OF assms(1) jv] by simp
  obtain w sh where w: "hget (hp_workers (conn_on_hello J wm now k (Inr (norm jv)) S)) w = Some ?ws"
    "hget (hp_shares (conn_on_hello J wm now k (Inr (norm jv)) S)) b =
      Some (sh\<lparr>shr_nr_workers := shr_nr_workers sh + 1, shr_arriving := shr_arriving sh @ [w]\<rparr>)" "shr_id sh = cs_id s"
    using hello_attaches [OF assms(3-7) u refl, of now] assms(8,9) by auto
  have "w_share ?ws = b" "w_id ?ws = word_of_int (cs_next_id s)"
    by (simp_all add: worker_run_def worker_new_def worker_ops)
  moreover have "session_reachable J \<lparr>ss_srv = ?ws, ss_cli = cworker_run J ?wc, ss_up = [], ss_down = []\<rparr>"
    unfolding session_start_def [symmetric] by (rule session_reachable_start) simp
  ultimately show ?thesis using add wc jv w
    by (intro exI [of _ "M_worker_hello ?h"] exI [of _ jv] exI [of _ "cworker_run J ?wc"] exI [of _ ?ws] exI [of _ w]
        exI [of _ "sh\<lparr>shr_nr_workers := shr_nr_workers sh + 1, shr_arriving := shr_arriving sh @ [w]\<rparr>"]) simp
qed

theorem worker_joins_its_share_witness:
  "\<exists>jv w ws. marshal_msg plain_json (M_worker_hello \<lparr>wh_tcp_share_id = ''ssh'', wh_worker_id = 1\<rparr>) = Inr jv \<and>
    hget (hp_workers (conn_on_hello plain_json ''hi'' 4 3 (Inr (norm jv)) one_client_state)) w = Some ws \<and> w_id ws = 1"
proof -
  have s: "hget (cl_shares demo_client) 0 = Some demo_share" by (simp add: demo_client_def hget_def)
  have "hget (cl_workers (add_cworker plain_json 0 demo_client)) (cl_next demo_client) =
      Some (cworker_run plain_json (cworker_new 0 ''ssh'' 1))"
    using s by (simp add: add_cworker_def upd_cshare_def demo_share_def Let_def)
  moreover have "cw_trace (cworker_run plain_json (cworker_new 0 ''ssh'' 1)) =
      [a_send (M_worker_hello \<lparr>wh_tcp_share_id = ''ssh'', wh_worker_id = 1\<rparr>)]"
    by (simp add: cworker_run_def cworker_send_def cworker_new_def hello_of_def marshal_msg_plain)
  ultimately show ?thesis
    using worker_joins_its_share [OF boost_json_plain s one_client_reachable one_client_free(5), of 2 4] one_client_free
    by (fastforce simp: demo_share_def)
qed

text \<open>A server that has accepted one connection, and a client that has greeted.\<close>

definition fresh_server :: server where
  "fresh_server = handle_socket 0 (server_run server_new)"

lemma fresh_server_run: "server_steps plain_json ''hi'' [(0, sev_accept (Inr ()))] (server_run server_new) = Some fresh_server"
  by (simp add: fresh_server_def server_eval Let_def)

lemma greeted_run:
  "\<exists>C. client_steps plain_json demo_config [(0, kev_connected (Inr ())), (0, kev_hello_written (Inr ()))]
      (client_start demo_config ''u'') = Some C \<and> kc_main C = kc_greeted"
  by (simp add: client_start_def client_init_def demo_config_def client_new_def add_ctcp_share_def client_run_def
      cworker_eval client_eval)

theorem configuration_reaches_server_witness:
  "\<exists>(S' :: server) a c. map_find ''ssh'' (sv_tcp_shares S') = Some a \<and> hget (hp_shares S') a = Some (share_new c ''ssh'' 9022)"
proof -
  obtain C where C: "client_steps plain_json demo_config [(0, kev_connected (Inr ())), (0, kev_hello_written (Inr ()))]
      (client_start demo_config ''u'') = Some C" "kc_main C = kc_greeted"
    using greeted_run by blast
  obtain cn where cn: "hget (hp_conns fresh_server) 0 = Some cn"
    by (simp add: fresh_server_def server_eval Let_def)
  have "sv_ctrls fresh_server = []" "sv_tcp_shares fresh_server = []"
    by (simp_all add: fresh_server_def server_eval Let_def)
  then have free: "\<forall>c. map_find ''u'' (sv_ctrls fresh_server) = Some c \<longrightarrow> \<not> live (hp_ctrls fresh_server) c"
    "\<forall>sid a. sid \<in> fst ` set (cc_tcp_shares demo_config) \<and> map_find sid (sv_tcp_shares fresh_server) = Some a \<longrightarrow>
      \<not> live (hp_shares fresh_server) a"
    by simp_all
  have "\<exists>(S' :: server) c. \<forall>(sid, sh)\<in>set (cc_tcp_shares demo_config). \<exists>a. map_find sid (sv_tcp_shares S') = Some a \<and>
      hget (hp_shares S') a = Some (share_new c sid (sc_remote_port sh))"
    using configuration_reaches_server [OF boost_json_plain demo_config_ok C
        server_reachable_steps [OF server_reachable_start fresh_server_run] cn free, of 1 2]
    by (elim exE conjE) (rule exI, rule exI, assumption)
  then show ?thesis by (auto simp: demo_config_def)
qed

end
