(* ===== verification/Service.thy ===== *)
theory Service
  imports Control
begin

text \<open>
  How a user is served: the path of one user from the port of a share, through the queue of the
  server's share, the visit of the worker connection that waited longest, and the client's end of
  that connection.  It composes a whole server with a session; it has no code of its own.
\<close>

section \<open>What destruction leaves alone\<close>

lemma collect_share:
  assumes "hget (hp_shares S) a = Some s" "shr_fwd s \<noteq> fwd_gone"
  shows "\<exists>n. hget (hp_shares (collect S)) a = Some (s\<lparr>shr_nr_workers := n\<rparr>)"
  using assms
  by (simp add: collect_def collect_conns_def collect_ctrls_def collect_shares_def hget_keep
      hget_collect_workers_shares share_held_def) blast

lemma collect_worker:
  assumes "hget (hp_workers S) w = Some wk" "worker_held wk"
  shows "hget (hp_workers (collect S)) w = Some wk"
  using assms hget_collect_worker [of S w wk]
  by (simp add: collect_def collect_conns_def collect_ctrls_def collect_shares_def)

section \<open>A user meets the worker that waited longest\<close>

text \<open>The events of the server: the user is accepted, the closure of its wait runs, and the user's coroutine is resumed.\<close>

definition meeting :: "nat \<Rightarrow> u64 \<Rightarrow> nat \<Rightarrow> nat \<Rightarrow> tcp_endpoint \<Rightarrow> share \<Rightarrow> (nat \<times> server_event) list" where
  "meeting t epoch a n ep s = [(t, sev_user a n ep), (t, sev_share_closure a (length (shr_posted s))),
    (t, sev_share_resume a (length (shr_ready s)) (Inr ()) epoch)]"

lemma remove_last [simp]: "remove_nth (length xs) (xs @ ys) = xs @ tl ys"
  by (cases ys) (simp_all add: remove_nth_def)

lemma user_meets_worker:
  assumes a: "hget (hp_shares S) a = Some s" "shr_fwd s = fwd_running" "shr_wq s = \<lparr>wq_q = [], wq_vq = (g, w) # vs, wq_closed = False\<rparr>"
    and w: "hget (hp_workers S) w = Some wk" "w_recv wk = recv_reading"
  shows "\<exists>S' s'. server_steps J wm (meeting t epoch a n ep s) S = Some S' \<and>
    hget (hp_workers S') w = Some (worker_visit J t (Inr ()) epoch ep wk) \<and>
    hget (hp_shares S') a = Some s' \<and> wq_vq (shr_wq s') = vs"
proof -
  have held: "worker_held wk" "worker_held (worker_visit J t (Inr ()) epoch ep wk)"
    using w(2) by (auto simp: worker_held_def worker_visit_def worker_ops Let_def split: sum.split)
  let ?T1 = "upd_share a (share_post (wait_task (g_user n ep))) S"
  obtain n1 where s1: "hget (hp_shares (collect ?T1)) a =
      Some (s\<lparr>shr_posted := shr_posted s @ [wait_task (g_user n ep)], shr_nr_workers := n1\<rparr>)"
    using collect_share [of ?T1 a "share_post (wait_task (g_user n ep)) s"] a by (auto simp: upd_share_def share_post_def)
  have w1: "hget (hp_workers (collect ?T1)) w = Some wk" using collect_worker held(1) w(1) by (simp add: upd_share_def)
  let ?T2 = "upd_share a (share_run_closure (length (shr_posted s))) (collect ?T1)"
  let ?s2 = "s\<lparr>shr_wq := \<lparr>wq_q = [], wq_vq = vs, wq_closed = False\<rparr>,
    shr_ready := shr_ready s @ [wait_done (g_user n ep) w, provide_done g]\<rparr>"
  have "hget (hp_shares ?T2) a = Some (?s2\<lparr>shr_nr_workers := n1\<rparr>)"
    using s1 a(3) by (simp add: upd_share_def share_run_closure_def run_wait_def)
  then obtain n2 where s2: "hget (hp_shares (collect ?T2)) a = Some (?s2\<lparr>shr_nr_workers := n2\<rparr>)"
    using collect_share [of ?T2 a] a(2) by fastforce
  have w2: "hget (hp_workers (collect ?T2)) w = Some wk" using collect_worker held(1) w1 by (simp add: upd_share_def)
  let ?T3 = "upd_worker w (worker_visit J t (Inr ()) epoch ep)
    (upd_share a (\<lambda>s'. s'\<lparr>shr_ready := remove_nth (length (shr_ready s)) (shr_ready s')\<rparr>) (collect ?T2))"
  obtain n3 where s3: "hget (hp_shares (collect ?T3)) a =
      Some (?s2\<lparr>shr_ready := shr_ready s @ [provide_done g], shr_nr_workers := n3\<rparr>)"
    using collect_share [of ?T3 a] s2 a(2) by (fastforce simp: upd_share_def upd_worker_def)
  have w3: "hget (hp_workers (collect ?T3)) w = Some (worker_visit J t (Inr ()) epoch ep wk)"
    using collect_worker held(2) w2 by (simp add: upd_share_def upd_worker_def)
  have "server_steps J wm (meeting t epoch a n ep s) S = Some (collect ?T3)"
    using a(1,2) s1 s2 w2 by (simp add: meeting_def server_step_def upd_share_def live_def nth_append)
  then show ?thesis using s3 w3 by auto
qed

text \<open>
  The other order: a user who found no worker waits, and is given the next one that arrives.  The
  events: \<open>got_worker\<close> runs, the closure of its \<open>provide\<close>, and the user's coroutine is resumed.
\<close>

definition arrival :: "nat \<Rightarrow> u64 \<Rightarrow> nat \<Rightarrow> nat \<Rightarrow> share \<Rightarrow> (nat \<times> server_event) list" where
  "arrival t epoch a i s = [(t, sev_arrive a i), (t, sev_share_closure a (length (shr_posted s))),
    (t, sev_share_resume a (length (shr_ready s)) (Inr ()) epoch)]"

lemma waiting_user_meets_worker:
  assumes a: "hget (hp_shares S) a = Some s" "shr_fwd s = fwd_running"
      "shr_wq s = \<lparr>wq_q = g_user n ep # us, wq_vq = [], wq_closed = False\<rparr>" "i < length (shr_arriving s)" "shr_arriving s ! i = w"
    and w: "hget (hp_workers S) w = Some wk" "w_recv wk = recv_reading"
  shows "\<exists>S' s'. server_steps J wm (arrival t epoch a i s) S = Some S' \<and>
    hget (hp_workers S') w = Some (worker_visit J t (Inr ()) epoch ep wk) \<and>
    hget (hp_shares S') a = Some s' \<and> wq_q (shr_wq s') = us"
proof -
  have held: "worker_held wk" "worker_held (worker_visit J t (Inr ()) epoch ep wk)"
    using w(2) by (auto simp: worker_held_def worker_visit_def worker_ops Let_def split: sum.split)
  let ?T1 = "got_worker a w (upd_share a (\<lambda>s. s\<lparr>shr_arriving := remove_nth i (shr_arriving s)\<rparr>) S)"
  let ?ws = "map_emplace (sint (w_id wk)) w (map_erase_if (\<lambda>w. \<not> live (hp_workers S) w) (shr_workers s))"
  let ?s1 = "s\<lparr>shr_arriving := remove_nth i (shr_arriving s), shr_workers := ?ws,
    shr_posted := shr_posted s @ [provide_task (g_offer w) w]\<rparr>"
  have "hget (hp_shares ?T1) a = Some ?s1" "hp_workers ?T1 = hp_workers S"
    using a(1) w(1) by (simp_all add: got_worker_def cleanup_workers_def upd_share_def share_post_def Let_def)
  then obtain n1 where s1: "hget (hp_shares (collect ?T1)) a = Some (?s1\<lparr>shr_nr_workers := n1\<rparr>)"
      "hget (hp_workers (collect ?T1)) w = Some wk"
    using collect_share [of ?T1 a ?s1] collect_worker [of ?T1 w wk] a(2) held(1) w(1) by auto
  let ?T2 = "upd_share a (share_run_closure (length (shr_posted s))) (collect ?T1)"
  let ?s2 = "?s1\<lparr>shr_wq := \<lparr>wq_q = us, wq_vq = [], wq_closed = False\<rparr>, shr_posted := shr_posted s,
    shr_ready := shr_ready s @ [wait_done (g_user n ep) w, provide_done (g_offer w)]\<rparr>"
  have "hget (hp_shares ?T2) a = Some (?s2\<lparr>shr_nr_workers := n1\<rparr>)" "hp_workers ?T2 = hp_workers (collect ?T1)"
    using s1 a(3) by (simp_all add: upd_share_def share_run_closure_def run_provide_def)
  then obtain n2 where s2: "hget (hp_shares (collect ?T2)) a = Some (?s2\<lparr>shr_nr_workers := n2\<rparr>)"
      "hget (hp_workers (collect ?T2)) w = Some wk"
    using collect_share [of ?T2 a "?s2\<lparr>shr_nr_workers := n1\<rparr>"] collect_worker [of ?T2 w wk] a(2) held(1) s1(2) by auto
  let ?T3 = "upd_worker w (worker_visit J t (Inr ()) epoch ep)
    (upd_share a (\<lambda>s'. s'\<lparr>shr_ready := remove_nth (length (shr_ready s)) (shr_ready s')\<rparr>) (collect ?T2))"
  let ?s3 = "?s2\<lparr>shr_ready := shr_ready s @ [provide_done (g_offer w)], shr_nr_workers := n2\<rparr>"
  have "hget (hp_shares ?T3) a = Some ?s3" "hget (hp_workers ?T3) w = Some (worker_visit J t (Inr ()) epoch ep wk)"
    using s2 by (simp_all add: upd_share_def upd_worker_def)
  then obtain n3 where s3: "hget (hp_shares (collect ?T3)) a = Some (?s3\<lparr>shr_nr_workers := n3\<rparr>)"
      "hget (hp_workers (collect ?T3)) w = Some (worker_visit J t (Inr ()) epoch ep wk)"
    using collect_share [of ?T3 a ?s3] collect_worker [of ?T3 w] a(2) held(2) by auto
  have "server_step J wm t (sev_arrive a i) S = Some (collect ?T1)" using a(1,4,5) by (simp add: server_step_def)
  moreover have "server_step J wm t (sev_share_closure a (length (shr_posted s))) (collect ?T1) = Some (collect ?T2)"
    using s1(1) by (simp add: server_step_def)
  moreover have "server_step J wm t (sev_share_resume a (length (shr_ready s)) (Inr ()) epoch) (collect ?T2) = Some (collect ?T3)"
    using s2 by (simp add: server_step_def nth_append live_def upd_share_def)
  ultimately have "server_steps J wm (arrival t epoch a i s) S = Some (collect ?T3)" by (simp add: arrival_def)
  then show ?thesis using s3 by auto
qed

section \<open>A session inside the two programs\<close>

text \<open>What the events of a session are for the server, whose worker is \<open>w\<close>, and for the client, whose worker is \<open>v\<close>.\<close>

fun server_part :: "nat \<Rightarrow> (nat \<times> session_event) list \<Rightarrow> (nat \<times> server_event) list" where
  "server_part w [] = []"
| "server_part w ((t, sse_server e) # evs) = (t, sev_worker w e) # server_part w evs"
| "server_part w ((t, sse_client e) # evs) = server_part w evs"

fun client_part :: "nat \<Rightarrow> (nat \<times> session_event) list \<Rightarrow> (nat \<times> client_event) list" where
  "client_part v [] = []"
| "client_part v ((t, sse_client e) # evs) = (t, kev_worker v e) # client_part v evs"
| "client_part v ((t, sse_server e) # evs) = client_part v evs"

text \<open>Events that leave the deadline of the server's worker alone, and the pings of the client's.\<close>

fun srv_quiet :: "nat \<times> session_event \<Rightarrow> bool" where
  "srv_quiet (t, sse_server e) \<longleftrightarrow> own_event e \<and> (\<forall>r. e \<noteq> ev_timer r)"
| "srv_quiet (t, sse_client e) \<longleftrightarrow> True"

fun cli_quiet :: "nat \<times> session_event \<Rightarrow> bool" where
  "cli_quiet (t, sse_server e) \<longleftrightarrow> True"
| "cli_quiet (t, sse_client e) \<longleftrightarrow> (\<exists>r c. e = cwe_read r c)"

lemma server_part_append [simp]: "server_part w (as @ bs) = server_part w as @ server_part w bs"
  by (induction as rule: server_part.induct) auto

lemma client_part_append [simp]: "client_part v (as @ bs) = client_part v as @ client_part v bs"
  by (induction as rule: client_part.induct) auto

lemma client_part_server [simp]: "client_part v (map (\<lambda>e. (t, sse_server (f e))) es) = []"
  by (induction es) auto

lemma ddl_stays:
  assumes "worker_step J t e wk = Some wk'" "\<forall>r. e \<noteq> ev_timer r"
  shows "w_ddl_pc wk' = w_ddl_pc wk"
proof (cases e)
  case (ev_resume i)
  then show ?thesis using assms by (cases "w_ready wk ! i") (auto simp: worker_ops worker_handle_error_def worker_try_stop_def split: if_splits)
qed (use assms in \<open>auto simp: worker_ops worker_on_read_def worker_on_write_def worker_on_visit_read_def worker_visit_def
      worker_handle_error_def worker_try_stop_def worker_run_closure_def Let_def split: if_splits sum.splits send_pc.splits prod.splits\<close>)

lemma server_follows_session:
  assumes "session_steps J evs s = Some s'" "list_all srv_quiet evs"
    and "hget (hp_workers S) w = Some (ss_srv s)" "w_ddl_pc (ss_srv s) \<noteq> ddl_done"
  shows "\<exists>S'. server_steps J wm (server_part w evs) S = Some S' \<and> hget (hp_workers S') w = Some (ss_srv s')"
  using assms
proof (induction evs arbitrary: s S)
  case (Cons p evs)
  obtain t e where p: "p = (t, e)" by fastforce
  obtain s1 where s1: "session_step J t e s = Some s1" "session_steps J evs s1 = Some s'"
    using Cons.prems(1) by (auto simp: p split: option.splits)
  show ?case
  proof (cases e)
    case (sse_client ce)
    then have "ss_srv s1 = ss_srv s" using s1(1) by (auto split: option.splits)
    then show ?thesis using Cons.IH [OF s1(2)] Cons.prems(2-4) by (simp add: p sse_client)
  next
    case (sse_server ev)
    then have st: "worker_step J t ev (ss_srv s) = Some (ss_srv s1)" using s1(1) by (auto split: option.splits)
    have q: "own_event ev" "\<forall>r. ev \<noteq> ev_timer r" using Cons.prems(2) by (simp_all add: p sse_server)
    have ddl: "w_ddl_pc (ss_srv s1) \<noteq> ddl_done" using ddl_stays [OF st q(2)] Cons.prems(4) by simp
    let ?T = "upd_worker w (\<lambda>_. ss_srv s1) S"
    have "server_step J wm t (sev_worker w ev) S = Some (collect ?T)"
      using Cons.prems(3) st q(1) by (simp add: server_step_def)
    moreover have "hget (hp_workers (collect ?T)) w = Some (ss_srv s1)"
      using Cons.prems(3) ddl by (intro collect_worker) (simp_all add: upd_worker_def worker_held_def)
    ultimately show ?thesis using Cons.IH [OF s1(2) _ _ ddl] Cons.prems(2) by (simp add: p sse_server)
  qed
qed simp

lemma ping_stays: "cworker_step J t (cwe_read r c) wc = Some wc' \<Longrightarrow> cw_ping_pc wc' = cw_ping_pc wc \<and> cw_share wc' = cw_share wc"
  by (auto simp: cworker_ops cworker_on_read_def cworker_on_visit_def cworker_send_def Let_def
      split: if_splits sum.splits message.splits)

lemma client_follows_session:
  assumes "session_steps J evs s = Some s'" "list_all cli_quiet evs"
    and "hget (cl_workers C) v = Some (ss_cli s)" "cw_ping_pc (ss_cli s) \<noteq> pg_done"
    and "hget (cl_shares C) (cw_share (ss_cli s)) = Some sc"
  shows "\<exists>C' n. client_steps J cfg (client_part v evs) C = Some C' \<and> hget (cl_workers C') v = Some (ss_cli s') \<and>
    cw_share (ss_cli s') = cw_share (ss_cli s) \<and> hget (cl_shares C') (cw_share (ss_cli s)) = Some (sc\<lparr>cs_nr := n\<rparr>)"
  using assms
proof (induction evs arbitrary: s C sc)
  case Nil
  then show ?case by (intro exI [of _ C] exI [of _ "cs_nr sc"]) simp
next
  case (Cons p evs)
  obtain t e where p: "p = (t, e)" by fastforce
  obtain s1 where s1: "session_step J t e s = Some s1" "session_steps J evs s1 = Some s'"
    using Cons.prems(1) by (auto simp: p split: option.splits)
  show ?case
  proof (cases e)
    case (sse_server ev)
    then have "ss_cli s1 = ss_cli s" using s1(1) by (auto split: option.splits)
    then show ?thesis using Cons.IH [OF s1(2), of C sc] Cons.prems(2-5) by (simp add: p sse_server)
  next
    case (sse_client ce)
    then have st: "cworker_step J t ce (ss_cli s) = Some (ss_cli s1)" using s1(1) by (auto split: option.splits)
    obtain r c where q: "ce = cwe_read r c" using Cons.prems(2) by (auto simp: p sse_client)
    note same = ping_stays [OF st [unfolded q]]
    let ?T = "upd_cworker v (\<lambda>_. ss_cli s1) C" and ?a = "cw_share (ss_cli s)"
    have step: "client_step J cfg t (kev_worker v ce) C = Some (ccollect ?T)"
      using Cons.prems(3) st by (simp add: client_step_def own_cevent_def cworker_act_step_def q)
    obtain n where n: "hget (cl_workers (ccollect ?T)) v = Some (ss_cli s1)" "hget (cl_shares (ccollect ?T)) ?a = Some (sc\<lparr>cs_nr := n\<rparr>)"
      using collect_at [of ?T ?a sc v "ss_cli s1"] Cons.prems(3-5) same by (auto simp: upd_cworker_def cworker_held_def)
    then show ?thesis
      using Cons.IH [OF s1(2) _ n(1), of "sc\<lparr>cs_nr := n\<rparr>"] Cons.prems(2,4) same step by (simp add: p sse_client)
  qed
qed

lemma server_alone_client:
  "session_steps J (map (\<lambda>e. (t, sse_server (f e))) es) s = Some s' \<Longrightarrow> ss_cli s' = ss_cli s"
  by (induction es arbitrary: s) (auto split: option.splits)

text \<open>The client's share takes the connection: the worker has sent its confirmation, and the forwarder waits.\<close>

lemma client_takes_connection:
  assumes w: "hget (cl_workers C) v = Some wc" "cw_main wc = cm_confirming" "cw_sock wc = sock_open"
    and s: "hget (cl_shares C) (cw_share wc) = Some sc" "cs_wq sc = \<lparr>wq_q = [g_forward], wq_vq = [], wq_closed = False\<rparr>"
      "cs_fwd sc = Some f"
  shows "\<exists>C' sc'. client_steps J cfg [(t, kev_worker v (cwe_confirmed (Inr ()))),
      (t, kev_closure (cw_share wc) (length (cs_posted sc))), (t, kev_resume (cw_share wc) (length (cs_ready sc)))] C = Some C' \<and>
    hget (cl_shares C') (cw_share wc) = Some sc' \<and> cs_fwd sc' = Some (f\<lparr>fw_waiting := fw_waiting f @ [v]\<rparr>)"
proof -
  let ?a = "cw_share wc" and ?wc = "cworker_on_confirmed (Inr ()) wc" and ?t = "provide_task (g_conn v) (v, True)"
  have wc: "cworker_held ?wc" "cw_share ?wc = ?a" by (simp_all add: cworker_on_confirmed_def cworker_held_def)
  let ?T1 = "upd_cshare ?a (cshare_post ?t) (upd_cworker v (\<lambda>_. ?wc) C)"
  have step1: "client_step J cfg t (kev_worker v (cwe_confirmed (Inr ()))) C = Some (ccollect ?T1)"
    using w by (simp add: client_step_def own_cevent_def cworker_act_step_def cmay_end_def Let_def)
  obtain n1 where S1: "hget (cl_workers (ccollect ?T1)) v = Some ?wc"
    "hget (cl_shares (ccollect ?T1)) ?a = Some (sc\<lparr>cs_posted := cs_posted sc @ [?t], cs_nr := n1\<rparr>)"
    using collect_at [of ?T1 ?a "cshare_post ?t sc" v ?wc] w(1) s(1) wc by (auto simp: cshare_post_def)
  let ?s2 = "sc\<lparr>cs_wq := \<lparr>wq_q = [], wq_vq = [], wq_closed = False\<rparr>,
    cs_ready := cs_ready sc @ [wait_done g_forward (v, True), provide_done (g_conn v)]\<rparr>"
  let ?T2 = "upd_cshare ?a (cshare_run_closure (length (cs_posted sc))) (ccollect ?T1)"
  have run: "cshare_run_closure (length (cs_posted sc)) (sc\<lparr>cs_posted := cs_posted sc @ [?t], cs_nr := n1\<rparr>) = ?s2\<lparr>cs_nr := n1\<rparr>"
    using s(2) by (simp add: cshare_run_closure_def run_provide_def)
  obtain n2 where S2: "hget (cl_workers (ccollect ?T2)) v = Some ?wc" "hget (cl_shares (ccollect ?T2)) ?a = Some (?s2\<lparr>cs_nr := n2\<rparr>)"
    using collect_at [of ?T2 ?a "?s2\<lparr>cs_nr := n1\<rparr>" v ?wc] S1 wc run by auto
  let ?s3 = "cforward (Inl v) (chk_need_workers cfg (?s2\<lparr>cs_nr := n2, cs_ready := cs_ready sc @ [provide_done (g_conn v)]\<rparr>))"
  let ?T3 = "upd_cshare ?a (\<lambda>s. cforward (Inl v) (chk_need_workers cfg s))
    (upd_cshare ?a (\<lambda>s. s\<lparr>cs_ready := remove_nth (length (cs_ready sc)) (cs_ready s)\<rparr>) (ccollect ?T2))"
  obtain n3 where S3: "hget (cl_shares (ccollect ?T3)) ?a = Some (?s3\<lparr>cs_nr := n3\<rparr>)"
    using collect_at [of ?T3 ?a ?s3 v ?wc] S2 wc by auto
  have step2: "client_step J cfg t (kev_closure ?a (length (cs_posted sc))) (ccollect ?T1) = Some (ccollect ?T2)"
    using S1(2) by (simp add: client_step_def)
  have step3: "client_step J cfg t (kev_resume ?a (length (cs_ready sc))) (ccollect ?T2) = Some (ccollect ?T3)"
    using S2(2) by (simp add: client_step_def nth_append)
  have "client_steps J cfg [(t, kev_worker v (cwe_confirmed (Inr ()))), (t, kev_closure ?a (length (cs_posted sc))),
      (t, kev_resume ?a (length (cs_ready sc)))] C = Some (ccollect ?T3)"
    by (simp only: client_steps.simps step1 step2 step3 option.case)
  moreover have "cs_fwd ?s3 = Some (f\<lparr>fw_waiting := fw_waiting f @ [v]\<rparr>)"
    using s(3) by (simp add: cforward_def chk_need_workers_def forward_accepted_def cshare_post_def Let_def)
  ultimately show ?thesis using S3 by auto
qed

lemma client_follows_visit:
  assumes run: "session_steps J (A @ (t, sse_client (cwe_confirmed (Inr ()))) # map (\<lambda>x. (t, sse_server (h x))) es) s = Some s'"
    and A: "list_all cli_quiet A" and given: "last (cw_trace (ss_cli s')) = a_provide True"
    and C: "hget (cl_workers C) v = Some (ss_cli s)" "hget (cl_shares C) b = Some sc" "b = cw_share (ss_cli s) \<and> cw_ping_pc (ss_cli s) \<noteq> pg_done"
    and sc: "cs_wq sc = \<lparr>wq_q = [g_forward], wq_vq = [], wq_closed = False\<rparr>" "cs_fwd sc = Some f"
  shows "\<exists>C' sc'. client_steps J cfg (client_part v (A @ (t, sse_client (cwe_confirmed (Inr ()))) # map (\<lambda>x. (t, sse_server (h x))) es) @
      [(t, kev_closure b (length (cs_posted sc))), (t, kev_resume b (length (cs_ready sc)))]) C = Some C' \<and>
    hget (cl_shares C') b = Some sc' \<and> cs_fwd sc' = Some (f\<lparr>fw_waiting := fw_waiting f @ [v]\<rparr>)"
proof -
  let ?conf = "(t, sse_client (cwe_confirmed (Inr ())))" and ?B = "map (\<lambda>x. (t, sse_server (h x))) es"
  obtain sA where sA: "session_steps J A s = Some sA" "session_steps J (?conf # ?B) sA = Some s'"
    using run by (auto simp only: session_steps_append bind_eq_Some_conv)
  obtain C1 nr where C1: "client_steps J cfg (client_part v A) C = Some C1" "hget (cl_workers C1) v = Some (ss_cli sA)"
    "cw_share (ss_cli sA) = b" "hget (cl_shares C1) b = Some (sc\<lparr>cs_nr := nr\<rparr>)"
    using client_follows_session [OF sA(1) A, of C v sc cfg] C by metis
  obtain sB where sB: "session_step J t (sse_client (cwe_confirmed (Inr ()))) sA = Some sB" "session_steps J ?B sB = Some s'"
    using sA(2) by (auto simp del: session_step.simps split: option.splits)
  have conf: "cw_main (ss_cli sA) = cm_confirming" "ss_cli sB = cworker_on_confirmed (Inr ()) (ss_cli sA)"
    using sB(1) by (auto split: option.splits if_splits)
  have "ss_cli s' = ss_cli sB" by (rule server_alone_client [OF sB(2)])
  then have "cw_sock (ss_cli sA) = sock_open" using given conf(2) by (simp add: cworker_on_confirmed_def)
  then obtain C' sc' where C': "client_steps J cfg [(t, kev_worker v (cwe_confirmed (Inr ()))),
      (t, kev_closure b (length (cs_posted sc))), (t, kev_resume b (length (cs_ready sc)))] C1 = Some C'"
    "hget (cl_shares C') b = Some sc'" "cs_fwd sc' = Some (f\<lparr>fw_waiting := fw_waiting f @ [v]\<rparr>)"
    using client_takes_connection [OF C1(2) conf(1), of "sc\<lparr>cs_nr := nr\<rparr>" f J cfg t] C1(3,4) sc by auto
  have "client_part v (A @ ?conf # ?B) = client_part v A @ [(t, kev_worker v (cwe_confirmed (Inr ())))]"
    by (simp only: client_part_append client_part.simps client_part_server)
  then have "client_steps J cfg (client_part v (A @ ?conf # ?B) @ [(t, kev_closure b (length (cs_posted sc))),
      (t, kev_resume b (length (cs_ready sc)))]) C = Some C'"
    using C'(1) by (simp only: append_assoc append.simps client_steps_append C1(1) bind.bind_lunit)
  with C'(2,3) show ?thesis by blast
qed

section \<open>Properties\<close>

lemma visit_run_split:
  "visit_run t epoch ep up down v c = (t, sse_server (ev_visit (Inr ()) epoch ep)) #
    (map (\<lambda>e. (t, sse_server e)) [ev_read (Inl (system_error operation_aborted)), ev_closure 0, ev_resume 0, ev_resume 0,
      ev_write (Inr ())] @ map (\<lambda>x. (t, sse_client (cwe_read (Inr x) (Inr ())))) (down @ [v])) @
    (t, sse_client (cwe_confirmed (Inr ()))) # map (\<lambda>x. (t, sse_server (ev_visit_read (Inr x)))) (up @ [c])"
  by (simp add: visit_run_def)

text \<open>
  Property C2 (functional): a user is served.  When a user connects to the port of a share, the server's
  queue matches it with the worker connection that waited longest; whatever pings and pongs are on
  their way on that connection, the visit can be carried through it, until the server
  hands the connection to the user, no frame is left on it, and the forwarder of the client's share has
  taken the other end as its next user.  One run of the session is a run of the
  server and a run of the client.
\<close>

theorem user_is_served:
  assumes "boost_json J" "session_reachable J s" "worker_idle (ss_srv s)" "w_ddl_pc (ss_srv s) \<noteq> ddl_done"
    and "cw_main (ss_cli s) = cm_reading" "cw_sock (ss_cli s) = sock_open" "cw_ping_pc (ss_cli s) \<noteq> pg_done"
    and "hget (hp_workers S) w = Some (ss_srv s)" "hget (hp_shares S) a = Some sh" "shr_fwd sh = fwd_running"
      "shr_wq sh = \<lparr>wq_q = [], wq_vq = (g, w) # vs, wq_closed = False\<rparr>"
    and "hget (cl_workers C) v = Some (ss_cli s)" "hget (cl_shares C) b = Some sc" "b = cw_share (ss_cli s)"
      "cs_wq sc = \<lparr>wq_q = [g_forward], wq_vq = [], wq_closed = False\<rparr>" "cs_fwd sc = Some f"
  shows "\<exists>evs s' S' C' sc'.
    session_steps J ((t, sse_server (ev_visit (Inr ()) epoch ep)) # evs) s = Some s' \<and>
    a_recv (M_visit_tcp_share \<lparr>vt_epoch = epoch, vt_peer = ep\<rparr>) \<in> set (cw_trace (ss_cli s')) \<and> ss_up s' = [] \<and> ss_down s' = [] \<and>
    server_steps J wm (meeting t epoch a n ep sh @ server_part w evs) S = Some S' \<and>
    hget (hp_workers S') w = Some (ss_srv s') \<and> w_visit (ss_srv s') = visit_returned \<and>
    client_steps J cfg (client_part v evs @ [(t, kev_closure b (length (cs_posted sc))), (t, kev_resume b (length (cs_ready sc)))]) C =
      Some C' \<and>
    hget (cl_shares C') b = Some sc' \<and> cs_fwd sc' = Some (f\<lparr>fw_waiting := fw_waiting f @ [v]\<rparr>)"
proof -
  obtain vj j s' where run: "session_steps J (visit_run t epoch ep (ss_up s) (ss_down s) (norm vj) (norm j)) s = Some s'"
    and s': "w_visit (ss_srv s') = visit_returned"
      "cw_trace (ss_cli s') = cw_trace (ss_cli s) @ replicate (length (ss_down s)) (a_recv M_pong) @
        [a_recv (M_visit_tcp_share \<lparr>vt_epoch = epoch, vt_peer = ep\<rparr>), a_send M_visit_confirmed, a_provide True]"
      "ss_up s' = []" "ss_down s' = []"
    using visit_carried_through [OF assms(1-3,5,6), of epoch ep t] by blast
  let ?A = "map (\<lambda>e. (t, sse_server e)) [ev_read (Inl (system_error operation_aborted)), ev_closure 0, ev_resume 0, ev_resume 0,
      ev_write (Inr ())] @ map (\<lambda>x. (t, sse_client (cwe_read (Inr x) (Inr ())))) (ss_down s @ [norm vj])"
  let ?B = "map (\<lambda>x. (t, sse_server (ev_visit_read (Inr x)))) (ss_up s @ [norm j])"
  let ?conf = "(t, sse_client (cwe_confirmed (Inr ())))" and ?ev = "sse_server (ev_visit (Inr ()) epoch ep)"
  let ?evs = "?A @ ?conf # ?B"
  have whole: "session_steps J ((t, ?ev) # ?evs) s = Some s'" using run unfolding visit_run_split by simp
  obtain s0 where s0: "session_step J t ?ev s = Some s0" "session_steps J ?evs s0 = Some s'"
    using whole by (auto simp del: session_step.simps split: option.splits)
  have srv0: "ss_srv s0 = worker_visit J t (Inr ()) epoch ep (ss_srv s)" "ss_cli s0 = ss_cli s"
    using s0(1) by (auto split: option.splits if_splits)
  obtain S1 sh' where S1: "server_steps J wm (meeting t epoch a n ep sh) S = Some S1" "hget (hp_workers S1) w = Some (ss_srv s0)"
    using user_meets_worker [OF assms(9-11,8), of J wm t epoch n ep] assms(3) unfolding srv0 worker_idle_def by blast
  have "w_ddl_pc (ss_srv s0) \<noteq> ddl_done"
    using assms(4) by (simp add: srv0 worker_visit_def worker_ops Let_def split: sum.split)
  moreover have "list_all srv_quiet ?evs" by (auto simp: own_event_def list_all_iff)
  ultimately obtain S' where S': "server_steps J wm (server_part w ?evs) S1 = Some S'" "hget (hp_workers S') w = Some (ss_srv s')"
    using server_follows_session [OF s0(2) _ S1(2)] by blast
  have qA: "list_all cli_quiet ?A" by (auto simp: list_all_iff)
  have given: "last (cw_trace (ss_cli s')) = a_provide True" using s'(2) by simp
  have C: "hget (cl_workers C) v = Some (ss_cli s0)" "hget (cl_shares C) b = Some sc"
    "b = cw_share (ss_cli s0) \<and> cw_ping_pc (ss_cli s0) \<noteq> pg_done"
    using assms(7,12-14) srv0(2) by simp_all
  obtain C' sc' where C': "client_steps J cfg (client_part v ?evs @ [(t, kev_closure b (length (cs_posted sc))),
      (t, kev_resume b (length (cs_ready sc)))]) C = Some C'"
    "hget (cl_shares C') b = Some sc'" "cs_fwd sc' = Some (f\<lparr>fw_waiting := fw_waiting f @ [v]\<rparr>)"
    using client_follows_visit [OF s0(2) qA given C assms(15,16)] by blast
  have "server_steps J wm (meeting t epoch a n ep sh @ server_part w ?evs) S = Some S'"
    using S1(1) S'(1) by (simp only: server_steps_append bind.bind_lunit)
  then show ?thesis using whole s' S'(2) C' by (intro exI [of _ ?evs] exI conjI) auto
qed

text \<open>A server and a client that are connected by one worker connection, and a user who comes.\<close>

definition waiting_worker :: worker where
  "waiting_worker = worker_run_closure 0 (worker_run 4 (worker_new sock_open 0 2))"

lemma waiting_worker_eq:
  "waiting_worker = \<lparr>w_sock = sock_open, w_visited = False, w_visited_confirmed = False, w_id = 0,
     w_to_send = \<lparr>wq_q = [c_send], wq_vq = [], wq_closed = False\<rparr>, w_share = 2, w_stopping = False,
     w_ddl = Some 64, w_ddl_action = ''recv_msgs()'', w_ddl_cancelled = False, w_recv = recv_reading, w_send = send_waiting, w_ddl_pc = ddl_waiting,
     w_visit = visit_none, w_posted = [], w_ready = [], w_cancelled = {}, w_sent = []\<rparr>"
  by (simp add: waiting_worker_def worker_run_closure_def worker_run_def worker_new_def worker_ops wq_new_def run_wait_def)

definition worker_comes :: "(nat \<times> server_event) list" where
  "worker_comes = [(4, sev_hello 3 (Inr (msg_json (M_worker_hello \<lparr>wh_tcp_share_id = ''ssh'', wh_worker_id = 0\<rparr>)))),
    (4, sev_worker 4 (ev_closure 0)), (4, sev_arrive 2 0), (4, sev_share_closure 2 0)]"

lemma worker_waits:
  "\<exists>S sh. server_steps plain_json ''hi'' worker_comes one_client_state = Some S \<and> hget (hp_workers S) 4 = Some waiting_worker \<and>
    hget (hp_shares S) 2 = Some sh \<and> shr_fwd sh = fwd_running \<and> shr_wq sh = \<lparr>wq_q = [], wq_vq = [(g_offer 4, 4)], wq_closed = False\<rparr>"
  by (simp add: worker_comes_def one_client_state_def server_eval got_worker_def cleanup_workers_def waiting_worker_eq
      worker_run_closure_def worker_run_def worker_new_def worker_ops run_wait_def run_provide_def own_event_def Let_def
      share_run_closure_def)

lemma connected_session:
  "session_reachable plain_json \<lparr>ss_srv = waiting_worker, ss_cli = demo_worker, ss_up = [], ss_down = []\<rparr>"
proof -
  have "session_steps plain_json [(4, sse_server (ev_closure 0)), (0, sse_client (cwe_hello_written (Inr ())))]
      (session_start plain_json 4 (worker_new sock_open 0 2) (cworker_new 0 ''ssh'' 0)) =
      Some \<lparr>ss_srv = waiting_worker, ss_cli = demo_worker, ss_up = [], ss_down = []\<rparr>"
    by (simp add: session_start_def cworker_run_def cworker_new_def cworker_eval client_sent_def demo_worker_def hello_of_def
        waiting_worker_eq worker_run_closure_def worker_run_def worker_new_def worker_ops wq_new_def run_wait_def server_sent_def)
  then show ?thesis by (rule session_reachable_steps [rotated]) (rule session_reachable_start, simp)
qed

theorem user_is_served_witness:
  "\<exists>evs S S' (C' :: client) sc'. server_steps plain_json ''hi'' worker_comes one_client_state = Some S \<and>
    server_steps plain_json ''hi'' evs S = Some S' \<and> hget (cl_shares C') 0 = Some sc' \<and>
    (\<exists>f. cs_fwd sc' = Some f \<and> fw_waiting f = [1]) \<and> (\<exists>ws. hget (hp_workers S') 4 = Some ws \<and> w_visit ws = visit_returned)"
proof -
  let ?s = "\<lparr>ss_srv = waiting_worker, ss_cli = demo_worker, ss_up = [], ss_down = []\<rparr>"
  obtain S sh where S: "server_steps plain_json ''hi'' worker_comes one_client_state = Some S"
    "hget (hp_workers S) 4 = Some (ss_srv ?s)" "hget (hp_shares S) 2 = Some sh" "shr_fwd sh = fwd_running"
    "shr_wq sh = \<lparr>wq_q = [], wq_vq = [(g_offer 4, 4)], wq_closed = False\<rparr>"
    using worker_waits by auto
  have i: "worker_idle (ss_srv ?s)" "w_ddl_pc (ss_srv ?s) \<noteq> ddl_done" "cw_main (ss_cli ?s) = cm_reading"
    "cw_sock (ss_cli ?s) = sock_open" "cw_ping_pc (ss_cli ?s) \<noteq> pg_done" "hget (cl_workers demo_client) 1 = Some (ss_cli ?s)"
    "hget (cl_shares demo_client) 0 = Some demo_share" "0 = cw_share (ss_cli ?s)"
    "cs_wq demo_share = \<lparr>wq_q = [g_forward], wq_vq = [], wq_closed = False\<rparr>" "cs_fwd demo_share = Some (forwarder_run forwarder_new)"
    by (simp_all add: waiting_worker_eq worker_idle_def demo_worker_def demo_client_def demo_share_def hget_def)
  obtain evs S' and s' :: session and C' :: client and sc' where r:
    "server_steps plain_json ''hi'' (meeting 5 9 2 0 \<lparr>ep_ip = ''::1'', ep_port = 9\<rparr> sh @ server_part 4 evs) S = Some S'"
    "hget (hp_workers S') 4 = Some (ss_srv s')" "w_visit (ss_srv s') = visit_returned"
    "hget (cl_shares C') 0 = Some sc'" and f:
    "cs_fwd sc' = Some (forwarder_run forwarder_new\<lparr>fw_waiting := fw_waiting (forwarder_run forwarder_new) @ [1]\<rparr>)"
    using user_is_served [OF boost_json_plain connected_session i(1-5) S(2-5) i(6-10), where t = 5 and epoch = 9 and
        ep = "\<lparr>ep_ip = ''::1'', ep_port = 9\<rparr>" and wm = "''hi''" and n = 0 and cfg = demo_config]
    by blast
  have "fw_waiting (forwarder_run forwarder_new\<lparr>fw_waiting := fw_waiting (forwarder_run forwarder_new) @ [1]\<rparr>) = [1]"
    by (simp add: forwarder_run_def forwarder_new_def)
  then show ?thesis using S(1) r f by blast
qed

end
