(* ===== verification/Tunnel.thy ===== *)
theory Tunnel
  imports Pipe
begin

text \<open>
  A tunnel: the two pipes that carry one user.  The server's pipe joins the user with a worker
  connection, the client's pipe joins the other end of that connection with the local service
  (\<open>forwarder::handle_socket\<close> of both programs makes the accepted socket the left one).  Of the
  connection between them a tunnel knows the bytes on their way in each direction: a read takes
  bytes from the front, and an end of file comes when there are no more and the writer has
  ended.  Any other error can happen at any time, and what is on its way then is lost.
  This composition has no code of its own.
\<close>

section \<open>State and steps\<close>

record tunnel =
  tn_srv :: pipe
  tn_cli :: pipe
  tn_up :: "byte list"
  tn_down :: "byte list"

definition tunnel_start :: "int \<Rightarrow> int \<Rightarrow> tunnel" where
  "tunnel_start i j = \<lparr>tn_srv = pipe_run (pipe_new i), tn_cli = pipe_run (pipe_new j), tn_up = [], tn_down = []\<rparr>"

datatype tunnel_event = te_server pipe_event | te_client pipe_event

text \<open>\<open>fin\<close> says that the writer has shut down or closed its socket.\<close>

fun wire_takes :: "bool \<Rightarrow> byte list res \<Rightarrow> byte list \<Rightarrow> byte list option" where
  "wire_takes fin (Inr bs) wire =
     (if take (length bs) wire = bs then Some (drop (length bs) wire) else None)"
| "wire_takes fin (Inl e) wire =
     (if e = system_error end_of_file \<longrightarrow> wire = [] \<and> fin then Some wire else None)"

fun server_reads :: "pipe_event \<Rightarrow> tunnel \<Rightarrow> byte list option" where
  "server_reads (pev_read back_way r) t =
     wire_takes (hf_shutdown (pp_back (tn_cli t)) \<or> \<not> pp_lhs_open (tn_cli t)) r (tn_down t)"
| "server_reads _ t = Some (tn_down t)"

fun client_reads :: "pipe_event \<Rightarrow> tunnel \<Rightarrow> byte list option" where
  "client_reads (pev_read forth r) t =
     wire_takes (hf_shutdown (pp_forth (tn_srv t)) \<or> \<not> pp_rhs_open (tn_srv t)) r (tn_up t)"
| "client_reads _ t = Some (tn_up t)"

text \<open>What a half has written beyond what it had written before.\<close>

definition newly :: "half \<Rightarrow> half \<Rightarrow> byte list" where
  "newly h h' = drop (length (hf_written h)) (hf_written h')"

fun tunnel_step :: "tunnel_event \<Rightarrow> tunnel \<Rightarrow> tunnel option" where
  "tunnel_step (te_server ev) t =
     (case (server_reads ev t, pipe_step ev (tn_srv t)) of
       (Some down, Some p) \<Rightarrow> Some (t\<lparr>tn_srv := p, tn_down := down,
         tn_up := tn_up t @ newly (pp_forth (tn_srv t)) (pp_forth p)\<rparr>)
     | _ \<Rightarrow> None)"
| "tunnel_step (te_client ev) t =
     (case (client_reads ev t, pipe_step ev (tn_cli t)) of
       (Some up, Some p) \<Rightarrow> Some (t\<lparr>tn_cli := p, tn_up := up,
         tn_down := tn_down t @ newly (pp_back (tn_cli t)) (pp_back p)\<rparr>)
     | _ \<Rightarrow> None)"

fun tunnel_steps :: "tunnel_event list \<Rightarrow> tunnel \<Rightarrow> tunnel option" where
  "tunnel_steps [] t = Some t"
| "tunnel_steps (ev # evs) t = (case tunnel_step ev t of None \<Rightarrow> None | Some t' \<Rightarrow> tunnel_steps evs t')"

lemma tunnel_steps_append:
  "tunnel_steps (as @ bs) t = Option.bind (tunnel_steps as t) (tunnel_steps bs)"
  by (induction as arbitrary: t) (auto simp del: tunnel_step.simps split: option.splits)

section \<open>What a step of a pipe does to one direction\<close>

text \<open>
  A step of a pipe extends what a half has written by a part of what it has in flight, and what a half
  has read by the bytes of the read.
\<close>

definition read_of :: "way \<Rightarrow> pipe_event \<Rightarrow> byte list" where
  "read_of d ev = (case ev of pev_read d' (Inr bs) \<Rightarrow> if d = d' then bs else [] | _ \<Rightarrow> [])"

lemma pipe_step_streams:
  assumes "pipe_step ev p = Some p'"
  shows "hf_written (half_of d p') = hf_written (half_of d p) @ newly (half_of d p) (half_of d p') \<and>
    hf_read (half_of d p') = hf_read (half_of d p) @ read_of d ev"
proof (cases ev)
  case (pev_read d' r)
  then show ?thesis using assms
    by (cases r) (auto simp: half_on_read_def half_failed_def read_of_def newly_def split: if_splits)
next
  case (pev_write d' r)
  then show ?thesis using assms
    by (cases r) (auto simp: half_on_write_def half_failed_def read_of_def newly_def split: if_splits half_pc.splits)
next
  case pev_stop
  then show ?thesis using assms by (auto simp: read_of_def newly_def)
qed

lemma wire_takes_read:
  "wire_takes fin r wire = Some wire' \<Longrightarrow> wire = (case r of Inr bs \<Rightarrow> bs | Inl e \<Rightarrow> []) @ wire'"
  by (cases r) (auto split: if_splits, metis append_take_drop_id)

lemma server_reads_wire: "server_reads ev t = Some down \<Longrightarrow> tn_down t = read_of back_way ev @ down"
  by (cases "(ev, t)" rule: server_reads.cases)
    (auto dest!: wire_takes_read simp: read_of_def split: sum.splits)

lemma client_reads_wire: "client_reads ev t = Some up \<Longrightarrow> tn_up t = read_of forth ev @ up"
  by (cases "(ev, t)" rule: client_reads.cases)
    (auto dest!: wire_takes_read simp: read_of_def split: sum.splits)

section \<open>The invariant\<close>

text \<open>Both pipes are in order, and what one end has written is what the other has read and what is on its way.\<close>

definition tunnel_inv :: "tunnel \<Rightarrow> bool" where
  [zrp_inv]: "tunnel_inv t \<longleftrightarrow> pipe_inv (tn_srv t) \<and> pipe_inv (tn_cli t) \<and>
    hf_written (pp_forth (tn_srv t)) = hf_read (pp_forth (tn_cli t)) @ tn_up t \<and>
    hf_written (pp_back (tn_cli t)) = hf_read (pp_back (tn_srv t)) @ tn_down t"

lemma tunnel_step_inv:
  assumes "tunnel_inv t" "tunnel_step ev t = Some t'"
  shows "tunnel_inv t'"
proof (cases ev)
  case (te_server pev)
  then obtain p down where s: "pipe_step pev (tn_srv t) = Some p" "server_reads pev t = Some down"
    and t': "t' = t\<lparr>tn_srv := p, tn_down := down, tn_up := tn_up t @ newly (pp_forth (tn_srv t)) (pp_forth p)\<rparr>"
    using assms(2) by (auto split: option.splits)
  then show ?thesis
    using assms(1) pipe_step_inv [OF _ s(1)] server_reads_wire [OF s(2)] pipe_step_streams [OF s(1), of forth]
      pipe_step_streams [OF s(1), of back_way]
    by (simp add: tunnel_inv_def)
next
  case (te_client pev)
  then obtain p up where s: "pipe_step pev (tn_cli t) = Some p" "client_reads pev t = Some up"
    and t': "t' = t\<lparr>tn_cli := p, tn_up := up, tn_down := tn_down t @ newly (pp_back (tn_cli t)) (pp_back p)\<rparr>"
    using assms(2) by (auto split: option.splits)
  then show ?thesis
    using assms(1) pipe_step_inv [OF _ s(1)] client_reads_wire [OF s(2)] pipe_step_streams [OF s(1), of forth]
      pipe_step_streams [OF s(1), of back_way]
    by (simp add: tunnel_inv_def)
qed

lemma tunnel_steps_inv: "tunnel_steps evs t = Some t' \<Longrightarrow> tunnel_inv t \<Longrightarrow> tunnel_inv t'"
  by (induction evs arbitrary: t) (auto simp del: tunnel_step.simps split: option.splits dest: tunnel_step_inv)

lemma tunnel_start_inv: "tunnel_inv (tunnel_start i j)"
  using pipe_run_inv by (simp add: tunnel_inv_def tunnel_start_def pipe_run_def pipe_new_def half_idle_def)

section \<open>Directions\<close>

text \<open>The half that takes the bytes of a direction in, the half that puts them out, and the wire between.\<close>

fun entry :: "way \<Rightarrow> tunnel \<Rightarrow> half" where
  "entry forth t = pp_forth (tn_srv t)"
| "entry back_way t = pp_back (tn_cli t)"

fun outlet :: "way \<Rightarrow> tunnel \<Rightarrow> half" where
  "outlet forth t = pp_forth (tn_cli t)"
| "outlet back_way t = pp_back (tn_srv t)"

fun wire :: "way \<Rightarrow> tunnel \<Rightarrow> byte list" where
  "wire forth t = tn_up t"
| "wire back_way t = tn_down t"

lemma way_all: "(\<forall>d. P d) \<longleftrightarrow> P forth \<and> P back_way"
  by (metis way.exhaust)

lemma tunnel_inv_way:
  "tunnel_inv t \<longleftrightarrow> pipe_inv (tn_srv t) \<and> pipe_inv (tn_cli t) \<and>
    (\<forall>d. half_inv (entry d t) \<and> half_inv (outlet d t) \<and> hf_written (entry d t) = hf_read (outlet d t) @ wire d t)"
  by (auto simp: tunnel_inv_def way_all pipe_inv_def)

text \<open>The program that acts at the entry of a direction, and the one at its outlet.\<close>

fun near :: "way \<Rightarrow> pipe_event \<Rightarrow> tunnel_event" where
  "near forth ev = te_server ev"
| "near back_way ev = te_client ev"

fun far :: "way \<Rightarrow> pipe_event \<Rightarrow> tunnel_event" where
  "far forth ev = te_client ev"
| "far back_way ev = te_server ev"

text \<open>A block of bytes goes through, and the end of the stream.\<close>

definition carry :: "way \<Rightarrow> byte list \<Rightarrow> tunnel_event list" where
  "carry d bs = [near d (pev_read d (Inr bs)), near d (pev_write d None),
    far d (pev_read d (Inr bs)), far d (pev_write d None)]"

definition hang_up :: "way \<Rightarrow> tunnel_event list" where
  "hang_up d = [near d (pev_read d (Inl (system_error end_of_file))), far d (pev_read d (Inl (system_error end_of_file)))]"

lemma carry_step:
  assumes "hf_pc (entry d t) = half_reading" "hf_pc (outlet d t) = half_reading" "wire d t = []"
    and "0 < length bs" "length bs \<le> pipe_buffer_size"
  shows "\<exists>t'. tunnel_steps (carry d bs) t = Some t' \<and>
    hf_pc (entry d t') = half_reading \<and> hf_pc (outlet d t') = half_reading \<and> wire d t' = [] \<and>
    hf_written (outlet d t') = hf_written (outlet d t) @ bs \<and>
    entry (other_way d) t' = entry (other_way d) t \<and> outlet (other_way d) t' = outlet (other_way d) t \<and>
    wire (other_way d) t' = wire (other_way d) t"
  using assms by (cases d) (simp_all add: carry_def half_on_read_def half_on_write_def newly_def)

lemma carry_blocks:
  assumes "hf_pc (entry d t) = half_reading" "hf_pc (outlet d t) = half_reading" "wire d t = []"
    and "list_all (\<lambda>bs. 0 < length bs \<and> length bs \<le> pipe_buffer_size) bss"
  shows "\<exists>t'. tunnel_steps (concat (map (carry d) bss)) t = Some t' \<and>
    hf_pc (entry d t') = half_reading \<and> hf_pc (outlet d t') = half_reading \<and> wire d t' = [] \<and>
    hf_written (outlet d t') = hf_written (outlet d t) @ concat bss \<and>
    entry (other_way d) t' = entry (other_way d) t \<and> outlet (other_way d) t' = outlet (other_way d) t \<and>
    wire (other_way d) t' = wire (other_way d) t"
  using assms
proof (induction bss arbitrary: t)
  case (Cons bs bss)
  then obtain t1 where t1: "tunnel_steps (carry d bs) t = Some t1" "hf_pc (entry d t1) = half_reading"
    "hf_pc (outlet d t1) = half_reading" "wire d t1 = []" "hf_written (outlet d t1) = hf_written (outlet d t) @ bs"
    "entry (other_way d) t1 = entry (other_way d) t" "outlet (other_way d) t1 = outlet (other_way d) t"
    "wire (other_way d) t1 = wire (other_way d) t"
    using carry_step [of d t bs] by auto
  then show ?case using Cons.IH [of t1] Cons.prems by (auto simp: tunnel_steps_append)
qed simp

lemma hang_up_step:
  assumes "hf_pc (entry d t) = half_reading" "hf_pc (outlet d t) = half_reading" "wire d t = []"
  shows "\<exists>t'. tunnel_steps (hang_up d) t = Some t' \<and> hf_shutdown (outlet d t') \<and>
    hf_written (outlet d t') = hf_written (outlet d t) \<and>
    entry (other_way d) t' = entry (other_way d) t \<and> outlet (other_way d) t' = outlet (other_way d) t \<and>
    wire (other_way d) t' = wire (other_way d) t"
  using assms by (cases d) (simp_all add: hang_up_def half_on_read_def half_failed_def newly_def)

section \<open>Orderly runs\<close>

text \<open>Nothing fails but reads at the end of a stream, and nobody stops a pipe.\<close>

fun orderly :: "pipe_event \<Rightarrow> bool" where
  "orderly (pev_read d r) \<longleftrightarrow> (case r of Inl e \<Rightarrow> e = system_error end_of_file | Inr bs \<Rightarrow> True)"
| "orderly (pev_write d r) \<longleftrightarrow> r = None"
| "orderly pev_stop \<longleftrightarrow> False"

fun orderly_tunnel :: "tunnel_event \<Rightarrow> bool" where
  "orderly_tunnel (te_server ev) = orderly ev"
| "orderly_tunnel (te_client ev) = orderly ev"

text \<open>A half that is done has passed everything on, and the end of the stream.\<close>

definition half_clean :: "half \<Rightarrow> bool" where
  "half_clean h \<longleftrightarrow> (hf_pc h = half_done \<longleftrightarrow> hf_shutdown h) \<and> (hf_shutdown h \<longrightarrow> hf_written h = hf_read h)"

lemma clean_step:
  assumes "pipe_step ev p = Some p'" "orderly ev" "half_inv (half_of d p)" "half_clean (half_of d p)"
  shows "half_clean (half_of d p') \<and> pp_stopping p' = pp_stopping p \<and>
    (hf_shutdown (half_of d p') \<longrightarrow> hf_shutdown (half_of d p) \<or> ev = pev_read d (Inl (system_error end_of_file)))"
proof (cases ev)
  case (pev_read d' r)
  then show ?thesis using assms
    by (cases r) (auto simp: half_on_read_def half_failed_def half_clean_def half_inv_def in_flight_def split: if_splits)
next
  case (pev_write d' r)
  then show ?thesis using assms
    by (auto simp: half_on_write_def half_clean_def split: if_splits half_pc.splits)
qed (use assms in simp)

lemma shut_stays:
  assumes "pipe_step ev p = Some p'" "half_clean (half_of d p)" "hf_shutdown (half_of d p)"
  shows "half_of d p' = half_of d p"
proof (cases ev)
  case (pev_read d' r)
  then show ?thesis using assms
    by (cases r) (auto simp: half_on_read_def half_failed_def half_clean_def split: if_splits)
next
  case (pev_write d' r)
  then show ?thesis using assms
    by (cases r) (auto simp: half_on_write_def half_failed_def half_clean_def split: if_splits half_pc.splits)
qed (use assms in auto)

definition orderly_inv :: "tunnel \<Rightarrow> bool" where
  [zrp_inv]: "orderly_inv t \<longleftrightarrow> tunnel_inv t \<and> \<not> pp_stopping (tn_srv t) \<and> \<not> pp_stopping (tn_cli t) \<and>
    (\<forall>d. half_clean (entry d t) \<and> half_clean (outlet d t) \<and>
      (hf_shutdown (outlet d t) \<longrightarrow> hf_shutdown (entry d t) \<and> wire d t = []))"

lemma newly_same [simp]: "newly h h = []"
  by (simp add: newly_def)

lemma orderly_step_inv:
  assumes inv: "orderly_inv t" and st: "tunnel_step ev t = Some t'" and ord: "orderly_tunnel ev"
  shows "orderly_inv t'"
proof (cases ev)
  case (te_server pev)
  then obtain p down where s: "pipe_step pev (tn_srv t) = Some p" "server_reads pev t = Some down"
    and t': "t' = t\<lparr>tn_srv := p, tn_down := down, tn_up := tn_up t @ newly (pp_forth (tn_srv t)) (pp_forth p)\<rparr>"
    using st by (auto split: option.splits)
  note i = inv [unfolded orderly_inv_def tunnel_inv_way way_all, simplified]
  have o: "orderly pev" using ord te_server by simp
  have 1: "half_clean (pp_forth p)" "pp_stopping p = pp_stopping (tn_srv t)" "half_clean (pp_back p)"
    using clean_step [OF s(1) o, of forth] clean_step [OF s(1) o, of back_way] i by auto
  have 2: "hf_shutdown (pp_forth (tn_cli t)) \<Longrightarrow> pp_forth p = pp_forth (tn_srv t)"
    using shut_stays [OF s(1), of forth] i by simp
  have 3: "hf_shutdown (pp_back (tn_cli t)) \<and> down = []" if "hf_shutdown (pp_back p)"
  proof (cases "hf_shutdown (pp_back (tn_srv t))")
    case True
    then show ?thesis using i server_reads_wire [OF s(2)] by simp
  next
    case False
    then have "pev = pev_read back_way (Inl (system_error end_of_file))"
      using clean_step [OF s(1) o, of back_way] i that by simp
    moreover have "pp_lhs_open (tn_cli t)" using i by (auto simp: pipe_inv_def)
    ultimately show ?thesis using s(2) by (auto split: if_splits)
  qed
  show ?thesis
    using tunnel_step_inv [OF _ st] i inv 1 2 3
    by (auto simp: t' orderly_inv_def way_all)
next
  case (te_client pev)
  then obtain p up where s: "pipe_step pev (tn_cli t) = Some p" "client_reads pev t = Some up"
    and t': "t' = t\<lparr>tn_cli := p, tn_up := up, tn_down := tn_down t @ newly (pp_back (tn_cli t)) (pp_back p)\<rparr>"
    using st by (auto split: option.splits)
  note i = inv [unfolded orderly_inv_def tunnel_inv_way way_all, simplified]
  have o: "orderly pev" using ord te_client by simp
  have 1: "half_clean (pp_forth p)" "pp_stopping p = pp_stopping (tn_cli t)" "half_clean (pp_back p)"
    using clean_step [OF s(1) o, of forth] clean_step [OF s(1) o, of back_way] i by auto
  have 2: "hf_shutdown (pp_back (tn_srv t)) \<Longrightarrow> pp_back p = pp_back (tn_cli t)"
    using shut_stays [OF s(1), of back_way] i by simp
  have 3: "hf_shutdown (pp_forth (tn_srv t)) \<and> up = []" if "hf_shutdown (pp_forth p)"
  proof (cases "hf_shutdown (pp_forth (tn_cli t))")
    case True
    then show ?thesis using i client_reads_wire [OF s(2)] by simp
  next
    case False
    then have "pev = pev_read forth (Inl (system_error end_of_file))"
      using clean_step [OF s(1) o, of forth] i that by simp
    moreover have "pp_rhs_open (tn_srv t)" using i by (auto simp: pipe_inv_def)
    ultimately show ?thesis using s(2) by (auto split: if_splits)
  qed
  show ?thesis
    using tunnel_step_inv [OF _ st] i inv 1 2 3
    by (auto simp: t' orderly_inv_def way_all)
qed

lemma orderly_steps_inv:
  "tunnel_steps evs t = Some t' \<Longrightarrow> list_all orderly_tunnel evs \<Longrightarrow> orderly_inv t \<Longrightarrow> orderly_inv t'"
  by (induction evs arbitrary: t) (auto simp del: tunnel_step.simps split: option.splits dest: orderly_step_inv)

lemma orderly_start: "orderly_inv (tunnel_start i j)"
  using tunnel_start_inv
  by (simp add: orderly_inv_def way_all half_clean_def tunnel_start_def pipe_run_def pipe_new_def half_idle_def)

section \<open>Properties\<close>

text \<open>
  Property C9 (functional): the proxy is transparent.  Whatever fails and whoever stops, what
  comes out of a tunnel in a direction is what went in, in order, from the first byte on;
  what is missing is on the wire or in the two buffers of 8192 bytes that it passes.
\<close>

theorem tunnel_transparent:
  assumes "tunnel_steps evs (tunnel_start i j) = Some t"
  shows "\<exists>inside. hf_read (entry d t) = hf_written (outlet d t) @ inside \<and>
    length inside \<le> length (wire d t) + 2 * pipe_buffer_size"
proof -
  note inv = tunnel_steps_inv [OF assms tunnel_start_inv, unfolded tunnel_inv_way]
  obtain a b where "hf_read (entry d t) = hf_written (entry d t) @ a" "length a \<le> pipe_buffer_size"
    "hf_read (outlet d t) = hf_written (outlet d t) @ b" "length b \<le> pipe_buffer_size"
    using inv unfolding half_inv_def by blast
  moreover have "hf_written (entry d t) = hf_read (outlet d t) @ wire d t" using inv by blast
  ultimately show ?thesis by (intro exI [of _ "b @ wire d t @ a"]) simp
qed

text \<open>
  Property C39 (safety): an orderly end is a complete end.  If nothing fails in a tunnel but reads
  at the end of a stream, then a direction whose receiver was told the end has delivered
  everything that went in and its sender did end, nothing is left on the wire, and
  all four sockets are open, so the other direction can go on.
\<close>

theorem orderly_end_is_complete:
  assumes "tunnel_steps evs (tunnel_start i j) = Some t" "list_all orderly_tunnel evs"
    and "hf_shutdown (outlet d t)"
  shows "hf_written (outlet d t) = hf_read (entry d t) \<and> hf_shutdown (entry d t) \<and> wire d t = [] \<and>
    pp_lhs_open (tn_srv t) \<and> pp_rhs_open (tn_srv t) \<and> pp_lhs_open (tn_cli t) \<and> pp_rhs_open (tn_cli t)"
proof -
  note inv = orderly_steps_inv [OF assms(1,2) orderly_start]
  have pipes: "pipe_inv (tn_srv t)" "pipe_inv (tn_cli t)" "\<not> pp_stopping (tn_srv t)" "\<not> pp_stopping (tn_cli t)"
    using inv by (auto simp: orderly_inv_def tunnel_inv_def)
  have "hf_written (entry d t) = hf_read (outlet d t) @ wire d t" using inv by (auto simp: orderly_inv_def tunnel_inv_way)
  moreover have "half_clean (entry d t)" "half_clean (outlet d t)" "hf_shutdown (entry d t)" "wire d t = []"
    using inv assms(3) by (auto simp: orderly_inv_def)
  ultimately show ?thesis using assms(3) pipes by (auto simp: half_clean_def pipe_inv_def)
qed

text \<open>
  A tunnel carries every stream.  A direction at rest takes any
  blocks of at most 8192 bytes through and then the end of the stream: all of it comes out at the
  other end, and the other direction is not touched.
\<close>

theorem tunnel_delivers:
  assumes "hf_pc (entry d t) = half_reading" "hf_pc (outlet d t) = half_reading" "wire d t = []"
    and "list_all (\<lambda>bs. 0 < length bs \<and> length bs \<le> pipe_buffer_size) bss"
  shows "\<exists>t'. tunnel_steps (concat (map (carry d) bss) @ hang_up d) t = Some t' \<and>
    hf_written (outlet d t') = hf_written (outlet d t) @ concat bss \<and> hf_shutdown (outlet d t') \<and>
    entry (other_way d) t' = entry (other_way d) t \<and> outlet (other_way d) t' = outlet (other_way d) t \<and>
    wire (other_way d) t' = wire (other_way d) t"
proof -
  obtain t1 where t1: "tunnel_steps (concat (map (carry d) bss)) t = Some t1" "hf_pc (entry d t1) = half_reading"
    "hf_pc (outlet d t1) = half_reading" "wire d t1 = []" "hf_written (outlet d t1) = hf_written (outlet d t) @ concat bss"
    "entry (other_way d) t1 = entry (other_way d) t" "outlet (other_way d) t1 = outlet (other_way d) t"
    "wire (other_way d) t1 = wire (other_way d) t"
    using carry_blocks [OF assms] by blast
  then show ?thesis using hang_up_step [OF t1(2-4)] by (auto simp: tunnel_steps_append)
qed

text \<open>The run of the witnesses: two bytes go up, one comes down, the user ends.\<close>

definition tunnel_talk :: "tunnel_event list" where
  "tunnel_talk = carry forth [1, 2] @ carry back_way [7] @ [te_server (pev_read forth (Inr [3]))]"

lemma tunnel_talk_run:
  "\<exists>t. tunnel_steps tunnel_talk (tunnel_start 0 0) = Some t \<and> hf_read (entry forth t) = [1, 2, 3] \<and>
    hf_written (outlet forth t) = [1, 2]"
  by (simp add: tunnel_talk_def carry_def tunnel_start_def pipe_run_def pipe_new_def half_idle_def half_on_read_def
      half_on_write_def newly_def pipe_buffer_size_def)

theorem tunnel_transparent_witness:
  "\<exists>t inside. tunnel_steps tunnel_talk (tunnel_start 0 0) = Some t \<and> hf_read (entry forth t) = hf_written (outlet forth t) @ inside \<and>
    inside = [3]"
proof -
  obtain t where t: "tunnel_steps tunnel_talk (tunnel_start 0 0) = Some t" "hf_read (entry forth t) = [1, 2, 3]"
    "hf_written (outlet forth t) = [1, 2]"
    using tunnel_talk_run by blast
  with tunnel_transparent [OF t(1), of forth] show ?thesis by auto
qed

lemma start_reads: "hf_pc (entry d (tunnel_start i j)) = half_reading \<and> hf_pc (outlet d (tunnel_start i j)) = half_reading \<and>
    wire d (tunnel_start i j) = [] \<and> hf_written (outlet d (tunnel_start i j)) = []"
  by (cases d) (simp_all add: tunnel_start_def pipe_run_def pipe_new_def half_idle_def)

theorem tunnel_delivers_witness:
  "\<exists>t'. tunnel_steps (concat (map (carry back_way) [[1, 2], [3]]) @ hang_up back_way) (tunnel_start 0 0) = Some t' \<and>
    hf_written (pp_back (tn_srv t')) = [1, 2, 3] \<and> hf_shutdown (pp_back (tn_srv t'))"
  using tunnel_delivers [of back_way "tunnel_start 0 0" "[[1, 2], [3]]"] start_reads [of back_way 0 0]
  by (auto simp: pipe_buffer_size_def)

lemma ended_run:
  "\<exists>t. tunnel_steps (carry forth [1, 2] @ hang_up forth) (tunnel_start 0 0) = Some t \<and> hf_shutdown (outlet forth t)"
  by (simp add: hang_up_def carry_def tunnel_start_def pipe_run_def pipe_new_def half_idle_def half_on_read_def
      half_on_write_def half_failed_def newly_def pipe_buffer_size_def)

theorem orderly_end_is_complete_witness:
  "\<exists>t. tunnel_steps (carry forth [1, 2] @ hang_up forth) (tunnel_start 0 0) = Some t \<and>
    hf_written (outlet forth t) = hf_read (entry forth t) \<and> pp_lhs_open (tn_srv t)"
proof -
  obtain t where t: "tunnel_steps (carry forth [1, 2] @ hang_up forth) (tunnel_start 0 0) = Some t" "hf_shutdown (outlet forth t)"
    using ended_run by blast
  have "list_all orderly_tunnel (carry forth [1, 2] @ hang_up forth)" by (simp add: carry_def hang_up_def)
  with orderly_end_is_complete [OF t(1) _ t(2)] t(1) show ?thesis by blast
qed

text \<open>
  A reset is passed on as an orderly end.  When the connection between the programs breaks
  while bytes are on their way, the client's pipe takes \<open>connection_reset\<close> for the end of the stream and
  shuts the local service's side down, which cannot tell the truncated stream from a complete one.
\<close>

theorem reset_truncates_silently:
  "\<exists>t. tunnel_steps [te_server (pev_read forth (Inr [1, 2])), te_server (pev_write forth None),
      te_client (pev_read forth (Inl (system_error connection_reset)))] (tunnel_start i j) = Some t \<and>
    hf_shutdown (outlet forth t) \<and> hf_written (outlet forth t) = [] \<and> hf_read (entry forth t) = [1, 2] \<and>
    pp_rhs_open (tn_cli t) \<and> \<not> pp_stopping (tn_cli t)"
  by (simp add: tunnel_start_def pipe_run_def pipe_new_def half_idle_def half_on_read_def
      half_on_write_def half_failed_def newly_def pipe_buffer_size_def)

end
