(* ===== verification/Delivery.thy ===== *)
theory Delivery
  imports Service Tunnel
begin

text \<open>
  From a user who was served to the bytes it exchanges with the local service: both forwarders give
  a waiting user a pipe (\<open>forwarder::handle_socket\<close> of \<open>include/zrp/forwarder.hpp\<close>), and a run of the
  tunnel that the two pipes make is a run of both forwarders, the client's inside its client.  It
  composes \<open>Forwarder\<close>, \<open>Tunnel\<close> and the client; it has no code of its own.
\<close>

section \<open>A waiting user gets a pipe\<close>

text \<open>The pipes that are registered and not run yet are among those that were created.\<close>

definition starting_inv :: "forwarder \<Rightarrow> bool" where
  [zrp_inv]: "starting_inv f \<longleftrightarrow> (\<forall>a\<in>set (fw_starting f). a < fw_addr f)"

lemma starting_act:
  assumes "starting_inv f" "fwd_act sd ev f = Some f'"
  shows "starting_inv f'"
proof (cases ev)
  case fev_strand
  then obtain t ts where t: "f' = run_strand t (f\<lparr>fw_strand := ts\<rparr>)" using assms(2) by (auto split: list.splits)
  show ?thesis using assms(1) t
    by (cases t) (auto simp: starting_inv_def register_pipe_def stop_pipes_def Let_def less_SucI)
qed (use assms in \<open>auto simp: starting_inv_def forward_accepted_def forwarder_handle_error_def forwarder_try_stop_def
    handle_upstream_def start_pipe_def Let_def dest!: set_remove_nth [THEN subsetD] split: if_splits sum.splits option.splits\<close>)

lemma starting_steps:
  "fwd_steps sd evs f = Some f' \<Longrightarrow> starting_inv f \<Longrightarrow> starting_inv f'"
proof (induction evs arbitrary: f)
  case (Cons ev evs)
  obtain g where g: "fwd_act sd ev f = Some g" "fwd_steps sd evs (drop_pipes g) = Some f'"
    using Cons.prems(1) by (auto simp: fwd_step_def split: option.splits)
  have "starting_inv (drop_pipes g)"
    using starting_act [OF Cons.prems(2) g(1)] by (simp add: starting_inv_def drop_pipes_def)
  then show ?case using Cons.IH [OF g(2)] by blast
qed simp

lemma starting_new: "starting_inv (forwarder_run forwarder_new)"
  by (simp add: starting_inv_def forwarder_run_def forwarder_new_def)

text \<open>The pipe \<open>p\<close> of a forwarder at the address \<open>a\<close>: it was run, and it is destroyed when both its halves have ended.\<close>

definition pipe_over :: "pipe \<Rightarrow> bool" where
  "pipe_over p \<longleftrightarrow> hf_pc (pp_forth p) = half_done \<and> hf_pc (pp_back p) = half_done"

definition carries :: "nat \<Rightarrow> forwarder \<Rightarrow> pipe \<Rightarrow> bool" where
  "carries a f p \<longleftrightarrow> hget (fw_heap f) a = (if pipe_over p then None else Some p) \<and> a \<notin> set (fw_starting f)"

text \<open>What \<open>handle_socket\<close> and the strand do for the user that waits at \<open>i\<close>.\<close>

definition bring_up :: "nat \<Rightarrow> forwarder \<Rightarrow> fwd_event list" where
  "bring_up i f = [fev_upstream i (Inr ()), fev_strand, fev_start (length (fw_starting f))]"

lemma drop_pipes_sel [simp]:
  "fw_starting (drop_pipes f) = fw_starting f" "fw_forwarding (drop_pipes f) = fw_forwarding f"
  "fw_waiting (drop_pipes f) = fw_waiting f" "fw_strand (drop_pipes f) = fw_strand f"
  "fw_addr (drop_pipes f) = fw_addr f" "fw_next_pipe_id (drop_pipes f) = fw_next_pipe_id f"
  "hget (fw_heap (drop_pipes f)) a = (case hget (fw_heap f) a of Some p \<Rightarrow> if pipe_held f a p then Some p else None | None \<Rightarrow> None)"
  by (simp_all add: drop_pipes_def hget_keep)

lemma registered_pipe_starts:
  assumes "fw_starting f = as @ [a]" "hget (fw_heap f) a = Some (pipe_new n)" "a \<notin> set as"
  shows "\<exists>f'. fwd_step sd (fev_start (length as)) f = Some f' \<and> carries a f' (pipe_run (pipe_new n)) \<and>
    fw_forwarding f' = fw_forwarding f"
  using assms by (simp add: fwd_step_def start_pipe_def carries_def pipe_over_def pipe_held_def pipe_run_def)

lemma waiting_user_gets_pipe:
  assumes "starting_inv f" "i < length (fw_waiting f)" "fw_strand f = []"
  shows "\<exists>f'. fwd_steps sd (bring_up i f) f = Some f' \<and> carries (fw_addr f) f' (pipe_run (pipe_new (fw_next_pipe_id f))) \<and>
    fw_forwarding f' = fw_forwarding f"
proof -
  let ?a = "fw_addr f" and ?n = "fw_next_pipe_id f"
  obtain f1 where f1: "fwd_step sd (fev_upstream i (Inr ())) f = Some f1" "fw_strand f1 = [st_register (fw_waiting f ! i)]"
    "fw_starting f1 = fw_starting f" "fw_forwarding f1 = fw_forwarding f" "fw_addr f1 = ?a" "fw_next_pipe_id f1 = ?n"
    using assms(2,3) by (simp add: fwd_step_def handle_upstream_def Let_def)
  obtain f2 where f2: "fwd_step sd fev_strand f1 = Some f2" "fw_starting f2 = fw_starting f @ [?a]"
    "hget (fw_heap f2) ?a = Some (pipe_new ?n)" "fw_forwarding f2 = fw_forwarding f"
    using f1(2-) by (simp add: fwd_step_def register_pipe_def Let_def pipe_held_def)
  have "?a \<notin> set (fw_starting f)" using assms(1) by (auto simp: starting_inv_def)
  from registered_pipe_starts [OF f2(2,3) this, of sd] show ?thesis using f1(1) f2(1,4) by (auto simp: bring_up_def)
qed

section \<open>A pipe inside its forwarder\<close>

lemma over_is_over: "pipe_over p \<Longrightarrow> \<not> is_stop ev \<Longrightarrow> pipe_step ev p = None"
  by (cases ev; cases "case ev of pev_read d r \<Rightarrow> d | pev_write d r \<Rightarrow> d | pev_stop \<Rightarrow> forth")
    (auto simp: pipe_over_def is_stop_def)

lemma carries_step:
  assumes "carries a f p" "pipe_step ev p = Some p'" "\<not> is_stop ev"
  shows "\<exists>f'. fwd_step sd (fev_pipe a ev) f = Some f' \<and> carries a f' p' \<and> fw_forwarding f' = fw_forwarding f"
proof -
  have a: "hget (fw_heap f) a = Some p" "a \<notin> set (fw_starting f)"
    using assms over_is_over [of p ev] by (auto simp: carries_def split: if_splits)
  then show ?thesis using assms(2,3)
    by (simp add: fwd_step_def drop_pipes_def carries_def hget_keep pipe_held_def pipe_over_def)
qed

lemma carries_steps:
  "carries a f p \<Longrightarrow> pipe_steps evs p = Some p' \<Longrightarrow> list_all (\<lambda>ev. \<not> is_stop ev) evs \<Longrightarrow>
    \<exists>f'. fwd_steps sd (map (fev_pipe a) evs) f = Some f' \<and> carries a f' p' \<and> fw_forwarding f' = fw_forwarding f"
proof (induction evs arbitrary: f p)
  case (Cons ev evs)
  obtain q where q: "pipe_step ev p = Some q" "pipe_steps evs q = Some p'"
    using Cons.prems(2) by (auto simp del: pipe_step.simps split: option.splits)
  obtain g where g: "fwd_step sd (fev_pipe a ev) f = Some g" "carries a g q" "fw_forwarding g = fw_forwarding f"
    using carries_step [OF Cons.prems(1) q(1)] Cons.prems(3) by auto
  show ?case using Cons.IH [OF g(2) q(2)] Cons.prems(3) g by auto
qed simp

section \<open>The two pipes of a tunnel\<close>

fun at_server :: "tunnel_event list \<Rightarrow> pipe_event list" where
  "at_server [] = []"
| "at_server (te_server ev # evs) = ev # at_server evs"
| "at_server (te_client ev # evs) = at_server evs"

fun at_client :: "tunnel_event list \<Rightarrow> pipe_event list" where
  "at_client [] = []"
| "at_client (te_client ev # evs) = ev # at_client evs"
| "at_client (te_server ev # evs) = at_client evs"

lemma tunnel_pipes:
  "tunnel_steps evs t = Some t' \<Longrightarrow>
    pipe_steps (at_server evs) (tn_srv t) = Some (tn_srv t') \<and> pipe_steps (at_client evs) (tn_cli t) = Some (tn_cli t')"
proof (induction evs arbitrary: t)
  case (Cons ev evs)
  obtain u where u: "tunnel_step ev t = Some u" "tunnel_steps evs u = Some t'"
    using Cons.prems by (auto simp del: tunnel_step.simps split: option.splits)
  show ?case using Cons.IH [OF u(2)] u(1) by (cases ev) (auto simp del: pipe_step.simps split: option.splits)
qed simp

lemma orderly_parts:
  "list_all orderly_tunnel evs \<Longrightarrow>
    list_all (\<lambda>ev. \<not> is_stop ev) (at_server evs) \<and> list_all (\<lambda>ev. \<not> is_stop ev) (at_client evs)"
proof (induction evs)
  case (Cons ev evs)
  have "orderly e \<Longrightarrow> \<not> is_stop e" for e by (cases e) (auto simp: is_stop_def)
  then show ?case using Cons by (cases ev) auto
qed simp

text \<open>An exchange: the blocks \<open>ups\<close> go to the service, the blocks \<open>downs\<close> to the user, and each side ends.\<close>

definition exchange :: "byte list list \<Rightarrow> byte list list \<Rightarrow> tunnel_event list" where
  "exchange ups downs = (concat (map (carry forth) ups) @ hang_up forth) @ concat (map (carry back_way) downs) @ hang_up back_way"

definition blocks :: "byte list list \<Rightarrow> bool" where
  "blocks bss \<longleftrightarrow> list_all (\<lambda>bs. 0 < length bs \<and> length bs \<le> pipe_buffer_size) bss"

lemma carry_orderly: "list_all orderly_tunnel (concat (map (carry d) bss) @ hang_up d)"
  by (induction bss) (cases d; auto simp: carry_def hang_up_def)+

lemma exchange_orderly: "list_all orderly_tunnel (exchange ups downs)"
  unfolding exchange_def list_all_append [of _ "concat (map (carry forth) ups) @ hang_up forth"]
  by (intro conjI carry_orderly)

lemma exchange_delivers:
  assumes "blocks ups" "blocks downs"
  shows "\<exists>t. tunnel_steps (exchange ups downs) (tunnel_start n m) = Some t \<and> hf_written (outlet forth t) = concat ups \<and>
    hf_written (outlet back_way t) = concat downs \<and> pipe_over (tn_srv t) \<and> pipe_over (tn_cli t)"
proof -
  obtain t1 where t1: "tunnel_steps (concat (map (carry forth) ups) @ hang_up forth) (tunnel_start n m) = Some t1"
    "hf_written (outlet forth t1) = concat ups" "hf_shutdown (outlet forth t1)" "entry back_way t1 = entry back_way (tunnel_start n m)"
    "outlet back_way t1 = outlet back_way (tunnel_start n m)" "wire back_way t1 = []"
    using tunnel_delivers [of forth "tunnel_start n m" ups] assms(1) [unfolded blocks_def]
    by (auto simp: tunnel_start_def pipe_run_def pipe_new_def half_idle_def)
  have rest: "hf_pc (entry back_way t1) = half_reading" "hf_pc (outlet back_way t1) = half_reading"
    "hf_written (outlet back_way t1) = []"
    unfolding t1(4,5) by (simp_all add: tunnel_start_def pipe_run_def pipe_new_def half_idle_def)
  obtain t where t: "tunnel_steps (concat (map (carry back_way) downs) @ hang_up back_way) t1 = Some t"
    "hf_written (outlet back_way t) = concat downs" "hf_shutdown (outlet back_way t)" "entry forth t = entry forth t1"
    "outlet forth t = outlet forth t1"
    using tunnel_delivers [OF rest(1,2) t1(6) assms(2) [unfolded blocks_def]] rest(3) by auto
  have run: "tunnel_steps (exchange ups downs) (tunnel_start n m) = Some t"
    unfolding exchange_def tunnel_steps_append [of "concat (map (carry forth) ups) @ hang_up forth"] by (simp only: t1(1) t(1) bind.bind_lunit)
  note inv = orderly_steps_inv [OF run exchange_orderly orderly_start, unfolded orderly_inv_def way_all]
  have "hf_shutdown (outlet forth t)" "hf_shutdown (outlet back_way t)" using t t1 by simp_all
  then have "hf_pc (entry forth t) = half_done" "hf_pc (outlet forth t) = half_done"
    "hf_pc (entry back_way t) = half_done" "hf_pc (outlet back_way t) = half_done"
    using inv by (auto simp: half_clean_def)
  then show ?thesis using run t t1 by (auto simp: pipe_over_def)
qed

section \<open>The forwarder inside its client\<close>

lemma strand_forwarding [simp]: "fw_forwarding (run_strand t f) = fw_forwarding f"
  by (cases t) (simp_all add: register_pipe_def stop_pipes_def Let_def)

lemma client_follows_forwarder:
  "fwd_steps False fevs g = Some g' \<Longrightarrow> list_all own_fevent fevs \<Longrightarrow> list_all (\<lambda>e. \<forall>r. e \<noteq> fev_accept r) fevs \<Longrightarrow>
    hget (cl_shares C) b = Some sc \<Longrightarrow> cs_fwd sc = Some g \<Longrightarrow> fw_forwarding g \<Longrightarrow>
    \<exists>(C' :: client) sc'. client_steps J cfg (map (\<lambda>e. (t, kev_fwd b e)) fevs) C = Some C' \<and> hget (cl_shares C') b = Some sc' \<and>
      cs_fwd sc' = Some g'"
proof (induction fevs arbitrary: C sc g)
  case (Cons ev fevs)
  obtain g1 where g1: "fwd_step False ev g = Some g1" "fwd_steps False fevs g1 = Some g'"
    using Cons.prems(1) by (auto split: option.splits)
  have own: "own_fevent ev" "\<forall>r. ev \<noteq> fev_accept r" using Cons.prems(2,3) by simp_all
  have fwd: "fw_forwarding g1"
    using g1(1) own Cons.prems(6)
    by (cases ev) (auto simp: fwd_step_def drop_pipes_def handle_upstream_def start_pipe_def own_fevent_def Let_def
        split: if_splits sum.splits list.splits option.splits)
  let ?T = "upd_cshare b (\<lambda>s. s\<lparr>cs_fwd := Some g1\<rparr>) C"
  have step: "client_step J cfg t (kev_fwd b ev) C = Some (ccollect ?T)"
    using Cons.prems(4,5) own g1(1) by (simp add: client_step_def)
  obtain n where n: "hget (cl_shares (collect_cworkers ?T)) b = Some (sc\<lparr>cs_fwd := Some g1, cs_nr := n\<rparr>)"
    using Cons.prems(4)
    by (auto simp: collect_cworkers_def Let_def upd_cshare_def hget_map_val [of "\<lambda>a s. s\<lparr>cs_nr := n a s\<rparr>" for n])
  then have "hget (cl_shares (ccollect ?T)) b = Some (sc\<lparr>cs_fwd := Some g1, cs_nr := n\<rparr>)"
    using fwd by (simp add: ccollect_def collect_cshares_def hget_keep cshare_held_def cfwd_alive_def)
  from Cons.IH [OF g1(2) _ _ this _ fwd] Cons.prems(2,3) step show ?case by simp
qed auto

section \<open>Properties\<close>

lemma own_bring_up: "list_all own_fevent (bring_up i f @ map (fev_pipe a) evs)"
  "list_all (\<lambda>e. \<forall>r. e \<noteq> fev_accept r) (bring_up i f @ map (fev_pipe a) evs)"
  by (simp_all add: bring_up_def own_fevent_def list_all_iff)

lemma forwarder_carries_exchange:
  assumes "starting_inv f" "i < length (fw_waiting f)" "fw_strand f = []"
    and "pipe_steps evs (pipe_run (pipe_new (fw_next_pipe_id f))) = Some p" "list_all (\<lambda>ev. \<not> is_stop ev) evs" "pipe_over p"
  shows "\<exists>f'. fwd_steps sd (bring_up i f @ map (fev_pipe (fw_addr f)) evs) f = Some f' \<and> \<not> live (fw_heap f') (fw_addr f)"
proof -
  obtain f1 where f1: "fwd_steps sd (bring_up i f) f = Some f1" "carries (fw_addr f) f1 (pipe_run (pipe_new (fw_next_pipe_id f)))"
    using waiting_user_gets_pipe [OF assms(1-3), of sd] by blast
  obtain f' where "fwd_steps sd (map (fev_pipe (fw_addr f)) evs) f1 = Some f'" "carries (fw_addr f) f' p"
    using carries_steps [OF f1(2) assms(4,5)] by blast
  then show ?thesis using f1(1) assms(6) by (simp add: fwd_steps_append carries_def live_def)
qed

text \<open>
  Property C3 (functional): a user who was served exchanges bytes with the local service.  Take a
  forwarder of the server's share, in any state it can reach, with a user who waits for its upstream,
  and a client whose share has such a forwarder with the other end of that connection.  The user and
  the service can exchange any blocks and each end its stream: one run of the tunnel of the two new
  pipes is a run of the server's forwarder and of the client, everything each side sent has come
  out at the other, and both pipes are destroyed.
\<close>

theorem user_reaches_service:
  assumes "fwd_steps True es (forwarder_run forwarder_new) = Some f" "i < length (fw_waiting f)" "fw_strand f = []"
    and "fwd_steps False es' (forwarder_run forwarder_new) = Some g" "j < length (fw_waiting g)" "fw_strand g = []"
      "fw_forwarding g" "hget (cl_shares C) b = Some sc" "cs_fwd sc = Some g"
    and "blocks ups" "blocks downs"
  shows "\<exists>tn f' (C' :: client) sc' g'. tunnel_steps (exchange ups downs) (tunnel_start (fw_next_pipe_id f) (fw_next_pipe_id g)) = Some tn \<and>
    hf_written (outlet forth tn) = concat ups \<and> hf_written (outlet back_way tn) = concat downs \<and>
    fwd_steps True (bring_up i f @ map (fev_pipe (fw_addr f)) (at_server (exchange ups downs))) f = Some f' \<and>
    client_steps J cfg (map (\<lambda>e. (t, kev_fwd b e))
      (bring_up j g @ map (fev_pipe (fw_addr g)) (at_client (exchange ups downs)))) C = Some C' \<and>
    hget (cl_shares C') b = Some sc' \<and> cs_fwd sc' = Some g' \<and>
    \<not> live (fw_heap f') (fw_addr f) \<and> \<not> live (fw_heap g') (fw_addr g)"
proof -
  let ?x = "exchange ups downs"
  obtain tn where tn: "tunnel_steps ?x (tunnel_start (fw_next_pipe_id f) (fw_next_pipe_id g)) = Some tn"
    "hf_written (outlet forth tn) = concat ups" "hf_written (outlet back_way tn) = concat downs"
    "pipe_over (tn_srv tn)" "pipe_over (tn_cli tn)"
    using exchange_delivers [OF assms(10,11)] by blast
  have pipes: "pipe_steps (at_server ?x) (pipe_run (pipe_new (fw_next_pipe_id f))) = Some (tn_srv tn)"
    "pipe_steps (at_client ?x) (pipe_run (pipe_new (fw_next_pipe_id g))) = Some (tn_cli tn)"
    using tunnel_pipes [OF tn(1)] by (simp_all add: tunnel_start_def)
  note stops = orderly_parts [OF exchange_orderly, of ups downs]
  note start = starting_steps [OF assms(1) starting_new] starting_steps [OF assms(4) starting_new]
  obtain f' where f': "fwd_steps True (bring_up i f @ map (fev_pipe (fw_addr f)) (at_server ?x)) f = Some f'"
    "\<not> live (fw_heap f') (fw_addr f)"
    using forwarder_carries_exchange [OF start(1) assms(2,3) pipes(1) _ tn(4)] stops by blast
  obtain g' where g': "fwd_steps False (bring_up j g @ map (fev_pipe (fw_addr g)) (at_client ?x)) g = Some g'"
    "\<not> live (fw_heap g') (fw_addr g)"
    using forwarder_carries_exchange [OF start(2) assms(5,6) pipes(2) _ tn(5)] stops by blast
  obtain C' :: client and sc' where "client_steps J cfg (map (\<lambda>e. (t, kev_fwd b e))
      (bring_up j g @ map (fev_pipe (fw_addr g)) (at_client ?x))) C = Some C'"
    "hget (cl_shares C') b = Some sc'" "cs_fwd sc' = Some g'"
    using client_follows_forwarder [OF g'(1) own_bring_up assms(8,9,7)] by blast
  then show ?thesis using tn f' g'(2) by blast
qed

text \<open>The client whose worker was visited, and a forwarder of the server that has accepted a user.\<close>

lemma visited_client_waits:
  "\<exists>(C :: client) sc g. client_steps plain_json demo_config demo_visit demo_client = Some C \<and> hget (cl_shares C) 0 = Some sc \<and>
    cs_fwd sc = Some g \<and> fwd_steps False [fev_accept (Inl 1)] (forwarder_run forwarder_new) = Some g \<and>
    fw_waiting g = [1] \<and> fw_strand g = [] \<and> fw_forwarding g"
  by (simp add: demo_visit_def demo_eval forward_accepted_def forwarder_run_def forwarder_new_def fwd_step_def drop_pipes_def)

theorem user_reaches_service_witness:
  "\<exists>f tn f' (C :: client) (C' :: client) sc' g'. fwd_steps True [fev_accept (Inl 0)] (forwarder_run forwarder_new) = Some f \<and>
    tunnel_steps (exchange [[1, 2], [3]] [[7]]) (tunnel_start 0 0) = Some tn \<and>
    hf_written (outlet forth tn) = [1, 2, 3] \<and> hf_written (outlet back_way tn) = [7] \<and>
    fwd_steps True (bring_up 0 f @ map (fev_pipe (fw_addr f)) (at_server (exchange [[1, 2], [3]] [[7]]))) f = Some f' \<and>
    client_steps plain_json demo_config demo_visit demo_client = Some C \<and>
    hget (cl_shares C') 0 = Some sc' \<and> cs_fwd sc' = Some g' \<and> \<not> live (fw_heap f') (fw_addr f)"
proof -
  obtain f where f: "fwd_steps True [fev_accept (Inl 0)] (forwarder_run forwarder_new) = Some f" "fw_waiting f = [0]"
    "fw_strand f = []" "fw_next_pipe_id f = 0"
    by (simp add: forward_accepted_def forwarder_run_def forwarder_new_def fwd_step_def drop_pipes_def)
  obtain C :: client and sc g where C: "client_steps plain_json demo_config demo_visit demo_client = Some C"
    "hget (cl_shares C) 0 = Some sc" "cs_fwd sc = Some g" "fwd_steps False [fev_accept (Inl 1)] (forwarder_run forwarder_new) = Some g"
    "fw_waiting g = [1]" "fw_strand g = []" "fw_forwarding g"
    using visited_client_waits by blast
  have g: "fw_next_pipe_id g = 0"
    using C(4) by (auto simp: forward_accepted_def forwarder_run_def forwarder_new_def fwd_step_def drop_pipes_def)
  have i: "0 < length (fw_waiting f)" "0 < length (fw_waiting g)" using f(2) C(5) by simp_all
  have b: "blocks [[1, 2], [3]]" "blocks [[7]]" by (simp_all add: blocks_def pipe_buffer_size_def)
  obtain tn f' and C' :: client and sc' g' where r: "tunnel_steps (exchange [[1, 2], [3]] [[7]]) (tunnel_start 0 0) = Some tn"
    "hf_written (outlet forth tn) = concat [[1, 2], [3]]" "hf_written (outlet back_way tn) = concat [[7]]"
    "fwd_steps True (bring_up 0 f @ map (fev_pipe (fw_addr f)) (at_server (exchange [[1, 2], [3]] [[7]]))) f = Some f'"
    "hget (cl_shares C') 0 = Some sc'" "cs_fwd sc' = Some g'" "\<not> live (fw_heap f') (fw_addr f)"
    using user_reaches_service [OF f(1) i(1) f(3) C(4) i(2) C(6,7,2,3) b, of plain_json demo_config 9]
    unfolding f(4) g by blast
  show ?thesis
    by (rule exI [of _ f], rule exI [of _ tn], rule exI [of _ f'], rule exI [of _ C], rule exI [of _ C'], rule exI [of _ sc'],
        rule exI [of _ g'], intro conjI f(1) r(1,4-7) C(1)) (use r(2,3) in simp_all)
qed

end
