(* ===== verification/Spec2Isabelle.thy ===== *)
theory Spec2Isabelle
  imports Framing Directory Server_Stop Server_Exit Client_Exit Client_Worker_Stop Delivery
begin

text \<open>
  A verification development for zrp, a reverse proxy that makes services behind a NAT
  available: a client keeps connections open to a public server, and the server hands them to
  the users of a share.

  \<^bold>\<open>The program\<close>

  A client (\<open>zclient\<close>) opens one control connection and, for each share of its configuration, a
  number of worker connections.  The server (\<open>zserver\<close>) registers the client and its shares under
  their ids and listens on a port for each share.  A user who connects there is matched with a
  waiting worker connection: the server sends a visit message over it, the client confirms, and
  from then on both ends pipe bytes between the user and the local service.  All of it is
  coroutines over Boost.Asio; messages are JSON values in frames with a length prefix.

  \<^bold>\<open>Theories and code\<close> (files are under \<open>include/zrp\<close> where nothing else is said)

  \<^item> \<open>Prelude\<close>, \<open>Std_Map\<close>: results as sums, lists, the containers \<open>std::map\<close> and the heap of shared
    objects.  An object is destroyed when nothing holds it; an address that is not in the heap is
    an expired \<open>weak_ptr\<close>.
  \<^item> \<open>Exceptions\<close> (\<open>exceptions.hpp\<close>), \<open>Endian\<close> (the length prefix of \<open>msg.hpp\<close>), \<open>Json\<close> (\<open>json_misc.hpp\<close>,
    \<open>fmt_misc.hpp\<close>), \<open>Messages\<close> and \<open>Framing\<close> (\<open>msg.hpp\<close>): what goes over the wire.
  \<^item> \<open>Config\<close> (\<open>config.hpp\<close>, \<open>dump_config.hpp\<close>), \<open>File\<close> (\<open>file.hpp\<close>, \<open>parse_file\<close>, \<open>load_config\<close>), \<open>Args\<close>
    (\<open>args.hpp\<close>), \<open>Log\<close> (\<open>log.hpp\<close>).
  \<^item> \<open>Waitqueue\<close> (\<open>waitqueue.hpp\<close>, \<open>completion_handler.hpp\<close>): the rendezvous of coroutines, used by
    both programs.  \<open>Lifecycle\<close> is the contract of every object that can be stopped, a locale that
    pipes, connections, workers, controllers and both ends interpret.
  \<^item> \<open>Pipe\<close> (\<open>pipe.hpp\<close>) and \<open>Forwarder\<close> (\<open>forwarder.hpp\<close>): the data plane of both programs.
  \<^item> \<open>Server_Worker\<close>, \<open>Server\<close> (\<open>server.hpp\<close>): the server's end of a worker connection, and all objects
    of a server in one state.  \<open>Server_Worker_Props\<close>, \<open>Server_Inv\<close>, \<open>Server_Registry\<close>, \<open>Server_Stop\<close> hold
    the invariants and properties, \<open>Directory\<close> the abstract specification of the registries and its refinement.
  \<^item> \<open>Client_Worker\<close>, \<open>Client\<close> (\<open>client.hpp\<close>): the client's end of a worker connection with the abstract
    protocol that it refines, and all objects of a client in one state.  \<open>Client_Inv\<close> and
    \<open>Client_Steps\<close> hold the invariant, \<open>Client_Demo\<close> concrete runs, \<open>Client_Props\<close> and \<open>Client_Worker_Stop\<close> the properties.
  \<^item> \<open>Session\<close>, \<open>Control\<close>, \<open>Service\<close>, \<open>Tunnel\<close> and \<open>Delivery\<close> compose the two programs and have no code of their own: \<open>Session\<close>
    both ends of one worker connection with the frames on their way between them, \<open>Control\<close> a
    whole client and a whole server at the greetings that join them (the control connection, the
    configuration's shares, a new worker), \<open>Service\<close> a server, a session and a client on the way of
    one user to the client's forwarder, \<open>Tunnel\<close> the server's pipe and the client's pipe that carry
    one user, with the bytes on their way between them, \<open>Delivery\<close> the two forwarders and the client around
    such a tunnel, from a user who waits for its upstream to the end of both pipes.
  \<^item> \<open>Startup\<close> (\<open>src/zclient.cpp\<close>, \<open>src/zserver.cpp\<close>, \<open>io_threadpool.hpp\<close>, \<open>rlimit.hpp\<close>): the processes,
    and the exit status of the client; \<open>Server_Exit\<close>: that of the server; \<open>Client_Exit\<close>: runs of the
    client from its start over SIGINT to its end, and one that does not end.

  \<^bold>\<open>How the code is modelled\<close>

  A class is a record; its members keep their names behind a prefix.  A coroutine is the point where
  it is suspended, a datatype of program counters; an operation is a function from state to
  state, and what one resumption does is one such function, from the code after one \<open>co_await\<close> to
  the next.  A step function takes an event, the answer of a socket, a timer, the operating
  system or the scheduler, and is \<open>None\<close> where the event cannot happen.  A reachable state is one
  after a list of events; so every property of reachable states holds for every peer, every
  network and every order in which the executors run what is ready.  Objects that share state
  (server: connections, controllers, shares, workers; client: controller, shares, workers) are
  in one state, with heaps of objects.  Exceptions are values of \<open>exn\<close>, results are \<open>exn + 'a\<close>.

  A read or a write may fail at any moment, as the network may; but an operation is aborted only after
  the program cancelled it or closed its socket, one that begins on a closed socket cannot succeed, and in
  the workers and the client's controller the wait for a timer ends only when the timer was
  changed or cancelled since the wait began or has an expiry (\<open>wait_may_end\<close>), so that a wait at
  \<open>time_point::max()\<close> that nobody cancels lasts for ever.  The events that come by themselves, without the
  peer and without time, are \<open>worker_due\<close> and \<open>cworker_due\<close>; liveness is stated with them.

  Machine integers are words where the code can depend on their width (ports, lengths, epochs, the
  numbers of the configuration); ids and counts of objects are mathematical integers, which is
  the same up to the 2147483648th object of a kind.  Time is a natural number of seconds.

  Libraries are arguments: Boost.JSON is the record \<open>json_lib\<close> with the laws \<open>boost_json\<close>,
  a stream of Asio the record \<open>stream_lib\<close> with \<open>asio_stream\<close>, a C stream \<open>stdio_lib\<close> (\<open>feof\<close>,
  \<open>fread\<close>, \<open>ferror\<close> and \<open>errno\<close>, on which \<open>file_eof\<close> and \<open>file_read\<close> are built) with \<open>c_stdio\<close>,
  the operating system \<open>os_lib\<close>, {fmt} \<open>fmt_lib\<close>.  The laws state documented behaviour;
  each has a concrete instance, with which the witnesses of the properties run.

  Two loops are not structural: receiving a large frame and reading a file.  They are
  \<open>partial_function (option)\<close>; that they return is proved (\<open>recv_msg_total\<close>, \<open>parse_loop_returns\<close>).  No
  definition uses fuel.  Winding down a stopped worker, of either program, is bounded by a measure, and an
  event is due as long as the measure is not 0.

  \<^bold>\<open>What the lemmas show\<close>

  \<^item> Wire: length prefix, messages, frames and configurations come back as they were sent; a frame is
    bounded; a coroutine only handles messages of the types it expects.
  \<^item> Queue: first come first served, every handler called once, a closed queue resumes everyone.
  \<^item> Server: ids and uuids are exclusive, the registries implement an abstract directory, a hello registers all or (a flaw) half of its shares, a
    visit hands the connection over, a stop reaches everything that is listed, a stopped worker
    is never handed out and winds down.
  \<^item> Client: the worker follows the protocol, its coroutines do not write at once, workers are counted
    and listed exactly, a low share is refilled, a stop reaches everything and a stopped worker winds down
    but for a ping in the way (a flaw); a dead connection
    stops the client, a share that lost its workers stays without (flaws).
  \<^item> Both ends of a worker connection: they agree on visits and confirmations in every interleaving, the
    right reader of a frame understands it (but \<open>recv_msgs\<close> may be the wrong one during a visit, a
    flaw), and a visit can be carried through from end to end.
  \<^item> Client and server: what each sends on the control connection the other reads at that place, the
    shares of a configuration are registered with their ports when the names are free, a
    worker that a client adds is attached to the share of its name, and a user is matched with the
    worker that waited longest (or waits for the next one) and handed through to the client's forwarder;
    there both forwarders give it a pipe, and it can exchange any bytes with the local service until
    both pipes are destroyed.
  \<^item> Data plane: a pipe carries its bytes in order, an orderly end closes one direction only, the stop of
    a forwarder reaches its pipes.  A tunnel of two pipes is transparent, delivers every stream, and
    an orderly end at its outlet means that everything came through (but a reset between the programs
    looks the same, a flaw).
  \<^item> Processes: every documented command line is parsed as documented (two undocumented kinds are
    accepted too), log messages are printed once, the exit
    status tells what happened but for a failed set-up.

  \<^bold>\<open>Not modelled\<close>

  Races of threads inside one event; here events are atomic.  What the forwarders' threads ask of a queue or of
  a worker is posted to the main \<open>ioc\<close> and \<open>nr_workers_\<close> is atomic, but \<open>tcp_share::handle_error\<close> stops the
  controller from a thread of the forwarders.  In \<open>share_resume\<close> the \<open>lock()\<close> of the worker, on a thread of the
  forwarders, and the start of its \<open>visit\<close>, on the main one, are one event; a stop that comes between them is
  covered for the worker itself, whose visit may begin in any state (\<open>stopped_worker_never_handed_out\<close>).  Log output of the components, which no state depends on.
  The bare pointer that \<open>waitqueue::close\<close> posts: its closure is taken to run before the queue is
  destroyed.  \<open>bindings.hpp\<close> and \<open>concepts.hpp\<close>, which hold no code
  that runs, and the build files.  In a session, what is left of a frame when a cancel cuts it in two.
  There is no single transition system of a client, a server, their users and services: each program is
  proved against every behaviour of the others, and composed where they meet, in one
  worker connection, in one tunnel, in the greetings and on the way of one user.
\<close>

end
